(* ===== verification/NxPrelude.thy ===== *)
theory NxPrelude
  imports Main "HOL-Library.Word"
begin

text \<open>
  Shared vocabulary of the development: the widths of the C integer types on the STM32F427
  (a 32-bit ILP32 target, so \<^verbatim>\<open>int\<close>, \<^verbatim>\<open>long\<close> and \<^verbatim>\<open>size_t\<close> have 32 bits), the negated
  \<^verbatim>\<open>errno\<close> values that kernel functions return, and the list and word facts about circular
  buffers that the components share.  A ring is read as the list of its occupied slots
  (\<open>ring_list\<close>); every ring of the program (the application's chunk ring, the byte rings of
  the serial driver, the circular buffers under uORB) is related to a FIFO through it.
\<close>

unbundle bit_operations_syntax

section \<open>C types and error numbers\<close>

type_synonym u8 = "8 word"
type_synonym u16 = "16 word"
type_synonym u32 = "32 word"
type_synonym u64 = "64 word"
type_synonym pid = nat

text \<open>The error numbers that the modelled code returns, as \<^verbatim>\<open>-E...\<close>.\<close>

datatype errno =
    ENOENT | EINTR | EIO | EAGAIN | ENOMEM | EBUSY | EEXIST | ENODEV | EINVAL
  | EMFILE | ENOTTY | ENOSPC | ERANGE | EOVERFLOW | ETIMEDOUT | ENODATA | ENOTSUP
  | ECANCELED | EBADF | EPERM | ENOTCONN | EBADFD | ESRCH

text \<open>A function that returns a negated error number or a value.\<close>

type_synonym 'a res = "errno + 'a"

abbreviation OK :: "unit res" where
  "OK \<equiv> Inr ()"

named_theorems ring_simps \<open>rewriting circular buffers to the lists they hold\<close>
named_theorems word_simps \<open>moving from words to natural numbers\<close>

section \<open>Words\<close>

lemma unat_Suc_mod_dvd:
  fixes x :: "'a::len word"
  assumes "n dvd 2 ^ LENGTH('a)"
  shows "unat (x + 1) mod n = Suc (unat x) mod n"
  using assms by (simp add: unat_word_ariths mod_mod_cancel)

lemma unat_add_mod_dvd:
  fixes x y :: "'a::len word"
  assumes "n dvd 2 ^ LENGTH('a)"
  shows "unat (x + y) mod n = (unat x + unat y) mod n"
  using assms by (simp add: unat_word_ariths mod_mod_cancel)

lemma unat_add_no_wrap:
  fixes x y :: "'a::len word"
  assumes "unat x + unat y < 2 ^ LENGTH('a)"
  shows "unat (x + y) = unat x + unat y"
  using assms by (simp add: unat_word_ariths)

lemma unat_sub_le:
  fixes x y :: "'a::len word"
  assumes "unat y \<le> unat x"
  shows "unat (x - y) = unat x - unat y"
  using assms by (simp add: unat_sub word_le_nat_alt)

lemma unat_Suc_less:
  fixes x :: "'a::len word"
  assumes "unat x < n" "n < 2 ^ LENGTH('a)"
  shows "unat (x + 1) = Suc (unat x)"
  using assms by (simp add: unat_word_ariths)

lemma unat_pred:
  fixes x :: "'a::len word"
  assumes "x \<noteq> 0"
  shows "unat (x - 1) = unat x - 1"
  using assms by (metis unat_minus_one)

lemma sint_small:
  fixes x :: u32
  assumes "unat x < 2 ^ 31"
  shows "sint x = int (unat x)"
proof -
  have "int (unat x) < int (2 ^ 31)" using assms by (simp only: of_nat_less_iff)
  then have "uint x < 2 ^ 31" by simp
  moreover have "- (2 ^ 31) \<le> uint x" by (rule order_trans [of _ 0]) simp_all
  ultimately show ?thesis using signed_take_bit_int_eq_self [of 31 "uint x"] by (simp add: sint_uint)
qed

section \<open>Memory copies\<close>

text \<open>\<^verbatim>\<open>memcpy(dst + off, src, n)\<close> for a destination array large enough to hold it.\<close>

definition memcpy_at :: "'a list \<Rightarrow> nat \<Rightarrow> 'a list \<Rightarrow> 'a list" where
  "memcpy_at dst off src = take off dst @ src @ drop (off + length src) dst"

lemma length_memcpy_at [simp]:
  "off + length src \<le> length dst \<Longrightarrow> length (memcpy_at dst off src) = length dst"
  by (simp add: memcpy_at_def)

lemma memcpy_at_Nil [simp]: "memcpy_at dst off [] = dst"
  by (simp add: memcpy_at_def)

lemma nth_memcpy_at:
  assumes "off + length src \<le> length dst" "i < length dst"
  shows "memcpy_at dst off src ! i =
    (if off \<le> i \<and> i < off + length src then src ! (i - off) else dst ! i)"
  using assms by (auto simp: memcpy_at_def nth_append min_def)

section \<open>Rings as lists\<close>

text \<open>The \<open>n\<close> occupied slots of the ring \<open>mem\<close>, the oldest at position \<open>pos\<close>.\<close>

definition ring_list :: "'a list \<Rightarrow> nat \<Rightarrow> nat \<Rightarrow> 'a list" where
  "ring_list mem pos n = map (\<lambda>i. mem ! ((pos + i) mod length mem)) [0..<n]"

lemma length_ring_list [simp]: "length (ring_list mem pos n) = n"
  by (simp add: ring_list_def)

lemma ring_list_0 [simp]: "ring_list mem pos 0 = []"
  by (simp add: ring_list_def)

lemma nth_ring_list:
  "i < n \<Longrightarrow> ring_list mem pos n ! i = mem ! ((pos + i) mod length mem)"
  by (simp add: ring_list_def)

lemma ring_list_Suc:
  "ring_list mem pos (Suc n) = mem ! (pos mod length mem) # ring_list mem (Suc pos) n"
  unfolding ring_list_def
  by (subst upt_conv_Cons) (simp_all add: map_Suc_upt [symmetric] del: upt_Suc)

lemma ring_list_cong_pos:
  assumes "pos mod length mem = pos' mod length mem"
  shows "ring_list mem pos n = ring_list mem pos' n"
proof -
  have "(pos + i) mod length mem = (pos' + i) mod length mem" for i
    using assms by (rule mod_add_cong) simp
  then show ?thesis by (simp add: ring_list_def)
qed

lemma ring_index_inj:
  assumes "(pos + i) mod m = (pos + j) mod m" "i < m" "j < (m::nat)"
  shows "i = j"
proof (rule ccontr)
  assume "i \<noteq> j"
  then consider "i < j" | "j < i" by linarith
  then show False
  proof cases
    case 1
    with assms(1) have "m dvd j - i"
      using mod_eq_dvd_iff_nat [of "pos + i" "pos + j" m] by simp
    with 1 assms(3) show False by (simp add: nat_dvd_not_less)
  next
    case 2
    with assms(1) have "m dvd i - j"
      using mod_eq_dvd_iff_nat [of "pos + j" "pos + i" m] by simp
    with 2 assms(2) show False by (simp add: nat_dvd_not_less)
  qed
qed

text \<open>Storing one element behind the newest appends it.\<close>

lemma ring_list_snoc [ring_simps]:
  assumes "n < length mem" "p mod length mem = (pos + n) mod length mem"
  shows "ring_list (mem[p mod length mem := x]) pos (Suc n) = ring_list mem pos n @ [x]"
proof (rule nth_equalityI)
  fix i
  assume "i < length (ring_list (mem[p mod length mem := x]) pos (Suc n))"
  then have i: "i \<le> n" by simp
  have "i < n \<Longrightarrow> (pos + n) mod length mem \<noteq> (pos + i) mod length mem"
    using ring_index_inj [of pos n "length mem" i] assms(1) by auto
  moreover have "(pos + n) mod length mem < length mem"
    using assms(1) by (intro mod_less_divisor) linarith
  ultimately show "ring_list (mem[p mod length mem := x]) pos (Suc n) ! i
      = (ring_list mem pos n @ [x]) ! i"
    using i assms(2) by (cases "i = n") (auto simp: nth_ring_list nth_append)
qed simp

end
