(* ===== verification/NxSched.thy ===== *)
theory NxSched
  imports NxPrelude
begin

text \<open>
  The task lists of the NuttX scheduler in the single-CPU configuration of the board
  (\<^verbatim>\<open>nuttx/sched/sched\<close>, \<^verbatim>\<open>nuttx/sched/task/task_activate.c\<close>).  A task control block is
  named by its pid; the doubly linked task lists are lists of pids.  Every function below runs
  inside a critical section of the source, so it is one atomic step; a context switch is the
  change of \<open>this_task\<close>, the head of the ready-to-run list.
\<close>

section \<open>Task control blocks and task lists\<close>

datatype tstate_t =
    TSTATE_TASK_INVALID
  | TSTATE_TASK_PENDING
  | TSTATE_TASK_READYTORUN
  | TSTATE_TASK_RUNNING
  | TSTATE_TASK_INACTIVE
  | TSTATE_WAIT_SEM
  | TSTATE_WAIT_SIG

text \<open>
  The fields of \<^verbatim>\<open>struct tcb_s\<close> that the modelled code reads or writes.  \<open>sigpending\<close> says
  whether an unmasked signal is pending for the task; \<open>waitobj\<close> is the address of the
  semaphore the task waits for.  Semaphores live in a store indexed by their address, since a
  blocked task is linked into the wait list of the one it waits for; \<open>semval\<close> is the union of
  the count and the holder word of \<^verbatim>\<open>struct sem_s\<close>.
\<close>

record tcb_s =
  sched_priority :: u8
  task_state :: tstate_t
  lockcount :: int
  timeslice :: int
  waitobj :: "nat option"
  errcode :: "errno option"
  sigpending :: bool

record sem_t =
  semval :: u32
  flags :: u8
  waitlist :: "pid list"

record kernel =
  tcbs :: "pid \<Rightarrow> tcb_s"
  sems :: "nat \<Rightarrow> sem_t"
  g_pidhash :: "pid option list"
  g_lastpid :: pid
  g_readytorun :: "pid list"
  g_pendingtasks :: "pid list"
  g_waitingforsignal :: "pid list"
  g_inactivetasks :: "pid list"
  interrupt_context :: bool

text \<open>The idle task is created first and has pid 0.\<close>

definition idle_pid :: pid where
  "idle_pid = 0"

definition this_task :: "kernel \<Rightarrow> pid" where
  "this_task k = (case g_readytorun k of [] \<Rightarrow> idle_pid | p # _ \<Rightarrow> p)"

definition prio :: "kernel \<Rightarrow> pid \<Rightarrow> u8" where
  "prio k p = sched_priority (tcbs k p)"

definition upd_tcb :: "pid \<Rightarrow> (tcb_s \<Rightarrow> tcb_s) \<Rightarrow> kernel \<Rightarrow> kernel" where
  "upd_tcb p f k = k\<lparr>tcbs := (tcbs k)(p := f (tcbs k p))\<rparr>"

definition set_state :: "pid \<Rightarrow> tstate_t \<Rightarrow> kernel \<Rightarrow> kernel" where
  "set_state p t k = upd_tcb p (\<lambda>c. c\<lparr>task_state := t\<rparr>) k"

definition upd_sem :: "nat \<Rightarrow> (sem_t \<Rightarrow> sem_t) \<Rightarrow> kernel \<Rightarrow> kernel" where
  "upd_sem a f k = k\<lparr>sems := (sems k)(a := f (sems k a))\<rparr>"

definition nxsched_islocked_tcb :: "kernel \<Rightarrow> pid \<Rightarrow> bool" where
  "nxsched_islocked_tcb k p \<longleftrightarrow> lockcount (tcbs k p) > 0"

text \<open>
  The pid table has a power of two entries, so \<^verbatim>\<open>PIDHASH\<close> masks the low bits of the pid; an
  entry holds the task of that index or \<open>None\<close>.
\<close>

definition PIDHASH :: "nat \<Rightarrow> pid \<Rightarrow> nat" where
  "PIDHASH n p = p AND (n - 1)"

definition nxsched_get_tcb :: "kernel \<Rightarrow> pid \<Rightarrow> pid option" where
  "nxsched_get_tcb k p =
     (if g_pidhash k = [] then None
      else
        (let hash_ndx = PIDHASH (length (g_pidhash k)) p
         in case g_pidhash k ! hash_ndx of
              Some q \<Rightarrow> if p = q then Some q else None
            | None \<Rightarrow> None))"

section \<open>Operations on the lists\<close>

text \<open>
  \<^verbatim>\<open>nxsched_add_prioritized\<close>: skip every task whose priority is at least that of the new one,
  insert in front of the first that is lower; the result says whether it became the head.
\<close>

definition nxsched_add_prioritized :: "kernel \<Rightarrow> pid \<Rightarrow> pid list \<Rightarrow> bool \<times> pid list" where
  "nxsched_add_prioritized k tcb list =
     (let before = takeWhile (\<lambda>next. prio k tcb \<le> prio k next) list;
          after = dropWhile (\<lambda>next. prio k tcb \<le> prio k next) list
      in (before = [], before @ tcb # after))"

definition nxsched_add_readytorun :: "pid \<Rightarrow> kernel \<Rightarrow> bool \<times> kernel" where
  "nxsched_add_readytorun btcb k =
     (let rtcb = this_task k in
      if nxsched_islocked_tcb k rtcb \<and> prio k rtcb < prio k btcb then
        (False,
         set_state btcb TSTATE_TASK_PENDING
           (k\<lparr>g_pendingtasks := snd (nxsched_add_prioritized k btcb (g_pendingtasks k))\<rparr>))
      else
        (let (head, list') = nxsched_add_prioritized k btcb (g_readytorun k);
             k' = k\<lparr>g_readytorun := list'\<rparr>
         in if head then
              (let k'' = set_state btcb TSTATE_TASK_RUNNING k'
               in (True, case g_readytorun k of
                           [] \<Rightarrow> k''
                         | flink # _ \<Rightarrow> set_state flink TSTATE_TASK_READYTORUN k''))
            else (False, set_state btcb TSTATE_TASK_READYTORUN k')))"

text \<open>
  \<^verbatim>\<open>nxsched_remove_readytorun\<close>: the task leaves the list its state names; when it was the
  running task, the next one in the list becomes running.
\<close>

definition nxsched_remove_readytorun :: "pid \<Rightarrow> kernel \<Rightarrow> bool \<times> kernel" where
  "nxsched_remove_readytorun rtcb k =
     (let runnable = task_state (tcbs k rtcb) \<in> {TSTATE_TASK_READYTORUN, TSTATE_TASK_RUNNING};
          ishead = (case g_readytorun k of [] \<Rightarrow> False | p # _ \<Rightarrow> p = rtcb);
          doswitch = (ishead \<and> runnable);
          k1 = (if doswitch then
                  (case tl (g_readytorun k) of
                     [] \<Rightarrow> k
                   | nxttcb # _ \<Rightarrow> set_state nxttcb TSTATE_TASK_RUNNING k)
                else k);
          k2 = (if runnable then k1\<lparr>g_readytorun := remove1 rtcb (g_readytorun k1)\<rparr>
                else if task_state (tcbs k rtcb) = TSTATE_TASK_PENDING
                then k1\<lparr>g_pendingtasks := remove1 rtcb (g_pendingtasks k1)\<rparr>
                else k1)
      in (doswitch, set_state rtcb TSTATE_TASK_INVALID k2))"

text \<open>
  The loop of \<^verbatim>\<open>nxsched_merge_pending\<close>: the ready-to-run list is split into the part the
  search has passed and the part that starts at the search position \<^verbatim>\<open>rtcb\<close>; each pending task
  goes in front of the first task of lower priority at or behind the search position.
\<close>

fun merge_loop :: "pid list \<Rightarrow> pid list \<Rightarrow> pid list \<Rightarrow> bool \<times> kernel \<Rightarrow> bool \<times> kernel" where
  "merge_loop passed rest [] (ret, k) =
     (ret, k\<lparr>g_readytorun := passed @ rest, g_pendingtasks := []\<rparr>)"
| "merge_loop passed rest (ptcb # pnext) (ret, k) =
     (let skipped = takeWhile (\<lambda>r. prio k ptcb \<le> prio k r) rest;
          rest' = dropWhile (\<lambda>r. prio k ptcb \<le> prio k r) rest;
          passed' = passed @ skipped
      in merge_loop passed' (ptcb # rest') pnext
           (if passed' = [] then
              (True, set_state ptcb TSTATE_TASK_RUNNING
                       (case rest' of [] \<Rightarrow> k | rtcb # _ \<Rightarrow> set_state rtcb TSTATE_TASK_READYTORUN k))
            else (ret, set_state ptcb TSTATE_TASK_READYTORUN k)))"

definition nxsched_merge_pending :: "kernel \<Rightarrow> bool \<times> kernel" where
  "nxsched_merge_pending k =
     (if nxsched_islocked_tcb k (this_task k) then (False, k)
      else merge_loop [] (g_readytorun k) (g_pendingtasks k) (False, k))"

definition nxsched_remove_self :: "pid \<Rightarrow> kernel \<Rightarrow> kernel" where
  "nxsched_remove_self tcb k =
     (let k' = snd (nxsched_remove_readytorun tcb k)
      in if g_pendingtasks k' \<noteq> [] then snd (nxsched_merge_pending k') else k')"

definition nxsched_remove_blocked :: "pid \<Rightarrow> kernel \<Rightarrow> kernel" where
  "nxsched_remove_blocked btcb k =
     (let k' = (case task_state (tcbs k btcb) of
                  TSTATE_TASK_INACTIVE \<Rightarrow> k\<lparr>g_inactivetasks := remove1 btcb (g_inactivetasks k)\<rparr>
                | TSTATE_WAIT_SIG \<Rightarrow> k\<lparr>g_waitingforsignal := remove1 btcb (g_waitingforsignal k)\<rparr>
                | TSTATE_WAIT_SEM \<Rightarrow>
                    (case waitobj (tcbs k btcb) of
                       Some a \<Rightarrow> upd_sem a (\<lambda>s. s\<lparr>waitlist := remove1 btcb (waitlist s)\<rparr>) k
                     | None \<Rightarrow> k)
                | _ \<Rightarrow> k)
      in upd_tcb btcb (\<lambda>c. c\<lparr>waitobj := None, task_state := TSTATE_TASK_INVALID\<rparr>) k')"

definition nxtask_activate :: "pid \<Rightarrow> kernel \<Rightarrow> kernel" where
  "nxtask_activate tcb k = snd (nxsched_add_readytorun tcb (nxsched_remove_blocked tcb k))"

section \<open>Preemption lock\<close>

definition sched_lock :: "kernel \<Rightarrow> kernel" where
  "sched_lock k =
     (if interrupt_context k then k
      else upd_tcb (this_task k) (\<lambda>c. c\<lparr>lockcount := lockcount c + 1\<rparr>) k)"

text \<open>
  \<^verbatim>\<open>sched_unlock\<close>: what follows the context switch of the source runs when the caller is running
  again; its guard \<^verbatim>\<open>rtcb != this_task()\<close> is false there, so nothing is left to do.
\<close>

definition sched_unlock :: "kernel \<Rightarrow> kernel" where
  "sched_unlock k =
     (if interrupt_context k then k
      else
        (let rtcb = this_task k in
         if lockcount (tcbs k rtcb) = 1 then
           (let k1 = upd_tcb rtcb (\<lambda>c. c\<lparr>lockcount := 0\<rparr>) k
            in if g_pendingtasks k1 \<noteq> [] then snd (nxsched_merge_pending k1) else k1)
         else upd_tcb rtcb (\<lambda>c. c\<lparr>lockcount := lockcount c - 1\<rparr>) k))"

section \<open>Yielding, round robin and sleeping\<close>

text \<open>\<^verbatim>\<open>CONFIG_RR_INTERVAL\<close> is 200 ms and a tick is 10 ms.\<close>

definition rr_ticks :: int where
  "rr_ticks = 20"

definition nxsched_reprioritize_rtr :: "pid \<Rightarrow> u8 \<Rightarrow> kernel \<Rightarrow> bool \<times> kernel" where
  "nxsched_reprioritize_rtr tcb priority k =
     (let (sw1, k1) = nxsched_remove_readytorun tcb k;
          k2 = upd_tcb tcb (\<lambda>c. c\<lparr>sched_priority := priority\<rparr>) k1;
          (sw2, k3) = nxsched_add_readytorun tcb k2;
          switch_needed = (sw1 \<noteq> sw2)
      in (switch_needed,
          if switch_needed \<and> g_pendingtasks k3 \<noteq> [] then snd (nxsched_merge_pending k3) else k3))"

text \<open>
  \<^verbatim>\<open>nxsched_process_roundrobin\<close>; the first component is the returned number of ticks until the
  slice ends, with \<open>None\<close> for \<^verbatim>\<open>CLOCK_MAX\<close>.
\<close>

definition nxsched_process_roundrobin ::
  "pid \<Rightarrow> int \<Rightarrow> bool \<Rightarrow> kernel \<Rightarrow> int option \<times> kernel" where
  "nxsched_process_roundrobin tcb ticks noswitches k =
     (let decr = min (timeslice (tcbs k tcb)) ticks;
          k1 = upd_tcb tcb (\<lambda>c. c\<lparr>timeslice := timeslice c - decr\<rparr>) k
      in if timeslice (tcbs k1 tcb) \<le> 0 \<and> \<not> nxsched_islocked_tcb k1 tcb then
           (if noswitches then (Some 0, k1)
            else
              (let k2 = upd_tcb tcb (\<lambda>c. c\<lparr>timeslice := rr_ticks\<rparr>) k1
               in (Some rr_ticks,
                   case dropWhile (\<lambda>p. p \<noteq> tcb) (g_readytorun k2) of
                     _ # flink # _ \<Rightarrow>
                       (if prio k2 flink \<ge> prio k2 tcb
                        then snd (nxsched_reprioritize_rtr tcb (prio k2 tcb) k2) else k2)
                   | _ \<Rightarrow> k2)))
         else (if timeslice (tcbs k1 tcb) = 0 then None else Some (timeslice (tcbs k1 tcb)), k1))"

subsection \<open>Changing a priority\<close>

text \<open>
  The loop of \<^verbatim>\<open>nxsched_running_setpriority\<close> for a locked scheduler: the tasks behind the running
  one that would now preempt it move to the pending list.  It runs once unconditionally; the fuel
  is the number of tasks behind the running one.
\<close>

definition move_to_pending :: "pid \<Rightarrow> kernel \<Rightarrow> kernel" where
  "move_to_pending nxttcb k =
     (let k1 = snd (nxsched_remove_readytorun nxttcb k)
      in set_state nxttcb TSTATE_TASK_PENDING
           (k1\<lparr>g_pendingtasks := snd (nxsched_add_prioritized k1 nxttcb (g_pendingtasks k1))\<rparr>))"

fun pend_loop :: "nat \<Rightarrow> u8 \<Rightarrow> kernel \<Rightarrow> kernel" where
  "pend_loop fuel sched_prio k =
     (case (fuel, g_readytorun k) of
        (Suc fuel', tcb # nxttcb # _) \<Rightarrow>
          (let k' = move_to_pending nxttcb k
           in case g_readytorun k' of
                _ # nxt # _ \<Rightarrow> if sched_prio < prio k' nxt then pend_loop fuel' sched_prio k' else k'
              | _ \<Rightarrow> k')
      | _ \<Rightarrow> k)"

declare pend_loop.simps [simp del]

definition set_prio :: "pid \<Rightarrow> u8 \<Rightarrow> kernel \<Rightarrow> kernel" where
  "set_prio tcb sched_prio k = upd_tcb tcb (\<lambda>c. c\<lparr>sched_priority := sched_prio\<rparr>) k"

definition nxsched_running_setpriority :: "pid \<Rightarrow> u8 \<Rightarrow> kernel \<Rightarrow> kernel" where
  "nxsched_running_setpriority tcb sched_prio k =
     (case g_readytorun k of
        _ # nxttcb # _ \<Rightarrow>
          (if sched_prio \<le> prio k nxttcb then
             (if nxsched_islocked_tcb k (this_task k)
              then set_prio tcb sched_prio (pend_loop (length (g_readytorun k)) sched_prio k)
              else snd (nxsched_reprioritize_rtr tcb sched_prio k))
           else set_prio tcb sched_prio k)
      | _ \<Rightarrow> set_prio tcb sched_prio k)"

definition nxsched_readytorun_setpriority :: "pid \<Rightarrow> u8 \<Rightarrow> kernel \<Rightarrow> kernel" where
  "nxsched_readytorun_setpriority tcb sched_prio k =
     snd (nxsched_reprioritize_rtr tcb sched_prio k)"

text \<open>Only the pending list and the wait lists of semaphores are kept in order of priority.\<close>

definition nxsched_blocked_setpriority :: "pid \<Rightarrow> u8 \<Rightarrow> kernel \<Rightarrow> kernel" where
  "nxsched_blocked_setpriority tcb sched_prio k =
     (let k' = set_prio tcb sched_prio k;
          readd = (\<lambda>l. snd (nxsched_add_prioritized k' tcb (remove1 tcb l)))
      in case task_state (tcbs k tcb) of
           TSTATE_TASK_PENDING \<Rightarrow> k'\<lparr>g_pendingtasks := readd (g_pendingtasks k)\<rparr>
         | TSTATE_WAIT_SEM \<Rightarrow>
             (case waitobj (tcbs k tcb) of
                Some a \<Rightarrow> upd_sem a (\<lambda>s. s\<lparr>waitlist := readd (waitlist s)\<rparr>) k'
              | None \<Rightarrow> k')
         | _ \<Rightarrow> k')"

definition nxsched_set_priority :: "pid \<Rightarrow> int \<Rightarrow> kernel \<Rightarrow> unit res \<times> kernel" where
  "nxsched_set_priority tcb sched_prio k =
     (if sched_prio < 1 \<or> sched_prio > 255 then (Inl EINVAL, k)
      else
        (OK, case task_state (tcbs k tcb) of
               TSTATE_TASK_RUNNING \<Rightarrow> nxsched_running_setpriority tcb (word_of_int sched_prio) k
             | TSTATE_TASK_READYTORUN \<Rightarrow>
                 nxsched_readytorun_setpriority tcb (word_of_int sched_prio) k
             | _ \<Rightarrow> nxsched_blocked_setpriority tcb (word_of_int sched_prio) k))"

definition sched_yield :: "kernel \<Rightarrow> unit res \<times> kernel" where
  "sched_yield k =
     (let rtcb = this_task k in nxsched_set_priority rtcb (uint (prio k rtcb)) k)"

subsection \<open>Sleeping\<close>

text \<open>
  \<^verbatim>\<open>nxsched_abstick_sleep\<close> up to the context switch: the caller leaves the ready-to-run list
  and joins the sleeping tasks; \<^verbatim>\<open>nxsched_wakeup\<close> is what its watchdog timer runs.
\<close>

definition nxsched_abstick_sleep :: "kernel \<Rightarrow> kernel" where
  "nxsched_abstick_sleep k =
     (let rtcb = this_task k;
          k1 = nxsched_remove_self rtcb k;
          k2 = set_state rtcb TSTATE_WAIT_SIG k1
      in k2\<lparr>g_waitingforsignal := g_waitingforsignal k2 @ [rtcb]\<rparr>)"

text \<open>\<^verbatim>\<open>nxsched_ticksleep\<close> with 0 ticks yields.\<close>

definition nxsched_ticksleep :: "nat \<Rightarrow> kernel \<Rightarrow> kernel" where
  "nxsched_ticksleep ticks k =
     (if ticks = 0 then snd (sched_yield k) else nxsched_abstick_sleep k)"

definition nxsched_wakeup :: "pid \<Rightarrow> kernel \<Rightarrow> kernel" where
  "nxsched_wakeup tcb k =
     (if task_state (tcbs k tcb) = TSTATE_WAIT_SIG then
        snd (nxsched_add_readytorun tcb
               (k\<lparr>g_waitingforsignal := remove1 tcb (g_waitingforsignal k)\<rparr>))
      else k)"

section \<open>Lists ordered by priority\<close>

definition by_prio :: "kernel \<Rightarrow> pid list \<Rightarrow> bool" where
  "by_prio k l \<longleftrightarrow> sorted_wrt (\<lambda>a b. prio k b \<le> prio k a) l"

lemma by_prio_Nil [simp]: "by_prio k []"
  by (simp add: by_prio_def)

lemma by_prio_Cons [simp]:
  "by_prio k (p # l) \<longleftrightarrow> (\<forall>q \<in> set l. prio k q \<le> prio k p) \<and> by_prio k l"
  by (simp add: by_prio_def)

lemma by_prio_append:
  "by_prio k (l @ m) \<longleftrightarrow> by_prio k l \<and> by_prio k m \<and> (\<forall>p \<in> set l. \<forall>q \<in> set m. prio k q \<le> prio k p)"
  by (auto simp: by_prio_def sorted_wrt_append)

lemma by_prio_remove1: "by_prio k l \<Longrightarrow> by_prio k (remove1 p l)"
  by (induction l) (auto dest: set_remove1_subset [THEN subsetD])

lemma by_prio_dropWhile_less:
  assumes "by_prio k l" "q \<in> set (dropWhile (\<lambda>n. prio k p \<le> prio k n) l)"
  shows "prio k q < prio k p"
  using assms
proof (induction l)
  case (Cons n l)
  then show ?case by (cases "prio k p \<le> prio k n") auto
qed simp

lemma by_prio_insert:
  assumes "by_prio k l"
  shows "by_prio k (takeWhile (\<lambda>n. prio k p \<le> prio k n) l @ p #
           dropWhile (\<lambda>n. prio k p \<le> prio k n) l)"
proof -
  let ?P = "\<lambda>n. prio k p \<le> prio k n"
  obtain ys zs where ys: "takeWhile ?P l = ys" and zs: "dropWhile ?P l = zs" by blast
  have split: "by_prio k (ys @ zs)" using assms unfolding ys [symmetric] zs [symmetric] by simp
  have tw: "\<forall>q \<in> set ys. prio k p \<le> prio k q" using ys by (auto dest: set_takeWhileD)
  have dw: "\<forall>q \<in> set zs. prio k q \<le> prio k p"
    using by_prio_dropWhile_less [OF assms] zs by (auto intro: order.strict_implies_order)
  from split tw dw show ?thesis unfolding ys zs by (auto simp: by_prio_append)
qed

lemma add_prioritized_snd:
  "snd (nxsched_add_prioritized k p l) =
     takeWhile (\<lambda>n. prio k p \<le> prio k n) l @ p # dropWhile (\<lambda>n. prio k p \<le> prio k n) l"
  by (simp add: nxsched_add_prioritized_def Let_def)

lemma set_takeWhile_dropWhile: "set (takeWhile P l) \<union> set (dropWhile P l) = set l"
  by (metis set_append takeWhile_dropWhile_id)

lemma set_add_prioritized [simp]:
  "set (snd (nxsched_add_prioritized k p l)) = insert p (set l)"
  using set_takeWhile_dropWhile [of "\<lambda>n. prio k p \<le> prio k n" l]
  by (auto simp: add_prioritized_snd)

lemma distinct_insert_split:
  assumes "distinct l" "p \<notin> set l"
  shows "distinct (takeWhile P l @ p # dropWhile P l)"
proof -
  obtain ys zs where ys: "takeWhile P l = ys" and zs: "dropWhile P l = zs" by blast
  have "l = ys @ zs" unfolding ys [symmetric] zs [symmetric] by simp
  with assms have "distinct (ys @ p # zs)" by auto
  then show ?thesis unfolding ys zs .
qed

lemma distinct_add_prioritized:
  assumes "distinct l" "p \<notin> set l"
  shows "distinct (snd (nxsched_add_prioritized k p l))"
  unfolding add_prioritized_snd using assms by (rule distinct_insert_split)

lemma by_prio_add_prioritized:
  "by_prio k l \<Longrightarrow> by_prio k (snd (nxsched_add_prioritized k p l))"
  by (simp add: add_prioritized_snd by_prio_insert)

lemma add_prioritized_head:
  assumes "fst (nxsched_add_prioritized k p l)"
  shows "snd (nxsched_add_prioritized k p l) = p # l"
  using assms by (cases l) (auto simp: nxsched_add_prioritized_def Let_def split: if_splits)

lemma add_prioritized_not_head:
  assumes "\<not> fst (nxsched_add_prioritized k p l)"
  shows "l \<noteq> [] \<and> hd (snd (nxsched_add_prioritized k p l)) = hd l
    \<and> prio k p \<le> prio k (hd l)"
  using assms by (cases l) (auto simp: nxsched_add_prioritized_def Let_def split: if_splits)

section \<open>The scheduler invariant\<close>

text \<open>
  \<open>sched_core\<close>: the lists are ordered by priority and disjoint, each task is in exactly the
  list its state names, the head of the ready-to-run list is the running task and the idle task,
  the only one of priority 0, closes it.
\<close>

definition state_ok :: "kernel \<Rightarrow> pid \<Rightarrow> bool" where
  "state_ok k p \<longleftrightarrow>
     (task_state (tcbs k p) = TSTATE_TASK_RUNNING \<longleftrightarrow> p \<in> set (take 1 (g_readytorun k))) \<and>
     (task_state (tcbs k p) = TSTATE_TASK_READYTORUN \<longleftrightarrow> p \<in> set (drop 1 (g_readytorun k))) \<and>
     (task_state (tcbs k p) = TSTATE_TASK_PENDING \<longleftrightarrow> p \<in> set (g_pendingtasks k)) \<and>
     (task_state (tcbs k p) = TSTATE_WAIT_SIG \<longleftrightarrow> p \<in> set (g_waitingforsignal k)) \<and>
     (task_state (tcbs k p) = TSTATE_TASK_INACTIVE \<longleftrightarrow> p \<in> set (g_inactivetasks k))"

definition states_ok :: "kernel \<Rightarrow> bool" where
  "states_ok k \<longleftrightarrow> (\<forall>p. state_ok k p)"

definition prios_ok :: "kernel \<Rightarrow> bool" where
  "prios_ok k \<longleftrightarrow> (\<forall>p. prio k p = 0 \<longleftrightarrow> p = idle_pid)"

definition sched_core :: "kernel \<Rightarrow> bool" where
  "sched_core k \<longleftrightarrow>
     g_readytorun k \<noteq> [] \<and> last (g_readytorun k) = idle_pid \<and>
     by_prio k (g_readytorun k) \<and> by_prio k (g_pendingtasks k) \<and>
     distinct (g_readytorun k) \<and> distinct (g_pendingtasks k) \<and>
     distinct (g_waitingforsignal k) \<and> distinct (g_inactivetasks k) \<and>
     prios_ok k \<and> states_ok k"

text \<open>\<open>pending_ok\<close>: tasks are held back only while the running task has preemption locked.\<close>

definition pending_ok :: "kernel \<Rightarrow> bool" where
  "pending_ok k \<longleftrightarrow> g_pendingtasks k \<noteq> [] \<longrightarrow>
     nxsched_islocked_tcb k (this_task k)"

definition sched_inv :: "kernel \<Rightarrow> bool" where
  "sched_inv k \<longleftrightarrow> sched_core k \<and> pending_ok k"

text \<open>The task is in none of the lists of the scheduler.\<close>

definition unlisted :: "kernel \<Rightarrow> pid \<Rightarrow> bool" where
  "unlisted k p \<longleftrightarrow> p \<noteq> idle_pid \<and> p \<notin> set (g_readytorun k) \<and> p \<notin> set (g_pendingtasks k)
     \<and> p \<notin> set (g_waitingforsignal k) \<and> p \<notin> set (g_inactivetasks k)"

lemma prio_set_state [simp]: "prio (set_state p t k) = prio k"
  by (auto simp: prio_def set_state_def upd_tcb_def fun_eq_iff)

lemma prio_lists [simp]:
  "prio (k\<lparr>g_readytorun := l\<rparr>) = prio k" "prio (k\<lparr>g_pendingtasks := l\<rparr>) = prio k"
  "prio (k\<lparr>g_waitingforsignal := l\<rparr>) = prio k" "prio (k\<lparr>g_inactivetasks := l\<rparr>) = prio k"
  by (auto simp: prio_def fun_eq_iff)

lemma by_prio_cong: "prio k = prio k' \<Longrightarrow> by_prio k = by_prio k'"
  by (auto simp: by_prio_def fun_eq_iff)

lemma by_prio_state [simp]:
  "by_prio (set_state p t k) = by_prio k"
  "by_prio (k\<lparr>g_readytorun := l\<rparr>) = by_prio k" "by_prio (k\<lparr>g_pendingtasks := l\<rparr>) = by_prio k"
  "by_prio (k\<lparr>g_waitingforsignal := l\<rparr>) = by_prio k"
  "by_prio (k\<lparr>g_inactivetasks := l\<rparr>) = by_prio k"
  by (rule by_prio_cong, simp)+

lemma set_state_lists [simp]:
  "g_readytorun (set_state p t k) = g_readytorun k"
  "g_pendingtasks (set_state p t k) = g_pendingtasks k"
  "g_waitingforsignal (set_state p t k) = g_waitingforsignal k"
  "g_inactivetasks (set_state p t k) = g_inactivetasks k"
  "g_pidhash (set_state p t k) = g_pidhash k"
  "interrupt_context (set_state p t k) = interrupt_context k"
  by (simp_all add: set_state_def upd_tcb_def)

lemma set_state_task_state [simp]:
  "task_state (tcbs (set_state p t k) q) = (if q = p then t else task_state (tcbs k q))"
  by (simp add: set_state_def upd_tcb_def)

lemma set_state_lockcount [simp]:
  "lockcount (tcbs (set_state p t k) q) = lockcount (tcbs k q)"
  by (simp add: set_state_def upd_tcb_def)

lemma prios_ok_cong: "prio k = prio k' \<Longrightarrow> prios_ok k = prios_ok k'"
  by (simp add: prios_ok_def)

text \<open>Inserting a task where its priority puts it keeps the core of the invariant.\<close>

lemma sched_core_insert:
  assumes core: "sched_core k" and l: "g_readytorun k = a @ b" and b: "b \<noteq> []"
    and p: "p \<notin> set (g_readytorun k)"
    and sorted: "by_prio k (a @ p # b)"
  shows "sched_core
    (set_state p (if a = [] then TSTATE_TASK_RUNNING else TSTATE_TASK_READYTORUN)
      (set_state (hd b) (if a = [] then TSTATE_TASK_READYTORUN else task_state (tcbs k (hd b)))
        (k\<lparr>g_readytorun := a @ p # b, g_pendingtasks := remove1 p (g_pendingtasks k),
           g_waitingforsignal := remove1 p (g_waitingforsignal k),
           g_inactivetasks := remove1 p (g_inactivetasks k)\<rparr>)))" (is "sched_core ?k'")
proof -
  obtain h t where bt: "b = h # t" using b by (cases b) auto
  have st: "states_ok k" and d: "distinct (g_readytorun k)" using core by (auto simp: sched_core_def)
  have dl: "distinct (g_pendingtasks k)" "distinct (g_waitingforsignal k)"
    "distinct (g_inactivetasks k)" using core by (auto simp: sched_core_def)
  have ph: "p \<noteq> h" using p l bt by auto
  have "state_ok ?k' q" for q
  proof -
    have "state_ok k q" using st by (simp add: states_ok_def)
    then show ?thesis
      using d dl ph p l bt unfolding state_ok_def
      by (cases "q = p"; cases "q = h"; cases a) (simp_all add: set_remove1_eq)
  qed
  then have "states_ok ?k'" by (simp add: states_ok_def)
  moreover have "prios_ok ?k'" using core by (simp add: sched_core_def prios_ok_def)
  ultimately show ?thesis
    using core l bt p sorted by (auto simp: sched_core_def by_prio_remove1)
qed

lemma set_state_same:
  "task_state (tcbs k p) = t \<Longrightarrow> set_state p t k = k"
  by (auto simp: set_state_def upd_tcb_def fun_eq_iff)

lemma set_state_commute:
  "p \<noteq> q \<Longrightarrow> set_state p t (set_state q u k) = set_state q u (set_state p t k)"
  by (simp add: set_state_def upd_tcb_def fun_upd_twist)

lemma this_task_in: "sched_core k \<Longrightarrow> this_task k \<in> set (g_readytorun k)"
  by (auto simp: sched_core_def this_task_def split: list.splits)

lemma idle_in: "sched_core k \<Longrightarrow> idle_pid \<in> set (g_readytorun k)"
  by (metis last_in_set sched_core_def)

lemma core_prio_pos: "sched_core k \<Longrightarrow> p \<noteq> idle_pid \<Longrightarrow> 0 < prio k p"
  by (metis prios_ok_def sched_core_def word_gt_0)

lemma core_prio_idle: "sched_core k \<Longrightarrow> prio k idle_pid = 0"
  by (auto simp: sched_core_def prios_ok_def)

text \<open>The idle task stops every search for a position in the ready-to-run list.\<close>

lemma dropWhile_ready_nonempty:
  assumes "sched_core k" "p \<noteq> idle_pid" "idle_pid \<in> set l"
  shows "dropWhile (\<lambda>n. prio k p \<le> prio k n) l \<noteq> []"
proof -
  have "\<not> prio k p \<le> prio k idle_pid"
    using core_prio_pos [OF assms(1,2)] core_prio_idle [OF assms(1)] by simp
  with assms(3) show ?thesis by (auto simp: dropWhile_eq_Nil_conv)
qed

lemma add_readytorun_ready:
  assumes "sched_core k" "p \<noteq> idle_pid"
    and "\<not> (nxsched_islocked_tcb k (this_task k) \<and> prio k (this_task k) < prio k p)"
  obtains a b where "g_readytorun k = a @ b" "b \<noteq> []" "by_prio k (a @ p # b)"
    "\<forall>q \<in> set b. prio k q < prio k p"
    "nxsched_add_readytorun p k =
      (a = [], set_state p (if a = [] then TSTATE_TASK_RUNNING else TSTATE_TASK_READYTORUN)
        (set_state (hd b) (if a = [] then TSTATE_TASK_READYTORUN else task_state (tcbs k (hd b)))
          (k\<lparr>g_readytorun := a @ p # b\<rparr>)))"
proof
  let ?P = "\<lambda>n. prio k p \<le> prio k n"
  let ?a = "takeWhile ?P (g_readytorun k)" and ?b = "dropWhile ?P (g_readytorun k)"
  show "g_readytorun k = ?a @ ?b" by simp
  show b: "?b \<noteq> []"
    using dropWhile_ready_nonempty [OF assms(1,2) idle_in [OF assms(1)]] .
  show "by_prio k (?a @ p # ?b)"
    using assms(1) by (intro by_prio_insert) (simp add: sched_core_def)
  show "\<forall>q \<in> set ?b. prio k q < prio k p"
    using assms(1) by (auto intro: by_prio_dropWhile_less simp: sched_core_def)
  show "nxsched_add_readytorun p k =
      (?a = [], set_state p (if ?a = [] then TSTATE_TASK_RUNNING else TSTATE_TASK_READYTORUN)
        (set_state (hd ?b) (if ?a = [] then TSTATE_TASK_READYTORUN else task_state (tcbs k (hd ?b)))
          (k\<lparr>g_readytorun := ?a @ p # ?b\<rparr>)))"
  proof (cases "?a = []")
    case True
    then have eq: "?b = g_readytorun k" by (metis append_Nil takeWhile_dropWhile_id)
    obtain h t where ht: "g_readytorun k = h # t" using b eq by (cases "g_readytorun k") auto
    have ph: "prio k h < prio k p" using True ht by (auto split: if_splits)
    have "nxsched_add_readytorun p k = (True, set_state h TSTATE_TASK_READYTORUN
        (set_state p TSTATE_TASK_RUNNING (k\<lparr>g_readytorun := p # h # t\<rparr>)))"
      using ph assms(3) ht
      by (simp add: nxsched_add_readytorun_def nxsched_add_prioritized_def this_task_def)
    moreover have "p \<noteq> h" using ph by auto
    ultimately show ?thesis
      using True eq ht by (simp add: set_state_commute [of p h])
  next
    case False
    then have "nxsched_add_readytorun p k =
        (False, set_state p TSTATE_TASK_READYTORUN (k\<lparr>g_readytorun := ?a @ p # ?b\<rparr>))"
      unfolding nxsched_add_readytorun_def nxsched_add_prioritized_def Let_def
      using assms(3) by (simp only: if_False prod.case)
    with False show ?thesis by (simp add: set_state_same)
  qed
qed

lemma add_readytorun_pending:
  assumes "nxsched_islocked_tcb k (this_task k)" "prio k (this_task k) < prio k p"
  shows "nxsched_add_readytorun p k = (False, set_state p TSTATE_TASK_PENDING
    (k\<lparr>g_pendingtasks := snd (nxsched_add_prioritized k p (g_pendingtasks k))\<rparr>))"
  using assms by (simp add: nxsched_add_readytorun_def)

lemma sched_core_pend:
  assumes core: "sched_core k" and p: "unlisted k p"
  shows "sched_core (set_state p TSTATE_TASK_PENDING
    (k\<lparr>g_pendingtasks := snd (nxsched_add_prioritized k p (g_pendingtasks k))\<rparr>))" (is "sched_core ?k'")
proof -
  have "state_ok ?k' q" for q
  proof -
    have "state_ok k q" using core by (simp add: sched_core_def states_ok_def)
    then show ?thesis using p set_take_subset set_drop_subset
      unfolding state_ok_def unlisted_def by (cases "q = p") (auto dest: in_set_takeD in_set_dropD)
  qed
  then show ?thesis
    using core p
    by (auto simp: sched_core_def states_ok_def prios_ok_def unlisted_def
        by_prio_add_prioritized distinct_add_prioritized)
qed

lemma islocked_simps [simp]:
  "nxsched_islocked_tcb (set_state p t k) = nxsched_islocked_tcb k"
  "nxsched_islocked_tcb (k\<lparr>g_readytorun := l\<rparr>) = nxsched_islocked_tcb k"
  "nxsched_islocked_tcb (k\<lparr>g_pendingtasks := l\<rparr>) = nxsched_islocked_tcb k"
  "nxsched_islocked_tcb (k\<lparr>g_waitingforsignal := l\<rparr>) = nxsched_islocked_tcb k"
  "nxsched_islocked_tcb (k\<lparr>g_inactivetasks := l\<rparr>) = nxsched_islocked_tcb k"
  by (auto simp: nxsched_islocked_tcb_def fun_eq_iff)

lemma this_task_cong: "g_readytorun k = g_readytorun k' \<Longrightarrow> this_task k = this_task k'"
  by (simp add: this_task_def)

lemma this_task_simps [simp]:
  "this_task (set_state p t k) = this_task k"
  "this_task (k\<lparr>g_pendingtasks := l\<rparr>) = this_task k"
  "this_task (k\<lparr>g_waitingforsignal := l\<rparr>) = this_task k"
  "this_task (k\<lparr>g_inactivetasks := l\<rparr>) = this_task k"
  "this_task (k\<lparr>g_readytorun := q # l\<rparr>) = q"
  by (simp_all add: this_task_def)

lemma remove1_unlisted:
  assumes "unlisted k p"
  shows "k\<lparr>g_readytorun := l, g_pendingtasks := remove1 p (g_pendingtasks k),
    g_waitingforsignal := remove1 p (g_waitingforsignal k),
    g_inactivetasks := remove1 p (g_inactivetasks k)\<rparr> = k\<lparr>g_readytorun := l\<rparr>"
  using assms by (simp add: unlisted_def remove1_idem)

text \<open>Making an unlisted task ready keeps the scheduler invariant.\<close>

lemma sched_inv_add_readytorun:
  assumes inv: "sched_inv k" and p: "unlisted k p"
  shows "sched_inv (snd (nxsched_add_readytorun p k))"
proof (cases "nxsched_islocked_tcb k (this_task k) \<and> prio k (this_task k) < prio k p")
  case True
  have core: "sched_core k" and pend: "pending_ok k" using inv by (simp_all add: sched_inv_def)
  have "pending_ok (snd (nxsched_add_readytorun p k))"
    using True pend by (auto simp: add_readytorun_pending pending_ok_def)
  then show ?thesis
    using True sched_core_pend [OF core p] by (simp add: sched_inv_def add_readytorun_pending)
next
  case False
  have core: "sched_core k" using inv by (simp add: sched_inv_def)
  have p0: "p \<noteq> idle_pid" "p \<notin> set (g_readytorun k)" using p by (auto simp: unlisted_def)
  obtain a b where ab: "g_readytorun k = a @ b" "b \<noteq> []" "by_prio k (a @ p # b)"
    and lt: "\<forall>q \<in> set b. prio k q < prio k p"
    and eq: "nxsched_add_readytorun p k =
      (a = [], set_state p (if a = [] then TSTATE_TASK_RUNNING else TSTATE_TASK_READYTORUN)
        (set_state (hd b) (if a = [] then TSTATE_TASK_READYTORUN else task_state (tcbs k (hd b)))
          (k\<lparr>g_readytorun := a @ p # b\<rparr>)))"
    using add_readytorun_ready [OF core p0(1) False] by metis
  have "sched_core (snd (nxsched_add_readytorun p k))"
    using sched_core_insert [OF core ab(1,2) p0(2) ab(3)] remove1_unlisted [OF p, of "a @ p # b"]
    by (simp add: eq)
  moreover have "pending_ok (snd (nxsched_add_readytorun p k))"
  proof (cases a)
    case Nil
    then have "this_task k \<in> set b" using ab(1) this_task_in [OF core] by simp
    then have "\<not> nxsched_islocked_tcb k (this_task k)" using False lt by blast
    then show ?thesis using inv by (auto simp: eq sched_inv_def pending_ok_def)
  next
    case (Cons c a')
    then have "this_task (k\<lparr>g_readytorun := a @ p # b\<rparr>) = this_task k"
      using ab(1) by (simp add: this_task_def)
    then show ?thesis using inv by (simp add: eq sched_inv_def pending_ok_def)
  qed
  ultimately show ?thesis by (simp add: sched_inv_def)
qed

subsection \<open>Leaving the ready-to-run list\<close>

lemma state_okD:
  assumes "sched_core k"
  shows "p \<in> set (g_pendingtasks k) \<Longrightarrow> task_state (tcbs k p) = TSTATE_TASK_PENDING"
    "p \<in> set (g_waitingforsignal k) \<Longrightarrow> task_state (tcbs k p) = TSTATE_WAIT_SIG"
    "p \<in> set (g_inactivetasks k) \<Longrightarrow> task_state (tcbs k p) = TSTATE_TASK_INACTIVE"
    "p \<in> set (g_readytorun k) \<Longrightarrow>
       task_state (tcbs k p) = (if p = this_task k then TSTATE_TASK_RUNNING else TSTATE_TASK_READYTORUN)"
proof -
  have ok: "state_ok k p" for p using assms by (simp add: sched_core_def states_ok_def)
  show "p \<in> set (g_pendingtasks k) \<Longrightarrow> task_state (tcbs k p) = TSTATE_TASK_PENDING"
    "p \<in> set (g_waitingforsignal k) \<Longrightarrow> task_state (tcbs k p) = TSTATE_WAIT_SIG"
    "p \<in> set (g_inactivetasks k) \<Longrightarrow> task_state (tcbs k p) = TSTATE_TASK_INACTIVE"
    using ok [of p] by (auto simp: state_ok_def)
  show "p \<in> set (g_readytorun k) \<Longrightarrow>
      task_state (tcbs k p) = (if p = this_task k then TSTATE_TASK_RUNNING else TSTATE_TASK_READYTORUN)"
    using ok [of p] by (cases "g_readytorun k") (auto simp: state_ok_def this_task_def)
qed

lemma pending_elsewhere:
  assumes "sched_core k" "p \<in> set (g_pendingtasks k)"
  shows "p \<notin> set (g_readytorun k)" "p \<notin> set (g_waitingforsignal k)"
    "p \<notin> set (g_inactivetasks k)" "p \<noteq> idle_pid"
proof -
  note st = state_okD [OF assms(1), of p] assms(2)
  show r: "p \<notin> set (g_readytorun k)" using st by (auto split: if_splits)
  show "p \<notin> set (g_waitingforsignal k)" "p \<notin> set (g_inactivetasks k)" using st by auto
  show "p \<noteq> idle_pid" using r idle_in [OF assms(1)] by metis
qed

lemma ready_elsewhere:
  assumes "sched_core k" "p \<in> set (g_readytorun k)"
  shows "p \<notin> set (g_pendingtasks k)" "p \<notin> set (g_waitingforsignal k)"
    "p \<notin> set (g_inactivetasks k)"
  using state_okD [OF assms(1), of p] assms(2) by (auto split: if_splits)

lemma ready_two:
  assumes "sched_core k" "this_task k \<noteq> idle_pid"
  obtains n t where "g_readytorun k = this_task k # n # t"
  using assms by (cases "g_readytorun k"; cases "tl (g_readytorun k)")
    (auto simp: sched_core_def this_task_def)

lemma remove_running:
  assumes core: "sched_core k" and l: "g_readytorun k = p # n # t"
  shows "nxsched_remove_readytorun p k =
    (True, set_state p TSTATE_TASK_INVALID
             (set_state n TSTATE_TASK_RUNNING (k\<lparr>g_readytorun := n # t\<rparr>)))"
proof -
  have st: "task_state (tcbs k p) = TSTATE_TASK_RUNNING"
    using state_okD(4) [OF core, of p] l by (simp add: this_task_def)
  have "(set_state n TSTATE_TASK_RUNNING k)\<lparr>g_readytorun := n # t\<rparr>
      = set_state n TSTATE_TASK_RUNNING (k\<lparr>g_readytorun := n # t\<rparr>)"
    by (simp add: set_state_def upd_tcb_def)
  then show ?thesis using st l by (simp add: nxsched_remove_readytorun_def)
qed

lemma sched_core_remove_running:
  assumes core: "sched_core k" and l: "g_readytorun k = p # n # t"
  shows "sched_core (set_state p TSTATE_TASK_INVALID
    (set_state n TSTATE_TASK_RUNNING (k\<lparr>g_readytorun := n # t\<rparr>)))" (is "sched_core ?k'")
proof -
  have d: "distinct (p # n # t)" using core l by (simp add: sched_core_def)
  have "state_ok ?k' q" for q
  proof -
    have q: "state_ok k q" using core by (simp add: sched_core_def states_ok_def)
    have "p \<notin> set (g_pendingtasks k) \<and> p \<notin> set (g_waitingforsignal k) \<and> p \<notin> set (g_inactivetasks k)"
      "n \<notin> set (g_pendingtasks k) \<and> n \<notin> set (g_waitingforsignal k) \<and> n \<notin> set (g_inactivetasks k)"
      using ready_elsewhere [OF core] l by simp_all
    with q d l show ?thesis unfolding state_ok_def
      by (cases "q = p"; cases "q = n") simp_all
  qed
  then have "states_ok ?k'" by (simp add: states_ok_def)
  moreover have "prios_ok ?k'" using core by (simp add: sched_core_def prios_ok_def)
  ultimately show ?thesis using core l by (simp add: sched_core_def)
qed

lemma set_state_upd_lists:
  "(set_state p t k)\<lparr>g_readytorun := l\<rparr> = set_state p t (k\<lparr>g_readytorun := l\<rparr>)"
  "(set_state p t k)\<lparr>g_pendingtasks := l\<rparr> = set_state p t (k\<lparr>g_pendingtasks := l\<rparr>)"
  "(set_state p t k)\<lparr>g_waitingforsignal := l\<rparr> = set_state p t (k\<lparr>g_waitingforsignal := l\<rparr>)"
  "(set_state p t k)\<lparr>g_inactivetasks := l\<rparr> = set_state p t (k\<lparr>g_inactivetasks := l\<rparr>)"
  by (simp_all add: set_state_def upd_tcb_def)

subsection \<open>Merging the pending tasks\<close>

lemma merge_loop_core:
  assumes "sched_core (k\<lparr>g_readytorun := passed @ rest, g_pendingtasks := pend\<rparr>)"
    and "\<forall>p \<in> set pend. \<forall>q \<in> set passed. prio k p \<le> prio k q"
    and "idle_pid \<in> set rest"
  shows "sched_core (snd (merge_loop passed rest pend (ret, k))) \<and>
    g_pendingtasks (snd (merge_loop passed rest pend (ret, k))) = []"
  using assms
proof (induction pend arbitrary: passed rest ret k)
  case Nil
  then show ?case by simp
next
  case (Cons p pn)
  let ?k0 = "k\<lparr>g_readytorun := passed @ rest, g_pendingtasks := p # pn\<rparr>"
  let ?P = "\<lambda>r. prio k p \<le> prio k r"
  obtain sk b where sk: "takeWhile ?P rest = sk" and b: "dropWhile ?P rest = b" by blast
  define a where "a = passed @ sk"
  have core: "sched_core ?k0" by (rule Cons.prems(1))
  have rest: "rest = sk @ b" unfolding sk [symmetric] b [symmetric] by simp
  have "p \<in> set (g_pendingtasks ?k0)" by simp
  note p = pending_elsewhere [OF core this]
  have bne: "b \<noteq> []"
    using dropWhile_ready_nonempty [OF core p(4) Cons.prems(3)] b by simp
  have srt: "by_prio k (passed @ rest)" "by_prio k (p # pn)"
    using core by (simp_all add: sched_core_def)
  have "by_prio k (sk @ p # b)"
    using by_prio_insert [of k rest p] srt(1) sk b by (simp add: by_prio_append)
  then have ins: "by_prio k (a @ p # b)"
    using srt(1) Cons.prems(2) rest by (auto simp: by_prio_append a_def)
  have ready: "g_readytorun ?k0 = a @ b" using rest by (simp add: a_def)
  have "sched_core
    (set_state p (if a = [] then TSTATE_TASK_RUNNING else TSTATE_TASK_READYTORUN)
      (set_state (hd b) (if a = [] then TSTATE_TASK_READYTORUN else task_state (tcbs k (hd b)))
        (k\<lparr>g_readytorun := a @ p # b, g_pendingtasks := pn\<rparr>)))"
    using sched_core_insert [OF core ready bne p(1)] p ins
    by (cases "a = []") (simp_all add: remove1_idem)
  moreover define k' where "k' = (if a = []
      then set_state p TSTATE_TASK_RUNNING (set_state (hd b) TSTATE_TASK_READYTORUN k)
      else set_state p TSTATE_TASK_READYTORUN k)"
  ultimately have core': "sched_core (k'\<lparr>g_readytorun := a @ (p # b), g_pendingtasks := pn\<rparr>)"
    by (simp add: set_state_upd_lists set_state_same split: if_splits)
  have le: "\<forall>q \<in> set pn. \<forall>r \<in> set a. prio k' q \<le> prio k' r"
  proof (intro ballI)
    fix q r
    assume q: "q \<in> set pn" and r: "r \<in> set a"
    have "prio k p \<le> prio k r"
      using r Cons.prems(2) set_takeWhileD [of r ?P rest] sk by (auto simp: a_def)
    moreover have "prio k q \<le> prio k p" using q srt(2) by simp
    ultimately show "prio k' q \<le> prio k' r" by (simp add: k'_def)
  qed
  have "idle_pid \<in> set (p # b)"
    using core bne rest last_in_set [OF bne] by (auto simp: sched_core_def)
  note IH = Cons.IH [OF core' le this]
  have "merge_loop passed rest (p # pn) (ret, k)
      = merge_loop a (p # b) pn (if a = [] then True else ret, k')"
    using bne by (cases b) (auto simp: Let_def sk b k'_def a_def)
  then show ?case using IH by simp
qed

lemma sched_inv_merge_pending:
  assumes core: "sched_core k"
  shows "sched_inv (snd (nxsched_merge_pending k))"
proof (cases "nxsched_islocked_tcb k (this_task k)")
  case True
  then show ?thesis
    using core by (simp add: nxsched_merge_pending_def sched_inv_def pending_ok_def)
next
  case False
  have "sched_core (k\<lparr>g_readytorun := [] @ g_readytorun k, g_pendingtasks := g_pendingtasks k\<rparr>)"
    using core by simp
  from merge_loop_core [OF this _ idle_in [OF core], of False] False show ?thesis
    by (simp add: nxsched_merge_pending_def sched_inv_def pending_ok_def)
qed

lemma sched_inv_remove_self:
  assumes inv: "sched_inv k" and p: "p = this_task k" "p \<noteq> idle_pid"
  shows "sched_inv (nxsched_remove_self p k)"
proof -
  have core: "sched_core k" using inv by (simp add: sched_inv_def)
  obtain n t where l: "g_readytorun k = p # n # t"
    using ready_two [OF core] p by metis
  let ?k' = "set_state p TSTATE_TASK_INVALID
    (set_state n TSTATE_TASK_RUNNING (k\<lparr>g_readytorun := n # t\<rparr>))"
  have core': "sched_core ?k'" by (rule sched_core_remove_running [OF core l])
  note merged = sched_inv_merge_pending [OF core']
  have eq: "nxsched_remove_self p k =
      (if g_pendingtasks k = [] then ?k' else snd (nxsched_merge_pending ?k'))"
    by (simp add: nxsched_remove_self_def remove_running [OF core l])
  show ?thesis
  proof (cases "g_pendingtasks k = []")
    case True
    then show ?thesis using core' by (simp add: eq sched_inv_def pending_ok_def)
  next
    case False
    then show ?thesis using merged by (simp add: eq)
  qed
qed

subsection \<open>Lock, sleep, wake up, yield\<close>

lemma sched_core_lists_cong:
  assumes "sched_core k"
    and "\<And>p. sched_priority (tcbs k' p) = sched_priority (tcbs k p)"
    and "\<And>p. task_state (tcbs k' p) = task_state (tcbs k p)"
    and "g_readytorun k' = g_readytorun k" "g_pendingtasks k' = g_pendingtasks k"
    and "g_waitingforsignal k' = g_waitingforsignal k" "g_inactivetasks k' = g_inactivetasks k"
  shows "sched_core k'"
proof -
  have pr: "prio k' = prio k" using assms(2) by (auto simp: prio_def)
  have "states_ok k' = states_ok k" using assms by (simp add: states_ok_def state_ok_def)
  then show ?thesis
    using assms by_prio_cong [OF pr] prios_ok_cong [OF pr] by (simp add: sched_core_def)
qed

lemma upd_tcb_sel [simp]:
  "tcbs (upd_tcb p f k) q = (if q = p then f (tcbs k p) else tcbs k q)"
  "g_readytorun (upd_tcb p f k) = g_readytorun k"
  "g_pendingtasks (upd_tcb p f k) = g_pendingtasks k"
  "g_waitingforsignal (upd_tcb p f k) = g_waitingforsignal k"
  "g_inactivetasks (upd_tcb p f k) = g_inactivetasks k"
  "g_pidhash (upd_tcb p f k) = g_pidhash k"
  "interrupt_context (upd_tcb p f k) = interrupt_context k"
  "this_task (upd_tcb p f k) = this_task k"
  by (simp_all add: upd_tcb_def this_task_def)

lemma sched_inv_lock:
  assumes "sched_inv k"
  shows "sched_inv (sched_lock k)"
proof -
  have "sched_core (sched_lock k)"
    by (rule sched_core_lists_cong [of k]) (use assms in \<open>auto simp: sched_inv_def sched_lock_def\<close>)
  then show ?thesis
    using assms
    by (auto simp: sched_inv_def sched_lock_def pending_ok_def nxsched_islocked_tcb_def prio_def)
qed

lemma sched_inv_unlock:
  assumes inv: "sched_inv k"
  shows "sched_inv (sched_unlock k)"
proof -
  let ?r = "this_task k"
  have core: "sched_core (upd_tcb ?r (\<lambda>c. c\<lparr>lockcount := n\<rparr>) k)" for n
    by (rule sched_core_lists_cong [of k]) (use inv in \<open>auto simp: sched_inv_def\<close>)
  have "sched_inv (upd_tcb ?r (\<lambda>c. c\<lparr>lockcount := lockcount c - 1\<rparr>) k)"
    if "lockcount (tcbs k ?r) \<noteq> 1"
  proof -
    have "sched_core (upd_tcb ?r (\<lambda>c. c\<lparr>lockcount := lockcount c - 1\<rparr>) k)"
      by (rule sched_core_lists_cong [of k]) (use inv in \<open>auto simp: sched_inv_def\<close>)
    then show ?thesis
      using that inv by (auto simp: sched_inv_def pending_ok_def nxsched_islocked_tcb_def prio_def)
  qed
  moreover have "sched_inv (upd_tcb ?r (\<lambda>c. c\<lparr>lockcount := 0\<rparr>) k)" if "g_pendingtasks k = []"
    using that core by (simp add: sched_inv_def pending_ok_def)
  moreover have "sched_inv (snd (nxsched_merge_pending (upd_tcb ?r (\<lambda>c. c\<lparr>lockcount := 0\<rparr>) k)))"
    by (intro sched_inv_merge_pending core)
  ultimately show ?thesis using inv by (simp add: sched_unlock_def Let_def)
qed

text \<open>A task that made itself ready again from any list: only its own entry moves.\<close>

lemma add_readytorun_override:
  assumes "p \<notin> set (g_readytorun k)"
  shows "snd (nxsched_add_readytorun p (set_state p t k)) = snd (nxsched_add_readytorun p k)"
proof -
  have idem: "set_state p u (set_state p t k') = set_state p u k'" for u k'
    by (simp add: set_state_def upd_tcb_def)
  show ?thesis
    using assms unfolding nxsched_add_readytorun_def nxsched_add_prioritized_def Let_def
    by (auto simp: set_state_upd_lists idem split: list.splits)
qed

lemma sched_core_unlist_sleeping:
  assumes core: "sched_core k" and st: "task_state (tcbs k p) = TSTATE_WAIT_SIG"
  shows "sched_core (set_state p TSTATE_TASK_INVALID
    (k\<lparr>g_waitingforsignal := remove1 p (g_waitingforsignal k)\<rparr>))" (is "sched_core ?k'")
proof -
  have "state_ok ?k' q" for q
  proof -
    have "state_ok k q" using core by (simp add: sched_core_def states_ok_def)
    then show ?thesis using core st unfolding state_ok_def
      by (cases "q = p") (simp_all add: sched_core_def set_remove1_eq)
  qed
  then show ?thesis using core by (simp add: sched_core_def states_ok_def prios_ok_def)
qed

lemma not_listed_if_state:
  assumes core: "sched_core k"
    and "task_state (tcbs k p) \<in> {TSTATE_TASK_INVALID, TSTATE_WAIT_SEM}"
  shows "unlisted k p"
proof -
  have "state_ok k p" using core by (simp add: sched_core_def states_ok_def)
  then have "p \<notin> set (take 1 (g_readytorun k))" "p \<notin> set (drop 1 (g_readytorun k))"
    using assms(2) by (auto simp: state_ok_def)
  then have "p \<notin> set (g_readytorun k)" by (metis Un_iff append_take_drop_id set_append)
  moreover from this have "p \<noteq> idle_pid" using idle_in [OF core] by metis
  ultimately show ?thesis
    using assms(2) \<open>state_ok k p\<close> by (auto simp: state_ok_def unlisted_def)
qed

lemma sched_inv_wakeup:
  assumes inv: "sched_inv k"
  shows "sched_inv (nxsched_wakeup p k)"
proof (cases "task_state (tcbs k p) = TSTATE_WAIT_SIG")
  case True
  let ?k1 = "k\<lparr>g_waitingforsignal := remove1 p (g_waitingforsignal k)\<rparr>"
  have core: "sched_core k" using inv by (simp add: sched_inv_def)
  have nr: "p \<notin> set (g_readytorun k)"
    using state_okD(4) [OF core, of p] True by (auto split: if_splits)
  have core': "sched_core (set_state p TSTATE_TASK_INVALID ?k1)"
    by (rule sched_core_unlist_sleeping [OF core True])
  then have inv': "sched_inv (set_state p TSTATE_TASK_INVALID ?k1)"
    using inv by (simp add: sched_inv_def pending_ok_def)
  have "unlisted (set_state p TSTATE_TASK_INVALID ?k1) p"
    by (rule not_listed_if_state [OF core']) simp
  from sched_inv_add_readytorun [OF inv' this] show ?thesis
    using True nr by (simp add: nxsched_wakeup_def add_readytorun_override)
qed (simp add: nxsched_wakeup_def inv)

end
