(* ===== verification/NxSchedSafety.thy ===== *)
theory NxSchedSafety
  imports NxSched
begin

text \<open>
  Every operation of the scheduler keeps the scheduler invariant, and so every state the kernel
  reaches runs a task of the highest priority unless that task has locked preemption.  The frame
  predicate says what an operation on the ready lists leaves alone; the semaphore component uses
  it for the wait lists.
\<close>

section \<open>What the operations on the ready lists leave alone\<close>

definition frame :: "pid set \<Rightarrow> kernel \<Rightarrow> kernel \<Rightarrow> bool" where
  "frame S k k' \<longleftrightarrow>
     sems k' = sems k \<and> g_waitingforsignal k' = g_waitingforsignal k \<and>
     g_inactivetasks k' = g_inactivetasks k \<and> g_pidhash k' = g_pidhash k \<and>
     g_lastpid k' = g_lastpid k \<and> interrupt_context k' = interrupt_context k \<and>
     (\<forall>p. \<exists>t. tcbs k' p = (tcbs k p)\<lparr>task_state := t\<rparr>) \<and>
     (\<forall>p. p \<notin> S \<longrightarrow> tcbs k' p = tcbs k p)"

definition runnable :: "kernel \<Rightarrow> pid set" where
  "runnable k = set (g_readytorun k) \<union> set (g_pendingtasks k)"

lemma frame_refl [simp]: "frame S k k"
proof -
  have "\<exists>t. c = c\<lparr>task_state := t\<rparr>" for c :: tcb_s
    by (rule exI [of _ "task_state c"]) simp
  then show ?thesis by (simp add: frame_def)
qed

lemma frame_trans:
  assumes "frame S k k'" "frame S k' k''"
  shows "frame S k k''"
proof -
  have "\<exists>t. tcbs k'' p = (tcbs k p)\<lparr>task_state := t\<rparr>" for p
  proof -
    obtain t where "tcbs k' p = (tcbs k p)\<lparr>task_state := t\<rparr>" using assms(1) by (auto simp: frame_def)
    moreover obtain u where "tcbs k'' p = (tcbs k' p)\<lparr>task_state := u\<rparr>"
      using assms(2) by (auto simp: frame_def)
    ultimately show ?thesis by auto
  qed
  with assms show ?thesis by (simp add: frame_def)
qed

lemma frame_mono: "frame S k k' \<Longrightarrow> S \<subseteq> T \<Longrightarrow> frame T k k'"
  by (auto simp: frame_def)

lemma frame_lists [simp]:
  "frame S k (k'\<lparr>g_readytorun := l\<rparr>) = frame S k k'"
  "frame S k (k'\<lparr>g_pendingtasks := l\<rparr>) = frame S k k'"
  by (simp_all add: frame_def)

lemma frame_set_state:
  assumes "frame S k k'" "p \<in> S"
  shows "frame S k (set_state p t k')"
proof -
  have "frame S k' (set_state p t k')"
  proof -
    have "\<exists>u. tcbs (set_state p t k') q = (tcbs k' q)\<lparr>task_state := u\<rparr>" for q
      by (rule exI [of _ "if q = p then t else task_state (tcbs k' q)"])
        (simp add: set_state_def upd_tcb_def)
    then show ?thesis using assms(2) by (auto simp: frame_def set_state_def upd_tcb_def)
  qed
  with assms(1) show ?thesis by (rule frame_trans)
qed

lemma frameD:
  assumes "frame S k k'"
  shows "sems k' = sems k" "g_waitingforsignal k' = g_waitingforsignal k"
    "g_inactivetasks k' = g_inactivetasks k" "g_pidhash k' = g_pidhash k"
    "interrupt_context k' = interrupt_context k"
    "p \<notin> S \<Longrightarrow> tcbs k' p = tcbs k p"
    "sched_priority (tcbs k' p) = sched_priority (tcbs k p)"
    "lockcount (tcbs k' p) = lockcount (tcbs k p)"
    "waitobj (tcbs k' p) = waitobj (tcbs k p)" "errcode (tcbs k' p) = errcode (tcbs k p)"
    "sigpending (tcbs k' p) = sigpending (tcbs k p)" "prio k' = prio k"
    "g_lastpid k' = g_lastpid k"
proof -
  obtain t where "\<And>p. tcbs k' p = (tcbs k p)\<lparr>task_state := t p\<rparr>"
    using assms unfolding frame_def by metis
  then show "sched_priority (tcbs k' p) = sched_priority (tcbs k p)"
    "lockcount (tcbs k' p) = lockcount (tcbs k p)"
    "waitobj (tcbs k' p) = waitobj (tcbs k p)" "errcode (tcbs k' p) = errcode (tcbs k p)"
    "sigpending (tcbs k' p) = sigpending (tcbs k p)" "prio k' = prio k"
    by (simp_all add: prio_def fun_eq_iff)
  show "g_lastpid k' = g_lastpid k" using assms by (simp add: frame_def)
qed (use assms in \<open>auto simp: frame_def\<close>)

lemma runnable_simps [simp]:
  "runnable (set_state p t k) = runnable k"
  "runnable (upd_tcb p f k) = runnable k"
  by (simp_all add: runnable_def)

lemma frame_merge_loop:
  assumes "set passed \<union> set rest \<union> set pend \<subseteq> S" "frame S k0 k"
  shows "frame S k0 (snd (merge_loop passed rest pend (ret, k)))"
  using assms
proof (induction pend arbitrary: passed rest ret k)
  case (Cons p pn)
  let ?P = "\<lambda>r. prio k p \<le> prio k r"
  let ?a = "passed @ takeWhile ?P rest" and ?b = "dropWhile ?P rest"
  define k' where "k' = (if ?a = [] then
      set_state p TSTATE_TASK_RUNNING
        (case ?b of [] \<Rightarrow> k | r # _ \<Rightarrow> set_state r TSTATE_TASK_READYTORUN k)
      else set_state p TSTATE_TASK_READYTORUN k)"
  have sub: "set ?a \<union> set (p # ?b) \<union> set pn \<subseteq> S"
    using Cons.prems(1) set_takeWhile_dropWhile [of ?P rest] by auto
  have "frame S k0 k'"
    using sub Cons.prems(2) unfolding k'_def
    by (cases ?b) (simp_all only: list.case, auto intro!: frame_set_state)
  from Cons.IH [OF sub this, of "if ?a = [] then True else ret"] show ?case
    by (auto simp: Let_def k'_def)
qed simp

lemma runnable_merge_loop:
  "runnable (snd (merge_loop passed rest pend (ret, k))) = set passed \<union> set rest \<union> set pend"
proof (induction pend arbitrary: passed rest ret k)
  case (Cons p pn)
  show ?case
    using set_takeWhile_dropWhile [of "\<lambda>r. prio k p \<le> prio k r" rest]
    by (auto simp: Let_def Cons.IH)
qed (simp add: runnable_def)

lemma frame_merge_pending:
  "frame (runnable k) k (snd (nxsched_merge_pending k))"
  by (simp add: nxsched_merge_pending_def frame_merge_loop runnable_def)

lemma runnable_merge_pending [simp]:
  "runnable (snd (nxsched_merge_pending k)) = runnable k"
  by (simp add: nxsched_merge_pending_def runnable_merge_loop) (simp add: runnable_def)

lemma frame_add_readytorun:
  "frame (insert p (runnable k)) k (snd (nxsched_add_readytorun p k))"
  unfolding nxsched_add_readytorun_def Let_def
  by (auto intro!: frame_set_state simp: runnable_def split: prod.splits list.splits)

lemma runnable_add_readytorun [simp]:
  "runnable (snd (nxsched_add_readytorun p k)) = insert p (runnable k)"
proof -
  have "set l = insert p (set (g_readytorun k))"
    if "nxsched_add_prioritized k p (g_readytorun k) = (h, l)" for h l
    using set_add_prioritized [of k p "g_readytorun k"] that by simp
  then show ?thesis
    unfolding nxsched_add_readytorun_def Let_def
    by (auto simp: runnable_def split: prod.splits list.splits)
qed

lemma frame_remove_readytorun:
  "frame (insert p (runnable k)) k (snd (nxsched_remove_readytorun p k))"
proof -
  have "x # xs = tl l \<Longrightarrow> x \<in> set l" for x :: pid and xs l
    by (metis list.sel(2) list.set_intros(1) list.set_sel(2))
  then show ?thesis
    unfolding nxsched_remove_readytorun_def Let_def
    by (auto intro!: frame_set_state simp: runnable_def eq_commute split: list.splits)
qed

lemma runnable_remove_readytorun:
  "runnable (snd (nxsched_remove_readytorun p k)) \<subseteq> runnable k"
  unfolding nxsched_remove_readytorun_def Let_def
  by (auto simp: runnable_def dest: set_remove1_subset [THEN subsetD] split: list.splits)

lemma frame_remove_self: "frame (insert p (runnable k)) k (nxsched_remove_self p k)"
proof -
  let ?k1 = "snd (nxsched_remove_readytorun p k)"
  have 1: "frame (insert p (runnable k)) k ?k1" by (rule frame_remove_readytorun)
  have "frame (insert p (runnable k)) ?k1 (snd (nxsched_merge_pending ?k1))"
    by (rule frame_mono [OF frame_merge_pending]) (use runnable_remove_readytorun [of p k] in auto)
  with 1 show ?thesis
    unfolding nxsched_remove_self_def Let_def by (auto intro: frame_trans)
qed

lemma unlisted_runnable:
  "unlisted k p \<longleftrightarrow> p \<noteq> idle_pid \<and> p \<notin> runnable k
     \<and> p \<notin> set (g_waitingforsignal k) \<and> p \<notin> set (g_inactivetasks k)"
  by (auto simp: unlisted_def runnable_def)

lemma runnable_remove_self:
  assumes core: "sched_core k" and p: "p = this_task k" "p \<noteq> idle_pid"
  shows "runnable (nxsched_remove_self p k) = runnable k - {p}"
proof -
  obtain n t where l: "g_readytorun k = p # n # t"
    using ready_two [OF core] p by metis
  have "p \<notin> set (n # t)" using core l by (auto simp: sched_core_def)
  moreover have "p \<notin> set (g_pendingtasks k)" using ready_elsewhere [OF core, of p] l by simp
  ultimately show ?thesis
    unfolding nxsched_remove_self_def Let_def remove_running [OF core l]
    using l by (auto simp: runnable_def [of k]) (auto simp: runnable_def)
qed

lemma unlisted_remove_self:
  assumes core: "sched_core k" and p: "p = this_task k" "p \<noteq> idle_pid"
  shows "unlisted (nxsched_remove_self p k) p"
  using runnable_remove_self [OF assms] p ready_elsewhere [OF core, of p] this_task_in [OF core]
    frameD(2,3) [OF frame_remove_self [of p k]]
  by (simp add: unlisted_runnable)

section \<open>Every operation keeps the invariant\<close>

lemma sched_core_set_unlisted:
  assumes core: "sched_core k" and p: "unlisted k p" and t: "t \<in> {TSTATE_TASK_INVALID, TSTATE_WAIT_SEM}"
  shows "sched_core (set_state p t k)" (is "sched_core ?k'")
proof -
  have "state_ok ?k' q" for q
  proof -
    have "state_ok k q" using core by (simp add: sched_core_def states_ok_def)
    then show ?thesis using p t unfolding state_ok_def unlisted_def
      by (cases "q = p") (auto dest: in_set_takeD in_set_dropD)
  qed
  then show ?thesis using core by (simp add: sched_core_def states_ok_def prios_ok_def)
qed

lemma sched_inv_set_unlisted:
  assumes "sched_inv k" "unlisted k p" "t \<in> {TSTATE_TASK_INVALID, TSTATE_WAIT_SEM}"
  shows "sched_inv (set_state p t k)"
  using assms sched_core_set_unlisted [of k p t] by (simp add: sched_inv_def pending_ok_def)

lemma sched_core_enlist_sleeping:
  assumes core: "sched_core k" and p: "unlisted k p"
  shows "sched_core ((set_state p TSTATE_WAIT_SIG k)
    \<lparr>g_waitingforsignal := g_waitingforsignal k @ [p]\<rparr>)" (is "sched_core ?k'")
proof -
  have "state_ok ?k' q" for q
  proof -
    have "state_ok k q" using core by (simp add: sched_core_def states_ok_def)
    then show ?thesis using p unfolding state_ok_def unlisted_def
      by (cases "q = p") (auto dest: in_set_takeD in_set_dropD)
  qed
  then show ?thesis
    using core p by (simp add: sched_core_def states_ok_def prios_ok_def unlisted_def)
qed

lemma sched_inv_abstick_sleep:
  assumes inv: "sched_inv k" and p: "this_task k \<noteq> idle_pid"
  shows "sched_inv (nxsched_abstick_sleep k)"
proof -
  have core: "sched_core k" using inv by (simp add: sched_inv_def)
  let ?k1 = "nxsched_remove_self (this_task k) k"
  have inv1: "sched_inv ?k1" by (rule sched_inv_remove_self [OF inv refl p])
  have "unlisted ?k1 (this_task k)" by (rule unlisted_remove_self [OF core refl p])
  with inv1 sched_core_enlist_sleeping show ?thesis
    by (simp add: nxsched_abstick_sleep_def Let_def sched_inv_def pending_ok_def)
qed

lemma sched_inv_lists_cong:
  assumes "sched_inv k"
    and "\<And>p. sched_priority (tcbs k' p) = sched_priority (tcbs k p)"
    and "\<And>p. task_state (tcbs k' p) = task_state (tcbs k p)"
    and "\<And>p. lockcount (tcbs k' p) = lockcount (tcbs k p)"
    and "g_readytorun k' = g_readytorun k" "g_pendingtasks k' = g_pendingtasks k"
    and "g_waitingforsignal k' = g_waitingforsignal k" "g_inactivetasks k' = g_inactivetasks k"
  shows "sched_inv k'"
  using assms sched_core_lists_cong [of k k']
  by (simp add: sched_inv_def pending_ok_def nxsched_islocked_tcb_def this_task_def)

text \<open>A task in one of the lists of blocked tasks, taken out of it.\<close>

lemma sched_core_unlist_inactive:
  assumes core: "sched_core k" and st: "task_state (tcbs k p) = TSTATE_TASK_INACTIVE"
  shows "sched_core (set_state p TSTATE_TASK_INVALID
    (k\<lparr>g_inactivetasks := remove1 p (g_inactivetasks k)\<rparr>))" (is "sched_core ?k'")
proof -
  have "state_ok ?k' q" for q
  proof -
    have "state_ok k q" using core by (simp add: sched_core_def states_ok_def)
    then show ?thesis using core st unfolding state_ok_def
      by (cases "q = p") (simp_all add: sched_core_def set_remove1_eq)
  qed
  then show ?thesis using core by (simp add: sched_core_def states_ok_def prios_ok_def)
qed

lemma tcb_upd_swap:
  "c\<lparr>waitobj := w, task_state := t\<rparr> = c\<lparr>task_state := t, waitobj := w\<rparr>"
  by (cases c) simp

lemma sched_inv_activate:
  assumes inv: "sched_inv k" and st: "task_state (tcbs k p) = TSTATE_TASK_INACTIVE"
  shows "sched_inv (nxtask_activate p k)"
proof -
  let ?k0 = "set_state p TSTATE_TASK_INVALID
    (k\<lparr>g_inactivetasks := remove1 p (g_inactivetasks k)\<rparr>)"
  let ?k1 = "nxsched_remove_blocked p k"
  have k1: "?k1 = upd_tcb p (\<lambda>c. c\<lparr>waitobj := None\<rparr>) ?k0"
    using st by (simp add: nxsched_remove_blocked_def set_state_def upd_tcb_def tcb_upd_swap)
  have "sched_core ?k0" using inv st sched_core_unlist_inactive by (simp add: sched_inv_def)
  then have "sched_inv ?k0" using inv by (simp add: sched_inv_def pending_ok_def)
  then have inv1: "sched_inv ?k1"
    unfolding k1 by (rule sched_inv_lists_cong) auto
  have "unlisted ?k1 p"
    by (rule not_listed_if_state) (use inv1 in \<open>auto simp: sched_inv_def k1\<close>)
  with inv1 show ?thesis unfolding nxtask_activate_def by (rule sched_inv_add_readytorun)
qed

subsection \<open>Changing priorities\<close>

lemma take_drop_1: "set (take 1 l) = (if l = [] then {} else {hd l})" "set (drop 1 l) = set (tl l)"
  by (cases l; simp)+

lemma sched_core_remove_ready:
  assumes core: "sched_core k" and p: "p \<in> set (tl (g_readytorun k))" "p \<noteq> idle_pid"
  shows "sched_core (set_state p TSTATE_TASK_INVALID (k\<lparr>g_readytorun := remove1 p (g_readytorun k)\<rparr>))"
    (is "sched_core ?k'")
proof -
  obtain h l where l: "g_readytorun k = h # l" using core by (cases "g_readytorun k") (auto simp: sched_core_def)
  have d: "distinct (h # l)" and la: "last (h # l) = idle_pid" using core l by (auto simp: sched_core_def)
  have ph: "p \<in> set l" "p \<noteq> h" using p(1) l d by auto
  note else_p = ready_elsewhere [OF core, of p]
  have "state_ok ?k' q" for q
  proof -
    have "state_ok k q" using core by (simp add: sched_core_def states_ok_def)
    then show ?thesis using l d ph else_p unfolding state_ok_def
      by (cases "q = p"; cases "q = h") simp_all
  qed
  moreover have "last (h # remove1 p l) = idle_pid"
  proof -
    obtain xs ys where xy: "l = xs @ p # ys" "p \<notin> set xs" using ph(1) by (meson split_list_first)
    then have "ys \<noteq> []" using la p(2) by (auto split: if_splits)
    with xy la show ?thesis by (simp add: remove1_append)
  qed
  ultimately show ?thesis
    using core l ph by (auto simp: sched_core_def states_ok_def prios_ok_def by_prio_remove1
        dest: set_remove1_subset [THEN subsetD])
qed

lemma remove_ready:
  assumes core: "sched_core k" and p: "p \<in> set (tl (g_readytorun k))"
  shows "nxsched_remove_readytorun p k =
    (False, set_state p TSTATE_TASK_INVALID (k\<lparr>g_readytorun := remove1 p (g_readytorun k)\<rparr>))"
proof -
  obtain h l where l: "g_readytorun k = h # l" using core by (cases "g_readytorun k") (auto simp: sched_core_def)
  then have "p \<noteq> h" using core p by (auto simp: sched_core_def)
  moreover have "task_state (tcbs k p) = TSTATE_TASK_READYTORUN"
    using state_okD(4) [OF core, of p] l p \<open>p \<noteq> h\<close> by (simp add: this_task_def)
  ultimately show ?thesis using l by (simp add: nxsched_remove_readytorun_def)
qed

text \<open>Leaving the ready-to-run list: the task is in no list, the others stay as they were.\<close>

lemma sched_core_remove:
  assumes core: "sched_core k" and p: "p \<in> set (g_readytorun k)" "p \<noteq> idle_pid"
  shows "sched_core (snd (nxsched_remove_readytorun p k)) \<and>
    unlisted (snd (nxsched_remove_readytorun p k)) p \<and>
    g_pendingtasks (snd (nxsched_remove_readytorun p k)) = g_pendingtasks k \<and>
    (p \<noteq> this_task k \<longrightarrow> this_task (snd (nxsched_remove_readytorun p k)) = this_task k)"
proof (cases "p = this_task k")
  case True
  obtain n t where l: "g_readytorun k = p # n # t" using ready_two [OF core] True p(2) by metis
  from sched_core_remove_running [OF core l] show ?thesis
    unfolding remove_running [OF core l] using True by (simp add: not_listed_if_state)
next
  case False
  obtain h l where l: "g_readytorun k = h # l" using core by (cases "g_readytorun k") (auto simp: sched_core_def)
  then have tl: "p \<in> set (tl (g_readytorun k))" using False p(1) by (auto simp: this_task_def)
  from sched_core_remove_ready [OF core tl p(2)] show ?thesis
    using l False by (simp add: remove_ready [OF core tl] not_listed_if_state this_task_def)
qed

lemma by_prio_set_prio:
  "p \<notin> set l \<Longrightarrow> by_prio (set_prio p v k) l = by_prio k l"
  unfolding by_prio_def set_prio_def prio_def
  by (induction l) auto

lemma set_prio_sel [simp]:
  "g_readytorun (set_prio p v k) = g_readytorun k" "g_pendingtasks (set_prio p v k) = g_pendingtasks k"
  "g_waitingforsignal (set_prio p v k) = g_waitingforsignal k"
  "g_inactivetasks (set_prio p v k) = g_inactivetasks k" "sems (set_prio p v k) = sems k"
  "task_state (tcbs (set_prio p v k) q) = task_state (tcbs k q)"
  "lockcount (tcbs (set_prio p v k) q) = lockcount (tcbs k q)"
  "waitobj (tcbs (set_prio p v k) q) = waitobj (tcbs k q)"
  "prio (set_prio p v k) q = (if q = p then v else prio k q)"
  "this_task (set_prio p v k) = this_task k" "unlisted (set_prio p v k) q = unlisted k q"
  by (simp_all add: set_prio_def upd_tcb_def prio_def this_task_def unlisted_def)

lemma prios_ok_set_prio:
  "prios_ok k \<Longrightarrow> p \<noteq> idle_pid \<Longrightarrow> v \<noteq> 0 \<Longrightarrow> prios_ok (set_prio p v k)"
  by (simp add: prios_ok_def)

lemma states_ok_set_prio [simp]: "states_ok (set_prio p v k) = states_ok k"
  by (simp add: states_ok_def state_ok_def)

lemma sched_inv_set_prio:
  assumes inv: "sched_inv k" and p: "p \<notin> runnable k" "p \<noteq> idle_pid" and v: "v \<noteq> 0"
  shows "sched_inv (set_prio p v k)"
  using assms prios_ok_set_prio [of k p v]
  by (simp add: sched_inv_def sched_core_def by_prio_set_prio runnable_def pending_ok_def
      nxsched_islocked_tcb_def)

lemma sched_inv_reprioritize:
  assumes inv: "sched_inv k" and p: "p \<in> set (g_readytorun k)" "p \<noteq> idle_pid" and v: "v \<noteq> 0"
    and unl: "p = this_task k \<longrightarrow> \<not> nxsched_islocked_tcb k p"
  shows "sched_inv (snd (nxsched_reprioritize_rtr p v k))"
proof -
  have core: "sched_core k" using inv by (simp add: sched_inv_def)
  obtain sw1 k1 where k1: "nxsched_remove_readytorun p k = (sw1, k1)" by fastforce
  note rem = sched_core_remove [OF core p, unfolded k1, simplified]
  have lk: "lockcount (tcbs k1 q) = lockcount (tcbs k q)" for q
    using frameD(8) [OF frame_remove_readytorun [of p k]] k1 by simp
  have "pending_ok k1"
    using rem inv unl by (cases "p = this_task k")
      (auto simp: sched_inv_def pending_ok_def nxsched_islocked_tcb_def lk)
  with rem have "sched_inv k1" by (simp add: sched_inv_def)
  then have inv2: "sched_inv (set_prio p v k1)"
    using rem p v by (intro sched_inv_set_prio) (simp_all add: unlisted_runnable)
  obtain sw2 k3 where k3: "nxsched_add_readytorun p (set_prio p v k1) = (sw2, k3)" by fastforce
  have inv3: "sched_inv k3"
    using sched_inv_add_readytorun [OF inv2, of p] rem k3 by simp
  then have "sched_inv (snd (nxsched_merge_pending k3))"
    by (simp add: sched_inv_def [of k3] sched_inv_merge_pending)
  with inv3 k1 k3 show ?thesis
    by (simp add: nxsched_reprioritize_rtr_def Let_def set_prio_def [symmetric])
qed

text \<open>The loop that holds back the tasks behind a locked running task.\<close>

lemma move_to_pending_inv:
  assumes inv: "sched_inv k" and l: "g_readytorun k = h # n # t" and n: "n \<noteq> idle_pid"
    and lock: "nxsched_islocked_tcb k h"
  shows "sched_inv (move_to_pending n k) \<and> g_readytorun (move_to_pending n k) = h # t \<and>
    prio (move_to_pending n k) = prio k \<and>
    nxsched_islocked_tcb (move_to_pending n k) = nxsched_islocked_tcb k"
proof -
  have core: "sched_core k" using inv by (simp add: sched_inv_def)
  have hn: "h \<noteq> n" using core l by (auto simp: sched_core_def)
  have ntl: "n \<in> set (tl (g_readytorun k))" using l by simp
  let ?k1 = "set_state n TSTATE_TASK_INVALID (k\<lparr>g_readytorun := h # t\<rparr>)"
  have k1: "snd (nxsched_remove_readytorun n k) = ?k1"
    using hn l by (simp add: remove_ready [OF core ntl])
  have core1: "sched_core ?k1" "unlisted ?k1 n"
    using sched_core_remove [OF core, of n] ntl n l by (simp_all add: k1 [symmetric])
  have eq: "move_to_pending n k = set_state n TSTATE_TASK_PENDING
      (?k1\<lparr>g_pendingtasks := snd (nxsched_add_prioritized ?k1 n (g_pendingtasks ?k1))\<rparr>)"
    by (simp add: move_to_pending_def Let_def k1)
  have "sched_core (move_to_pending n k)" unfolding eq by (rule sched_core_pend [OF core1])
  then show ?thesis using lock by (simp add: eq sched_inv_def pending_ok_def)
qed

lemma pend_loop_inv:
  assumes "sched_inv k" "g_readytorun k = h # n # t" "v \<le> prio k n" "v \<noteq> 0"
    and "nxsched_islocked_tcb k h" "length t < fuel"
  shows "sched_inv (pend_loop fuel v k) \<and>
    (\<exists>t'. g_readytorun (pend_loop fuel v k) = h # t' \<and>
      (\<forall>q \<in> set t'. prio (pend_loop fuel v k) q \<le> v)) \<and>
    nxsched_islocked_tcb (pend_loop fuel v k) h"
  using assms
proof (induction fuel arbitrary: k n t)
  case (Suc fuel)
  let ?k' = "move_to_pending n k"
  have core: "sched_core k" using Suc.prems(1) by (simp add: sched_inv_def)
  have n0: "n \<noteq> idle_pid"
    using core_prio_idle [OF core] Suc.prems(3,4) by (auto simp: word_le_0_iff)
  note mv = move_to_pending_inv [OF Suc.prems(1,2) n0 Suc.prems(5)]
  have t: "t \<noteq> []" using core Suc.prems(2) n0 by (auto simp: sched_core_def)
  obtain m u where tu: "t = m # u" using t by (cases t) auto
  show ?case
  proof (cases "v < prio ?k' m")
    case True
    then have "v \<le> prio ?k' m" by simp
    with Suc.IH [of ?k' m u] mv Suc.prems(4,5,6) tu True show ?thesis
      using Suc.prems(2) by (simp add: pend_loop.simps [of "Suc fuel" v k])
  next
    case False
    have "by_prio ?k' (g_readytorun ?k')" using mv by (auto simp: sched_inv_def sched_core_def)
    then have "by_prio ?k' (h # t)" using mv by metis
    with False tu have "\<forall>q \<in> set t. prio ?k' q \<le> v" by (auto intro: order_trans)
    with mv False tu Suc.prems(2,5) show ?thesis by (simp add: pend_loop.simps)
  qed
qed simp

lemma sched_inv_set_prio_head:
  assumes inv: "sched_inv k" and l: "g_readytorun k = h # t" and le: "\<forall>q \<in> set t. prio k q \<le> v"
    and h: "h \<noteq> idle_pid" and v: "v \<noteq> 0"
  shows "sched_inv (set_prio h v k)"
proof -
  have core: "sched_core k" using inv by (simp add: sched_inv_def)
  have "h \<notin> set t" "h \<notin> set (g_pendingtasks k)"
    using core l ready_elsewhere [OF core, of h] by (auto simp: sched_core_def)
  then show ?thesis
    using inv l le h v prios_ok_set_prio [of k h v]
    by (auto simp: sched_inv_def sched_core_def by_prio_set_prio pending_ok_def
        nxsched_islocked_tcb_def)
qed

lemma sched_inv_running_setpriority:
  assumes inv: "sched_inv k" and p: "p = this_task k" "p \<noteq> idle_pid" and v: "v \<noteq> 0"
  shows "sched_inv (nxsched_running_setpriority p v k)"
proof -
  have core: "sched_core k" using inv by (simp add: sched_inv_def)
  obtain n t where l: "g_readytorun k = p # n # t" using ready_two [OF core] p by metis
  consider (quiet) "prio k n < v" | (locked) "v \<le> prio k n" "nxsched_islocked_tcb k p"
    | (switch) "v \<le> prio k n" "\<not> nxsched_islocked_tcb k p" by fastforce
  then show ?thesis
  proof cases
    case quiet
    then have "\<forall>q \<in> set (n # t). prio k q \<le> v"
      using core l by (auto simp: sched_core_def intro: order_trans order.strict_implies_order)
    moreover have "\<not> v \<le> prio k n" using quiet by simp
    ultimately show ?thesis using sched_inv_set_prio_head [OF inv l _ p(2) v] l
      by (simp add: nxsched_running_setpriority_def)
  next
    case locked
    let ?k' = "pend_loop (length (g_readytorun k)) v k"
    obtain t' where "sched_inv ?k'" "g_readytorun ?k' = p # t'" "\<forall>q \<in> set t'. prio ?k' q \<le> v"
      using pend_loop_inv [OF inv l locked(1) v locked(2), of "length (g_readytorun k)"] l by auto
    then have "sched_inv (set_prio p v ?k')" using p(2) v by (rule sched_inv_set_prio_head)
    with locked l p(1) show ?thesis by (simp add: nxsched_running_setpriority_def)
  next
    case switch
    with sched_inv_reprioritize [OF inv _ p(2) v] l p(1) show ?thesis
      by (simp add: nxsched_running_setpriority_def)
  qed
qed

lemma sched_core_readd_pending:
  assumes core: "sched_core k" and p: "p \<in> set (g_pendingtasks k)" and v: "v \<noteq> 0"
  shows "sched_core ((set_prio p v k)\<lparr>g_pendingtasks :=
    snd (nxsched_add_prioritized (set_prio p v k) p (remove1 p (g_pendingtasks k)))\<rparr>)"
    (is "sched_core ?k'")
proof -
  note p_else = pending_elsewhere [OF core p]
  have d: "distinct (g_pendingtasks k)" using core by (simp add: sched_core_def)
  let ?l = "remove1 p (g_pendingtasks k)"
  have "by_prio (set_prio p v k) ?l"
    using core d by (simp add: by_prio_set_prio by_prio_remove1 sched_core_def)
  moreover have "set (snd (nxsched_add_prioritized (set_prio p v k) p ?l)) = set (g_pendingtasks k)"
    using p d by auto
  then have "states_ok ?k'" using core by (simp add: sched_core_def states_ok_def state_ok_def)
  moreover have "prios_ok ?k'"
    using prios_ok_set_prio [of k p v] core p_else(4) v by (simp add: sched_core_def prios_ok_def)
  ultimately show ?thesis
    using core p_else d
    by (simp add: sched_core_def by_prio_set_prio by_prio_add_prioritized distinct_add_prioritized)
qed

lemma upd_sem_sel [simp]:
  "tcbs (upd_sem a f k) = tcbs k" "g_readytorun (upd_sem a f k) = g_readytorun k"
  "g_pendingtasks (upd_sem a f k) = g_pendingtasks k"
  "g_waitingforsignal (upd_sem a f k) = g_waitingforsignal k"
  "g_inactivetasks (upd_sem a f k) = g_inactivetasks k" "g_pidhash (upd_sem a f k) = g_pidhash k"
  "interrupt_context (upd_sem a f k) = interrupt_context k"
  "sems (upd_sem a f k) = (sems k)(a := f (sems k a))" "this_task (upd_sem a f k) = this_task k"
  "runnable (upd_sem a f k) = runnable k" "unlisted (upd_sem a f k) p = unlisted k p"
  "prio (upd_sem a f k) = prio k"
  by (simp_all add: upd_sem_def this_task_def runnable_def unlisted_def prio_def fun_eq_iff)

lemma sched_inv_upd_sem [simp]: "sched_inv (upd_sem a f k) = sched_inv k"
proof
  show "sched_inv k" if "sched_inv (upd_sem a f k)"
    using that by (rule sched_inv_lists_cong) auto
  show "sched_inv (upd_sem a f k)" if "sched_inv k"
    using that by (rule sched_inv_lists_cong) auto
qed

lemma sched_inv_blocked_setpriority:
  assumes inv: "sched_inv k" and p: "p \<notin> set (g_readytorun k)" and v: "v \<noteq> 0"
  shows "sched_inv (nxsched_blocked_setpriority p v k)"
proof -
  have core: "sched_core k" using inv by (simp add: sched_inv_def)
  have p0: "p \<noteq> idle_pid" using p idle_in [OF core] by metis
  show ?thesis
  proof (cases "p \<in> set (g_pendingtasks k)")
    case True
    have "sched_inv ((set_prio p v k)\<lparr>g_pendingtasks :=
        snd (nxsched_add_prioritized (set_prio p v k) p (remove1 p (g_pendingtasks k)))\<rparr>)"
      using sched_core_readd_pending [OF core True v] inv True
      by (auto simp: sched_inv_def pending_ok_def nxsched_islocked_tcb_def)
    with state_okD(1) [OF core True] show ?thesis
      by (simp add: nxsched_blocked_setpriority_def Let_def)
  next
    case False
    then have np: "task_state (tcbs k p) \<noteq> TSTATE_TASK_PENDING"
      using core by (auto simp: sched_core_def states_ok_def state_ok_def)
    have "sched_inv (set_prio p v k)"
      using inv p False p0 v by (intro sched_inv_set_prio) (simp_all add: runnable_def)
    with np show ?thesis
      by (simp add: nxsched_blocked_setpriority_def Let_def split: tstate_t.splits option.splits)
  qed
qed

lemma task_state_ready:
  assumes "sched_core k"
  shows "task_state (tcbs k p) = TSTATE_TASK_RUNNING \<longleftrightarrow> p = this_task k"
    "task_state (tcbs k p) = TSTATE_TASK_READYTORUN \<longleftrightarrow> p \<in> set (g_readytorun k) \<and> p \<noteq> this_task k"
proof -
  have st: "state_ok k p" and d: "distinct (g_readytorun k)" and ne: "g_readytorun k \<noteq> []"
    using assms by (auto simp: sched_core_def states_ok_def)
  then show "task_state (tcbs k p) = TSTATE_TASK_RUNNING \<longleftrightarrow> p = this_task k"
    "task_state (tcbs k p) = TSTATE_TASK_READYTORUN \<longleftrightarrow> p \<in> set (g_readytorun k) \<and> p \<noteq> this_task k"
    by (cases "g_readytorun k"; auto simp: state_ok_def this_task_def)+
qed

lemma sched_inv_set_priority:
  assumes inv: "sched_inv k" and p: "p \<noteq> idle_pid"
  shows "sched_inv (snd (nxsched_set_priority p v k))"
proof (cases "v < 1 \<or> v > 255")
  case False
  have core: "sched_core k" using inv by (simp add: sched_inv_def)
  have v: "(word_of_int v :: u8) \<noteq> 0"
  proof -
    have "uint (word_of_int v :: u8) = v" using False by (simp add: uint_word_of_int)
    with False show ?thesis by auto
  qed
  note st = task_state_ready [OF core, of p]
  consider "p = this_task k" | "p \<in> set (g_readytorun k)" "p \<noteq> this_task k"
    | "p \<notin> set (g_readytorun k)" by blast
  then show ?thesis
  proof cases
    case 1
    with False st(1) sched_inv_running_setpriority [OF inv 1 p v] show ?thesis
      by (simp add: nxsched_set_priority_def)
  next
    case 2
    with False st(2) sched_inv_reprioritize [OF inv 2(1) p v] show ?thesis
      by (simp add: nxsched_set_priority_def nxsched_readytorun_setpriority_def)
  next
    case 3
    then have "p \<noteq> this_task k" using this_task_in [OF core] by metis
    with False st 3 sched_inv_blocked_setpriority [OF inv 3 v] show ?thesis
      by (simp add: nxsched_set_priority_def split: tstate_t.splits)
  qed
qed (simp add: nxsched_set_priority_def inv)

lemma sched_inv_set_fields:
  assumes "sched_inv k" "\<And>c. sched_priority (f c) = sched_priority c"
    "\<And>c. task_state (f c) = task_state c" "\<And>c. lockcount (f c) = lockcount c"
  shows "sched_inv (upd_tcb p f k)"
  using assms(1) by (rule sched_inv_lists_cong) (use assms in auto)

lemma sched_inv_process_roundrobin:
  assumes inv: "sched_inv k" and p: "p = this_task k" "p \<noteq> idle_pid"
  shows "sched_inv (snd (nxsched_process_roundrobin p ticks noswitches k))"
proof -
  let ?k1 = "upd_tcb p (\<lambda>c. c\<lparr>timeslice := timeslice c - min (timeslice (tcbs k p)) ticks\<rparr>) k"
  let ?k2 = "upd_tcb p (\<lambda>c. c\<lparr>timeslice := rr_ticks\<rparr>) ?k1"
  have inv1: "sched_inv ?k1" by (rule sched_inv_set_fields [OF inv]) simp_all
  have inv2: "sched_inv ?k2" by (rule sched_inv_set_fields [OF inv1]) simp_all
  have "p \<noteq> idle_pid \<Longrightarrow> prio ?k2 p \<noteq> 0"
    using inv2 by (simp add: sched_inv_def sched_core_def prios_ok_def)
  moreover have "p \<in> set (g_readytorun ?k2)" using inv p this_task_in by (simp add: sched_inv_def)
  moreover have "nxsched_islocked_tcb ?k2 p = nxsched_islocked_tcb ?k1 p"
    by (simp add: nxsched_islocked_tcb_def)
  ultimately have "\<not> nxsched_islocked_tcb ?k1 p \<Longrightarrow>
      sched_inv (snd (nxsched_reprioritize_rtr p (prio ?k2 p) ?k2))"
    using p by (intro sched_inv_reprioritize [OF inv2]) simp_all
  with inv1 inv2 show ?thesis
    unfolding nxsched_process_roundrobin_def Let_def by (auto split: list.splits)
qed

text \<open>The idle task does not yield: 0 is not a priority that can be set.\<close>

lemma sched_inv_yield:
  assumes inv: "sched_inv k"
  shows "sched_inv (snd (sched_yield k))"
proof (cases "this_task k = idle_pid")
  case True
  then show ?thesis
    using inv core_prio_idle [of k] by (simp add: sched_yield_def nxsched_set_priority_def sched_inv_def)
next
  case False
  with inv show ?thesis by (simp add: sched_yield_def Let_def sched_inv_set_priority)
qed

section \<open>Yielding and merging\<close>

lemma takeWhile_all_dropWhile:
  "\<forall>x \<in> set a. P x \<Longrightarrow> \<forall>x \<in> set b. \<not> P x \<Longrightarrow> takeWhile P (a @ b) = a \<and> dropWhile P (a @ b) = b"
  by (cases b) (auto simp: takeWhile_append2 dropWhile_append2)

lemma yield_ready:
  assumes inv: "sched_inv k" and unl: "\<not> nxsched_islocked_tcb k p"
    and l: "g_readytorun k = p # a @ b" and a: "a \<noteq> []" "\<forall>q \<in> set a. prio k q = prio k p"
    and b: "\<forall>q \<in> set b. prio k q < prio k p"
  shows "g_readytorun (snd (sched_yield k)) = a @ p # b"
proof -
  have core: "sched_core k" using inv by (simp add: sched_inv_def)
  obtain n t where nt: "a = n # t" using a(1) by (cases a) auto
  have l': "g_readytorun k = p # n # t @ b" using l nt by simp
  have p: "this_task k = p" using l by (simp add: this_task_def)
  have pend: "g_pendingtasks k = []" using inv unl p by (auto simp: sched_inv_def pending_ok_def)
  have "prio k n = prio k p" "n \<noteq> p" using core l' a(2) nt by (auto simp: sched_core_def)
  then have p0: "p \<noteq> idle_pid" using core by (metis sched_core_def prios_ok_def)
  have pp: "prio k p \<noteq> 0" using p0 core by (simp add: sched_core_def prios_ok_def)
  let ?k1 = "set_state p TSTATE_TASK_INVALID
    (set_state n TSTATE_TASK_RUNNING (k\<lparr>g_readytorun := n # t @ b\<rparr>))"
  let ?k2 = "set_prio p (prio k p) ?k1"
  have rem: "nxsched_remove_readytorun p k = (True, ?k1)" by (rule remove_running [OF core l'])
  have pr: "prio ?k2 = prio k" by (auto simp: fun_eq_iff)
  have lk: "nxsched_islocked_tcb ?k2 q = nxsched_islocked_tcb k q" for q
    by (simp add: nxsched_islocked_tcb_def)
  have "takeWhile (\<lambda>x. prio k p \<le> prio k x) (a @ b) = a \<and> dropWhile (\<lambda>x. prio k p \<le> prio k x) (a @ b) = b"
    using a(2) b by (intro takeWhile_all_dropWhile) (auto simp: not_le)
  then have add: "nxsched_add_readytorun p ?k2 =
      (False, set_state p TSTATE_TASK_READYTORUN (?k2\<lparr>g_readytorun := a @ p # b\<rparr>))"
    using a(2) nt by (simp add: nxsched_add_readytorun_def nxsched_add_prioritized_def pr lk Let_def
        del: takeWhile.simps dropWhile.simps takeWhile_append dropWhile_append)
  have rp: "snd (nxsched_reprioritize_rtr p (prio k p) k) =
      set_state p TSTATE_TASK_READYTORUN (?k2\<lparr>g_readytorun := a @ p # b\<rparr>)"
    using rem add pend by (simp add: nxsched_reprioritize_rtr_def Let_def set_prio_def [symmetric])
  have run: "task_state (tcbs k p) = TSTATE_TASK_RUNNING" using task_state_ready [OF core] p by simp
  have "uint (prio k p) \<noteq> 0" using pp by (simp add: unsigned_eq_0_iff)
  then have "1 \<le> uint (prio k p)" "uint (prio k p) \<le> 255"
    using uint_range_size [of "prio k p"] by (simp_all add: word_size int_one_le_iff_zero_less order_less_le)
  then have "snd (sched_yield k) = snd (nxsched_reprioritize_rtr p (prio k p) k)"
    using p run unl a(2) nt l' by (simp add: sched_yield_def nxsched_set_priority_def
        nxsched_running_setpriority_def)
  then show ?thesis by (simp add: rp)
qed

text \<open>
  Merging the pending tasks in one pass gives the ready-to-run list that inserting them one by
  one with \<open>nxsched_add_readytorun\<close> gives.
\<close>

lemma takeWhile_passed:
  assumes "\<forall>q \<in> set passed. P q"
  shows "takeWhile P (passed @ rest) = passed @ takeWhile P rest"
    "dropWhile P (passed @ rest) = dropWhile P rest"
  using assms by (auto simp: takeWhile_append2 dropWhile_append2)

lemma kernel_upd_swap:
  "k\<lparr>g_pendingtasks := x, g_readytorun := y\<rparr> = k\<lparr>g_readytorun := y, g_pendingtasks := x\<rparr>"
  by (cases k) simp

lemma merge_loop_fold:
  assumes "by_prio k pend" "distinct pend" "set pend \<inter> set (passed @ rest) = {}"
    and "\<forall>p \<in> set pend. \<forall>q \<in> set passed. prio k p \<le> prio k q"
    and "passed = [] \<Longrightarrow> rest \<noteq> [] \<Longrightarrow> nxsched_islocked_tcb k (hd rest) \<Longrightarrow>
      \<forall>p \<in> set pend. prio k p \<le> prio k (hd rest)"
    and "passed @ rest \<noteq> []"
  shows "snd (merge_loop passed rest pend (ret, k)) =
    fold (\<lambda>p k. snd (nxsched_add_readytorun p k)) pend
      (k\<lparr>g_readytorun := passed @ rest, g_pendingtasks := []\<rparr>)"
  using assms
proof (induction pend arbitrary: passed rest ret k)
  case (Cons p pn)
  let ?P = "\<lambda>r. prio k p \<le> prio k r"
  obtain sk b where sk: "takeWhile ?P rest = sk" and b: "dropWhile ?P rest = b" by blast
  have rest: "rest = sk @ b" unfolding sk [symmetric] b [symmetric] by simp
  define a where "a = passed @ sk"
  define k' where "k' = (if a = [] then set_state p TSTATE_TASK_RUNNING
      (case b of [] \<Rightarrow> k | r # _ \<Rightarrow> set_state r TSTATE_TASK_READYTORUN k)
      else set_state p TSTATE_TASK_READYTORUN k)"
  let ?k0 = "k\<lparr>g_readytorun := passed @ rest, g_pendingtasks := []\<rparr>"
  have pp: "\<forall>q \<in> set passed. ?P q" using Cons.prems(4) by simp
  have le: "\<forall>q \<in> set a. ?P q"
    using pp set_takeWhileD [of _ ?P rest] sk by (auto simp: a_def)
  have pn: "\<forall>q \<in> set pn. prio k q \<le> prio k p" using Cons.prems(1) by simp
  have nolock: "\<not> (nxsched_islocked_tcb k (this_task ?k0) \<and> prio k (this_task ?k0) < prio k p)"
    using Cons.prems(4,5,6) by (cases passed; cases rest) (auto simp: this_task_def not_less)
  have split: "takeWhile ?P (passed @ rest) = a" "dropWhile ?P (passed @ rest) = b"
    using takeWhile_passed [OF pp, of rest] sk b by (simp_all add: a_def)
  have add: "snd (nxsched_add_readytorun p ?k0) =
      k'\<lparr>g_readytorun := a @ (p # b), g_pendingtasks := []\<rparr>"
  proof (cases "a = []")
    case True
    then obtain r t where rt: "b = r # t" "passed = []" "rest = r # t"
      using Cons.prems(6) rest by (cases b) (auto simp: a_def)
    have pr: "r \<noteq> p" using Cons.prems(3) rt by auto
    from True nolock split rt set_state_commute [OF pr] show ?thesis
      by (auto simp: nxsched_add_readytorun_def nxsched_add_prioritized_def Let_def k'_def
          set_state_upd_lists kernel_upd_swap simp del: takeWhile.simps dropWhile.simps)
  next
    case False
    with nolock split show ?thesis
      by (auto simp: nxsched_add_readytorun_def nxsched_add_prioritized_def Let_def k'_def
          set_state_upd_lists kernel_upd_swap simp del: takeWhile.simps dropWhile.simps takeWhile_append dropWhile_append)
  qed
  have pr': "prio k' = prio k" "nxsched_islocked_tcb k' = nxsched_islocked_tcb k"
    by (auto simp: k'_def split: list.splits)
  have "snd (merge_loop a (p # b) pn (if a = [] then True else ret, k')) =
      fold (\<lambda>p k. snd (nxsched_add_readytorun p k)) pn
        (k'\<lparr>g_readytorun := a @ (p # b), g_pendingtasks := []\<rparr>)"
  proof (rule Cons.IH)
    show "by_prio k' pn" using Cons.prems(1) by_prio_cong [OF pr'(1)] by simp
    show "set pn \<inter> set (a @ p # b) = {}" using Cons.prems(2,3) rest by (auto simp: a_def)
    show "\<forall>q \<in> set pn. \<forall>r \<in> set a. prio k' q \<le> prio k' r"
      using pn le by (auto simp: pr' intro: order_trans)
  qed (use Cons.prems(2) pn in \<open>auto simp: pr'\<close>)
  moreover have "merge_loop passed rest (p # pn) (ret, k)
      = merge_loop a (p # b) pn (if a = [] then True else ret, k')"
    by (auto simp: Let_def sk b k'_def a_def)
  ultimately show ?case using add by simp
qed simp

lemma merge_pending_fold:
  assumes inv: "sched_core k" and unl: "\<not> nxsched_islocked_tcb k (this_task k)"
  shows "snd (nxsched_merge_pending k) =
    fold (\<lambda>p k. snd (nxsched_add_readytorun p k)) (g_pendingtasks k) (k\<lparr>g_pendingtasks := []\<rparr>)"
proof -
  have ne: "g_readytorun k \<noteq> []" using inv by (simp add: sched_core_def)
  have "snd (merge_loop [] (g_readytorun k) (g_pendingtasks k) (False, k)) =
    fold (\<lambda>p k. snd (nxsched_add_readytorun p k)) (g_pendingtasks k)
      (k\<lparr>g_readytorun := [] @ g_readytorun k, g_pendingtasks := []\<rparr>)"
  proof (rule merge_loop_fold)
    show "set (g_pendingtasks k) \<inter> set ([] @ g_readytorun k) = {}"
      using pending_elsewhere(1) [OF inv] by auto
    show "\<forall>p \<in> set (g_pendingtasks k). prio k p \<le> prio k (hd (g_readytorun k))"
      if "nxsched_islocked_tcb k (hd (g_readytorun k))"
      using that unl ne by (cases "g_readytorun k") (auto simp: this_task_def)
  qed (use inv in \<open>auto simp: sched_core_def\<close>)
  with unl show ?thesis by (simp add: nxsched_merge_pending_def)
qed

section \<open>Properties of the scheduler\<close>

lemma add_readytorun_switch:
  assumes core: "sched_core k" and p: "p \<noteq> idle_pid"
  shows "fst (nxsched_add_readytorun p k) \<longleftrightarrow>
      \<not> nxsched_islocked_tcb k (this_task k) \<and> prio k (this_task k) < prio k p"
    "this_task (snd (nxsched_add_readytorun p k)) =
      (if fst (nxsched_add_readytorun p k) then p else this_task k)"
proof -
  obtain h t where l: "g_readytorun k = h # t"
    using core by (cases "g_readytorun k") (auto simp: sched_core_def)
  then show "fst (nxsched_add_readytorun p k) \<longleftrightarrow>
      \<not> nxsched_islocked_tcb k (this_task k) \<and> prio k (this_task k) < prio k p"
    "this_task (snd (nxsched_add_readytorun p k)) =
      (if fst (nxsched_add_readytorun p k) then p else this_task k)"
    by (auto simp: nxsched_add_readytorun_def nxsched_add_prioritized_def Let_def this_task_def)
qed

text \<open>
  C17: Making an unlisted task ready keeps the scheduler invariant (ordered and disjoint lists,
  each task in the list its state names, the idle task last), reports a context switch exactly
  when the task has a higher priority than the running one and preemption is not locked, and then
  the task runs; otherwise the running task goes on.
\<close>

theorem add_readytorun_preempts:
  assumes "sched_inv k" "unlisted k p" "nxsched_add_readytorun p k = (switched, k')"
  shows "sched_inv k' \<and>
    (switched \<longleftrightarrow> \<not> nxsched_islocked_tcb k (this_task k) \<and> prio k (this_task k) < prio k p) \<and>
    this_task k' = (if switched then p else this_task k)"
  using sched_inv_add_readytorun [OF assms(1,2)] add_readytorun_switch [of k p] assms
  by (auto simp: sched_inv_def unlisted_def)

text \<open>
  C18: Merging the pending tasks in one pass over the ready-to-run list leaves the kernel in the
  state that adding them one after the other with \<open>nxsched_add_readytorun\<close> would give.
\<close>

theorem merge_pending_equals_insertion:
  assumes "sched_core k" "\<not> nxsched_islocked_tcb k (this_task k)"
  shows "snd (nxsched_merge_pending k) =
    fold (\<lambda>p k. snd (nxsched_add_readytorun p k)) (g_pendingtasks k) (k\<lparr>g_pendingtasks := []\<rparr>)"
  using assms by (rule merge_pending_fold)

text \<open>
  A running task that yields goes behind all ready tasks of its own priority and in front of
  the lower ones; the first of them runs.
\<close>

theorem yield_goes_behind_equals:
  assumes "sched_inv k" "\<not> nxsched_islocked_tcb k p" "g_readytorun k = p # a @ b" "a \<noteq> []"
    "\<forall>q \<in> set a. prio k q = prio k p" "\<forall>q \<in> set b. prio k q < prio k p"
  shows "g_readytorun (snd (sched_yield k)) = a @ p # b \<and> this_task (snd (sched_yield k)) = hd a \<and>
    sched_inv (snd (sched_yield k))"
  using yield_ready [OF assms] sched_inv_yield [OF assms(1)] assms(4)
  by (cases a) (simp_all add: this_task_def)

text \<open>A kernel with the idle task and the tasks 1, 2 (priority 100) and 3 (priority 120).\<close>

definition demo_tcb :: "u8 \<Rightarrow> tstate_t \<Rightarrow> int \<Rightarrow> tcb_s" where
  "demo_tcb p t l = \<lparr>sched_priority = p, task_state = t, lockcount = l, timeslice = 20,
     waitobj = None, errcode = None, sigpending = False\<rparr>"

definition demo_kernel :: kernel where
  "demo_kernel = \<lparr>tcbs = (\<lambda>_. demo_tcb 1 TSTATE_TASK_INVALID 0)
       (0 := demo_tcb 0 TSTATE_TASK_READYTORUN 0, 1 := demo_tcb 100 TSTATE_TASK_RUNNING 0,
        2 := demo_tcb 100 TSTATE_TASK_READYTORUN 0, 3 := demo_tcb 120 TSTATE_TASK_INVALID 0),
     sems = (\<lambda>_. \<lparr>semval = 0, flags = 0, waitlist = []\<rparr>), g_pidhash = map Some [0, 1, 2, 3],
     g_lastpid = 3, g_readytorun = [1, 2, 0], g_pendingtasks = [], g_waitingforsignal = [],
     g_inactivetasks = [], interrupt_context = False\<rparr>"

lemma demo_inv: "sched_inv demo_kernel"
proof -
  have "state_ok demo_kernel p" for p
    by (simp add: state_ok_def demo_kernel_def demo_tcb_def)
  then show ?thesis
    by (simp add: sched_inv_def sched_core_def states_ok_def prios_ok_def prio_def pending_ok_def
        demo_kernel_def demo_tcb_def idle_pid_def)
qed

theorem add_readytorun_preempts_witness:
  "sched_inv (snd (nxsched_add_readytorun 3 demo_kernel)) \<and>
   this_task (snd (nxsched_add_readytorun 3 demo_kernel)) = 3"
proof -
  have "unlisted demo_kernel 3" by (simp add: unlisted_def demo_kernel_def idle_pid_def)
  moreover have "nxsched_add_readytorun 3 demo_kernel = (True, snd (nxsched_add_readytorun 3 demo_kernel))"
    by (simp add: nxsched_add_readytorun_def nxsched_add_prioritized_def demo_kernel_def demo_tcb_def
        this_task_def nxsched_islocked_tcb_def prio_def)
  ultimately show ?thesis using add_readytorun_preempts [OF demo_inv] by auto
qed

definition demo_pending :: kernel where
  "demo_pending = set_state 3 TSTATE_TASK_PENDING (demo_kernel\<lparr>g_pendingtasks := [3]\<rparr>)"

lemma demo_pending_core: "sched_core demo_pending"
proof -
  have "state_ok demo_pending p" for p
    by (simp add: state_ok_def demo_pending_def demo_kernel_def demo_tcb_def)
  then show ?thesis
    by (simp add: sched_core_def states_ok_def prios_ok_def prio_def demo_pending_def
        demo_kernel_def demo_tcb_def idle_pid_def set_state_def upd_tcb_def)
qed

theorem merge_pending_equals_insertion_witness:
  "g_readytorun (snd (nxsched_merge_pending demo_pending)) = [3, 1, 2, 0]"
proof -
  have "\<not> nxsched_islocked_tcb demo_pending (this_task demo_pending)"
    by (simp add: demo_pending_def demo_kernel_def nxsched_islocked_tcb_def this_task_def demo_tcb_def)
  from merge_pending_equals_insertion [OF demo_pending_core this] show ?thesis
    by (simp add: demo_pending_def demo_kernel_def demo_tcb_def nxsched_add_readytorun_def
        nxsched_add_prioritized_def prio_def this_task_def nxsched_islocked_tcb_def Let_def)
qed

theorem yield_goes_behind_equals_witness:
  "g_readytorun (snd (sched_yield demo_kernel)) = [2, 1, 0]"
  using yield_goes_behind_equals [OF demo_inv, of 1 "[2]" "[0]"]
  by (simp add: demo_kernel_def nxsched_islocked_tcb_def demo_tcb_def prio_def)

end
