(* ===== verification/NxTask.thy ===== *)
theory NxTask
  imports NxSchedSafety
begin

text \<open>
  Task identity and creation (\<^verbatim>\<open>nuttx/sched/task/task_setup.c\<close>,
  \<^verbatim>\<open>nuttx/sched/sched/sched_releasetcb.c\<close>, the initial state of \<^verbatim>\<open>nuttx/sched/init/nx_start.c\<close>):
  the pid table hands out pids that no live task has, and every state that the operations of the
  scheduler reach from the start of the kernel satisfies the scheduler invariant.
\<close>

section \<open>The pid table\<close>

text \<open>
  \<^verbatim>\<open>nxtask_assign_pid\<close>: the candidates are the pids after the last one assigned, back to 1 after
  the largest positive \<^verbatim>\<open>int\<close>; the one whose slot is free is taken.
\<close>

definition pid_wrap :: "pid \<Rightarrow> pid" where
  "pid_wrap p = (if p < 2 ^ 31 then p else 1)"

fun find_pid :: "nat \<Rightarrow> pid option list \<Rightarrow> pid \<Rightarrow> pid option" where
  "find_pid 0 tab next_pid = None"
| "find_pid (Suc i) tab next_pid =
     (let p = pid_wrap next_pid
      in if tab ! PIDHASH (length tab) p = None then Some p else find_pid i tab (p + 1))"

text \<open>
  A full table is replaced by one of twice the size into which the entries are hashed again.
\<close>

definition rehash :: "pid option list \<Rightarrow> pid option list" where
  "rehash tab = fold (\<lambda>e t. case e of None \<Rightarrow> t | Some p \<Rightarrow> t[PIDHASH (2 * length tab) p := Some p])
     tab (replicate (2 * length tab) None)"

text \<open>
  One pass of \<^verbatim>\<open>nxtask_assign_pid\<close> from its label \<^verbatim>\<open>retry\<close>; \<open>allocs\<close> says for each pass whether
  the allocator has memory for a larger table.  A second pass finds a free slot, so the
  recursion on \<open>allocs\<close> never runs out on a list of length 2.
\<close>

fun nxtask_assign_pid :: "bool list \<Rightarrow> kernel \<Rightarrow> (pid res) option \<times> kernel" where
  "nxtask_assign_pid [] k = (None, k)"
| "nxtask_assign_pid (mem # allocs) k =
     (case find_pid (length (g_pidhash k)) (g_pidhash k) (g_lastpid k + 1) of
        Some p \<Rightarrow>
          (Some (Inr p),
           k\<lparr>g_pidhash := (g_pidhash k)[PIDHASH (length (g_pidhash k)) p := Some p], g_lastpid := p\<rparr>)
      | None \<Rightarrow>
          (if mem then nxtask_assign_pid allocs (k\<lparr>g_pidhash := rehash (g_pidhash k)\<rparr>)
           else (Some (Inl ENOMEM), k)))"

definition nxsched_releasepid :: "pid \<Rightarrow> kernel \<Rightarrow> kernel" where
  "nxsched_releasepid p k =
     k\<lparr>g_pidhash := (g_pidhash k)[PIDHASH (length (g_pidhash k)) p := None]\<rparr>"

section \<open>Task creation and the start of the kernel\<close>

text \<open>
  \<^verbatim>\<open>nxthread_setup_scheduler\<close> for a task control block fresh from \<^verbatim>\<open>kmm_zalloc\<close>.
\<close>

definition new_tcb :: "int \<Rightarrow> tcb_s" where
  "new_tcb priority = \<lparr>sched_priority = word_of_int priority, task_state = TSTATE_TASK_INACTIVE,
     lockcount = 0, timeslice = rr_ticks, waitobj = None, errcode = None, sigpending = False\<rparr>"

definition nxthread_setup_scheduler :: "int \<Rightarrow> bool list \<Rightarrow> kernel \<Rightarrow> (pid res) option \<times> kernel" where
  "nxthread_setup_scheduler priority allocs k =
     (case nxtask_assign_pid allocs k of
        (Some (Inr p), k') \<Rightarrow>
          (Some (Inr p),
           k'\<lparr>tcbs := (tcbs k')(p := new_tcb priority), g_inactivetasks := p # g_inactivetasks k'\<rparr>)
      | (r, k') \<Rightarrow> (r, k'))"

text \<open>
  The kernel after \<^verbatim>\<open>idle_task_initialize\<close> and the set-up of the pid table in \<^verbatim>\<open>nx_start\<close>: the
  idle task runs with preemption locked, the table has the 16 entries of
  \<^verbatim>\<open>CONFIG_PID_INITIAL_COUNT\<close>.  Pids without a task have a control block that nothing reads.
\<close>

definition unused_tcb :: tcb_s where
  "unused_tcb = \<lparr>sched_priority = 1, task_state = TSTATE_TASK_INVALID, lockcount = 0,
     timeslice = 0, waitobj = None, errcode = None, sigpending = False\<rparr>"

definition idle_tcb :: tcb_s where
  "idle_tcb = \<lparr>sched_priority = 0, task_state = TSTATE_TASK_RUNNING, lockcount = 1,
     timeslice = 0, waitobj = None, errcode = None, sigpending = False\<rparr>"

definition nx_start_kernel :: "(nat \<Rightarrow> sem_t) \<Rightarrow> kernel" where
  "nx_start_kernel ss = \<lparr>tcbs = (\<lambda>_. unused_tcb)(idle_pid := idle_tcb), sems = ss,
     g_pidhash = Some idle_pid # replicate 15 None, g_lastpid = 0, g_readytorun = [idle_pid],
     g_pendingtasks = [], g_waitingforsignal = [], g_inactivetasks = [], interrupt_context = False\<rparr>"

section \<open>The pid table hands out fresh pids\<close>

definition tab_ok :: "pid option list \<Rightarrow> bool" where
  "tab_ok tab \<longleftrightarrow> (\<exists>j. length tab = 2 ^ j \<and> j < 32) \<and> tab ! 0 = Some idle_pid \<and>
     (\<forall>i < length tab. \<forall>p. tab ! i = Some p \<longrightarrow> PIDHASH (length tab) p = i \<and> p < 2 ^ 31)"

lemma PIDHASH_mod: "PIDHASH (2 ^ j) p = p mod 2 ^ j"
  unfolding PIDHASH_def by (metis mask_nat_def take_bit_eq_mask take_bit_eq_mod One_nat_def)

lemma tab_ok_hash: "tab_ok tab \<Longrightarrow> PIDHASH (length tab) p = p mod length tab"
  by (auto simp: tab_ok_def PIDHASH_mod)

lemma tab_ok_pos: "tab_ok tab \<Longrightarrow> 0 < length tab"
  by (auto simp: tab_ok_def)

definition cand :: "pid \<Rightarrow> nat \<Rightarrow> pid" where
  "cand s i = (if s + i < 2 ^ 31 then s + i else s + i + 1 - 2 ^ 31)"

lemma find_pid_None:
  assumes "find_pid m tab s = None" "1 \<le> s" "s \<le> 2 ^ 31" "m \<le> 2 ^ 31" "i < m"
  shows "tab ! PIDHASH (length tab) (cand (pid_wrap s) i) \<noteq> None"
  using assms
proof (induction m arbitrary: s i)
  case (Suc m)
  then have first: "tab ! PIDHASH (length tab) (pid_wrap s) \<noteq> None"
    and rest: "find_pid m tab (pid_wrap s + 1) = None"
    by (auto simp: Let_def split: if_splits)
  have w: "1 \<le> pid_wrap s" "pid_wrap s < 2 ^ 31" using Suc.prems by (auto simp: pid_wrap_def)
  show ?case
  proof (cases i)
    case 0
    with first w show ?thesis by (simp add: cand_def)
  next
    case (Suc i')
    have "cand (pid_wrap (pid_wrap s + 1)) i' = cand (pid_wrap s) i"
      using w Suc Suc.prems(4,5) by (auto simp: cand_def pid_wrap_def)
    moreover have "tab ! PIDHASH (length tab) (cand (pid_wrap (pid_wrap s + 1)) i') \<noteq> None"
      using Suc.IH [OF rest, of i'] w Suc Suc.prems(4,5) by simp
    ultimately show ?thesis by simp
  qed
qed simp

lemma cand_covers:
  assumes n: "n = 2 ^ j" "j < 32" and s: "1 \<le> s" "s < 2 ^ 31" and x: "1 \<le> x" "x < n"
  shows "\<exists>i < n. cand s i mod n = x"
proof (cases "s + n \<le> 2 ^ 31")
  case True
  define i where "i = (x + (n - s mod n)) mod n"
  have "s mod n < n" using x by simp
  have "(s + i) mod n = (s mod n + (x + (n - s mod n))) mod n"
    unfolding i_def by (metis mod_add_eq mod_add_right_eq)
  also have "\<dots> = (x + n) mod n" using \<open>s mod n < n\<close> by (simp add: algebra_simps)
  finally have "(s + i) mod n = x" using x by simp
  moreover have "i < n" using x by (simp add: i_def)
  ultimately show ?thesis using True by (intro exI [of _ i]) (simp add: cand_def)
next
  case False
  define w where "w = 2 ^ 31 - s"
  have w: "1 \<le> w" "w < n" "s + w = 2 ^ 31" using False s by (auto simp: w_def)
  show ?thesis
  proof (cases "x + w - 1 < n")
    case True
    then show ?thesis using w x by (intro exI [of _ "x + w - 1"]) (auto simp: cand_def)
  next
    case False
    have "j \<le> 31" using n(2) by simp
    then have "n dvd 2 ^ 31" unfolding n(1) by (rule le_imp_power_dvd)
    then obtain c where c: "2 ^ 31 = n * c" by (metis dvdE)
    then have "c \<noteq> 0" by (metis mult_0_right power_not_zero zero_neq_numeral)
    then obtain d where "c = Suc d" by (cases c) auto
    define i where "i = x - (n - w)"
    have i: "i < w" "s + i = n * d + x"
      using False w x c \<open>c = Suc d\<close> by (auto simp: i_def w_def)
    then have "cand s i mod n = x" using w x by (simp add: cand_def)
    then show ?thesis using i w by (intro exI [of _ i]) auto
  qed
qed

lemma find_pid_complete:
  assumes ok: "tab_ok tab" and s: "1 \<le> s" "s \<le> 2 ^ 31"
    and free: "i < length tab" "tab ! i = None"
  shows "find_pid (length tab) tab s \<noteq> None"
proof
  assume none: "find_pid (length tab) tab s = None"
  obtain j where j: "length tab = 2 ^ j" "j < 32" using ok by (auto simp: tab_ok_def)
  have i: "1 \<le> i" using ok free by (cases i) (auto simp: tab_ok_def)
  have "1 \<le> pid_wrap s" "pid_wrap s < 2 ^ 31" using s by (auto simp: pid_wrap_def)
  then obtain m where m: "m < length tab" "cand (pid_wrap s) m mod length tab = i"
    using cand_covers [OF j _ _ i free(1)] by blast
  have "j \<le> 31" using j(2) by simp
  then have "length tab \<le> 2 ^ 31" unfolding j(1) by (intro power_increasing) simp_all
  from find_pid_None [OF none s this m(1)] show False
    using m(2) free(2) by (simp add: tab_ok_hash [OF ok])
qed

lemma find_pid_Some:
  assumes "find_pid m tab s = Some p" "1 \<le> s"
  shows "tab ! PIDHASH (length tab) p = None \<and> 1 \<le> p \<and> p < 2 ^ 31"
  using assms
proof (induction m arbitrary: s)
  case (Suc m)
  have "1 \<le> pid_wrap s" "pid_wrap s < 2 ^ 31" using Suc.prems by (auto simp: pid_wrap_def)
  with Suc show ?case by (auto simp: Let_def split: if_splits)
qed simp

subsection \<open>Enlarging the table\<close>

lemma length_rehash_fold [simp]:
  "length (fold (\<lambda>e t. case e of None \<Rightarrow> t | Some p \<Rightarrow> t[h p := Some p]) es t) = length t"
  by (induction es arbitrary: t) (auto split: option.splits)

lemma length_rehash [simp]: "length (rehash tab) = 2 * length tab"
  by (simp add: rehash_def)

lemma rehash_fold_keeps:
  assumes "\<forall>q. Some q \<in> set es \<and> h q = h p \<longrightarrow> q = p" "h p < length t"
    "Some p \<in> set es \<or> t ! h p = Some p"
  shows "fold (\<lambda>e t. case e of None \<Rightarrow> t | Some p \<Rightarrow> t[h p := Some p]) es t ! h p = Some p"
  using assms
proof (induction es arbitrary: t)
  case (Cons e es)
  show ?case
  proof (cases e)
    case None
    with Cons show ?thesis by auto
  next
    case (Some q)
    have "q \<noteq> p \<Longrightarrow> h q \<noteq> h p" using Cons.prems(1) Some by auto
    then have "Some p \<in> set es \<or> t[h q := Some q] ! h p = Some p"
      using Cons.prems Some by (cases "q = p") auto
    with Cons Some show ?thesis by simp
  qed
qed simp

lemma rehash_fold_only:
  assumes "fold (\<lambda>e t. case e of None \<Rightarrow> t | Some p \<Rightarrow> t[h p := Some p]) es t ! i = Some q"
    "i < length t"
  shows "t ! i = Some q \<or> (Some q \<in> set es \<and> h q = i)"
  using assms
proof (induction es arbitrary: t)
  case (Cons e es)
  show ?case
  proof (cases e)
    case None
    with Cons show ?thesis by auto
  next
    case (Some a)
    with Cons.IH [of "t[h a := Some a]"] Cons.prems show ?thesis
      by (cases "h a = i") auto
  qed
qed simp

lemma tab_ok_mem:
  assumes "tab_ok tab" "Some p \<in> set tab"
  shows "tab ! (p mod length tab) = Some p" "p < 2 ^ 31"
proof -
  obtain i where "i < length tab" "tab ! i = Some p" using assms(2) by (metis in_set_conv_nth)
  with assms(1) show "tab ! (p mod length tab) = Some p" "p < 2 ^ 31"
    using tab_ok_hash [OF assms(1), of p] by (auto simp: tab_ok_def)
qed

lemma tab_ok_mod_inj:
  assumes "tab_ok tab" "Some p \<in> set tab" "Some q \<in> set tab" "p mod length tab = q mod length tab"
  shows "p = q"
  using tab_ok_mem(1) [OF assms(1,2)] tab_ok_mem(1) [OF assms(1,3)] unfolding assms(4)
  by (metis option.inject)

lemma mod_double: "p mod (2 * n) = q mod (2 * n) \<Longrightarrow> p mod n = q mod (n::nat)"
  by (metis mod_mod_cancel dvd_triv_right)

lemma rehash_props:
  assumes ok: "tab_ok tab" and small: "length tab \<le> 2 ^ 30"
  shows "tab_ok (rehash tab)" "Some p \<in> set (rehash tab) \<longleftrightarrow> Some p \<in> set tab"
    "rehash tab ! length tab = None"
proof -
  let ?n = "length tab"
  obtain j where j: "?n = 2 ^ j" using ok by (auto simp: tab_ok_def)
  have j31: "j \<le> 30"
    using small unfolding j by (rule power_le_imp_le_exp [rotated]) simp
  have pos: "0 < ?n" by (rule tab_ok_pos [OF ok])
  have h: "PIDHASH (2 * ?n) p = p mod (2 * ?n)" for p
    using PIDHASH_mod [of "Suc j" p] by (simp add: j)
  have inj: "\<forall>q. Some q \<in> set tab \<and> PIDHASH (2 * ?n) q = PIDHASH (2 * ?n) p \<longrightarrow> q = p"
    if "Some p \<in> set tab" for p
    unfolding h using tab_ok_mod_inj [OF ok _ that] mod_double by blast
  have keep: "rehash tab ! (p mod (2 * ?n)) = Some p" if "Some p \<in> set tab" for p
    using rehash_fold_keeps [OF inj [OF that], of "replicate (2 * ?n) None"] that pos
    by (simp add: rehash_def h)
  have only: "Some q \<in> set tab \<and> q mod (2 * ?n) = i"
    if "rehash tab ! i = Some q" "i < 2 * ?n" for i q
    using rehash_fold_only [of "PIDHASH (2 * ?n)" tab "replicate (2 * ?n) None" i q] that
    by (simp add: rehash_def h)
  have idle: "Some idle_pid \<in> set tab" using ok pos by (metis nth_mem tab_ok_def)
  show "Some p \<in> set (rehash tab) \<longleftrightarrow> Some p \<in> set tab"
  proof
    assume "Some p \<in> set (rehash tab)"
    then show "Some p \<in> set tab" using only by (metis in_set_conv_nth length_rehash)
  next
    assume "Some p \<in> set tab"
    from keep [OF this] show "Some p \<in> set (rehash tab)"
      using pos by (metis length_rehash mod_less_divisor nat_0_less_mult_iff nth_mem zero_less_numeral)
  qed
  show "tab_ok (rehash tab)"
    unfolding tab_ok_def
  proof (intro conjI allI impI)
    show "\<exists>j. length (rehash tab) = 2 ^ j \<and> j < 32"
      using j j31 by (intro exI [of _ "Suc j"]) simp
    show "rehash tab ! 0 = Some idle_pid" using keep [OF idle] by (simp add: idle_pid_def)
    fix i p
    assume "i < length (rehash tab)" "rehash tab ! i = Some p"
    then have "Some p \<in> set tab \<and> p mod (2 * ?n) = i" using only by simp
    then show "PIDHASH (length (rehash tab)) p = i" "p < 2 ^ 31"
      using tab_ok_mem(2) [OF ok] by (simp_all add: h)
  qed
  show "rehash tab ! ?n = None"
  proof (rule ccontr)
    assume "rehash tab ! ?n \<noteq> None"
    then obtain q where "rehash tab ! ?n = Some q" by auto
    then have q: "Some q \<in> set tab" "q mod (2 * ?n) = ?n" using only [of ?n q] pos by simp_all
    then have "q mod ?n = idle_pid mod ?n"
      using mod_mod_cancel [of ?n "2 * ?n" q] by (simp add: idle_pid_def)
    then have "q = idle_pid" using tab_ok_mod_inj [OF ok q(1) idle] by simp
    with q(2) pos show False by (simp add: idle_pid_def)
  qed
qed

lemma get_tcb_mem:
  assumes "tab_ok (g_pidhash k)"
  shows "nxsched_get_tcb k p = (if Some p \<in> set (g_pidhash k) then Some p else None)"
proof -
  have pos: "0 < length (g_pidhash k)" by (rule tab_ok_pos [OF assms])
  then have "p mod length (g_pidhash k) < length (g_pidhash k)" by simp
  then have "g_pidhash k ! (p mod length (g_pidhash k)) = Some p \<Longrightarrow> Some p \<in> set (g_pidhash k)"
    by (metis nth_mem)
  then show ?thesis
    using pos tab_ok_mem(1) [OF assms]
    by (auto simp: nxsched_get_tcb_def tab_ok_hash [OF assms] split: option.splits)
qed

subsection \<open>Assigning a pid\<close>

lemma tab_ok_insert:
  assumes ok: "tab_ok tab" and free: "tab ! PIDHASH (length tab) p = None" and p: "p < 2 ^ 31"
  shows "tab_ok (tab[PIDHASH (length tab) p := Some p])"
    "Some q \<in> set (tab[PIDHASH (length tab) p := Some p]) \<longleftrightarrow> q = p \<or> Some q \<in> set tab"
proof -
  let ?i = "PIDHASH (length tab) p"
  have i: "?i < length tab" using tab_ok_pos [OF ok] by (simp add: tab_ok_hash [OF ok])
  have i0: "?i \<noteq> 0" using free ok by (metis option.distinct(1) tab_ok_def)
  show "tab_ok (tab[?i := Some p])"
    using ok i i0 p unfolding tab_ok_def length_list_update
    by (auto simp: nth_list_update split: if_splits)
  show "Some q \<in> set (tab[?i := Some p]) \<longleftrightarrow> q = p \<or> Some q \<in> set tab"
  proof -
    have "set (tab[?i := Some p]) \<subseteq> insert (Some p) (set tab)" by (rule set_update_subset_insert)
    moreover have "Some p \<in> set (tab[?i := Some p])" using i by (simp add: set_update_memI)
    moreover have "Some q \<in> set (tab[?i := Some p])" if q: "Some q \<in> set tab"
    proof -
      have "q mod length tab \<noteq> ?i" using tab_ok_mem(1) [OF ok q] free by auto
      moreover have "q mod length tab < length tab" using i by (intro mod_less_divisor) linarith
      ultimately show ?thesis
        using tab_ok_mem(1) [OF ok q] by (metis length_list_update nth_list_update_neq nth_mem)
    qed
    ultimately show ?thesis by auto
  qed
qed

definition pid_added :: "pid \<Rightarrow> kernel \<Rightarrow> kernel \<Rightarrow> bool" where
  "pid_added p k k' \<longleftrightarrow> 1 \<le> p \<and> p < 2 ^ 31 \<and> nxsched_get_tcb k p = None \<and>
     tab_ok (g_pidhash k') \<and> g_lastpid k' = p \<and>
     (\<forall>q. nxsched_get_tcb k' q = (if q = p then Some p else nxsched_get_tcb k q)) \<and>
     k' = k\<lparr>g_pidhash := g_pidhash k', g_lastpid := p\<rparr>"

lemma pid_added_found:
  assumes ok: "tab_ok (g_pidhash k)"
    and f: "find_pid (length (g_pidhash k)) (g_pidhash k) (g_lastpid k + 1) = Some p"
  shows "pid_added p k (k\<lparr>g_pidhash := (g_pidhash k)[PIDHASH (length (g_pidhash k)) p := Some p],
    g_lastpid := p\<rparr>)" (is "pid_added p k ?k'")
proof -
  let ?tab = "g_pidhash k"
  have p: "?tab ! PIDHASH (length ?tab) p = None" "1 \<le> p" "p < 2 ^ 31"
    using find_pid_Some [OF f] by auto
  have ok': "tab_ok (g_pidhash ?k')" using tab_ok_insert(1) [OF ok p(1,3)] by simp
  have "Some p \<notin> set ?tab"
    using tab_ok_mem(1) [OF ok, of p] p(1) by (auto simp: tab_ok_hash [OF ok])
  then show ?thesis
    using p ok' tab_ok_insert(2) [OF ok p(1,3)]
    by (simp add: pid_added_def get_tcb_mem [OF ok] get_tcb_mem [OF ok'])
qed

lemma pid_added_rehash:
  assumes ok: "tab_ok (g_pidhash k)" "length (g_pidhash k) \<le> 2 ^ 30"
    and added: "pid_added p (k\<lparr>g_pidhash := rehash (g_pidhash k)\<rparr>) k'"
  shows "pid_added p k k'"
proof -
  let ?k1 = "k\<lparr>g_pidhash := rehash (g_pidhash k)\<rparr>"
  have ok1: "tab_ok (g_pidhash ?k1)" using rehash_props(1) [OF ok] by simp
  have "nxsched_get_tcb ?k1 q = nxsched_get_tcb k q" for q
    by (simp only: get_tcb_mem [OF ok(1)] get_tcb_mem [OF ok1]) (simp add: rehash_props(2) [OF ok])
  with added show ?thesis by (auto simp: pid_added_def)
qed

lemma assign_pid_added:
  assumes ok: "tab_ok (g_pidhash k)" "length (g_pidhash k) \<le> 2 ^ 30" and last: "g_lastpid k < 2 ^ 31"
  shows "\<exists>p k'. nxtask_assign_pid [True, m] k = (Some (Inr p), k') \<and> pid_added p k k'"
proof (cases "find_pid (length (g_pidhash k)) (g_pidhash k) (g_lastpid k + 1)")
  case (Some p)
  with pid_added_found [OF ok(1) Some] show ?thesis by auto
next
  case None
  let ?k1 = "k\<lparr>g_pidhash := rehash (g_pidhash k)\<rparr>"
  have ok1: "tab_ok (g_pidhash ?k1)" using rehash_props(1) [OF ok] by simp
  have "find_pid (length (g_pidhash ?k1)) (g_pidhash ?k1) (g_lastpid ?k1 + 1) \<noteq> None"
    by (rule find_pid_complete [OF ok1, where i = "length (g_pidhash k)"])
      (use last tab_ok_pos [OF ok(1)] rehash_props(3) [OF ok] in auto)
  then obtain p where p: "find_pid (length (g_pidhash ?k1)) (g_pidhash ?k1) (g_lastpid ?k1 + 1) = Some p"
    by auto
  from pid_added_rehash [OF ok pid_added_found [OF ok1 p]] None p show ?thesis by auto
qed

text \<open>Whatever the allocator answers, a pid that is returned is fresh.\<close>

lemma assign_pid_fresh:
  assumes "tab_ok (g_pidhash k)" "length (g_pidhash k) * 2 ^ length allocs \<le> 2 ^ 31"
    "nxtask_assign_pid allocs k = (Some (Inr p), k')"
  shows "pid_added p k k'"
  using assms
proof (induction allocs k rule: nxtask_assign_pid.induct)
  case (2 mem allocs k)
  show ?case
  proof (cases "find_pid (length (g_pidhash k)) (g_pidhash k) (g_lastpid k + 1)")
    case (Some q)
    with 2 pid_added_found [OF 2(2) Some] show ?thesis by auto
  next
    case None
    have "length (g_pidhash k) * 1 \<le> length (g_pidhash k) * 2 ^ length allocs"
      by (intro mult_le_mono2) simp
    moreover have "length (g_pidhash k) * 2 ^ length allocs \<le> 2 ^ 30" using 2(3) by simp
    ultimately have small: "length (g_pidhash k) \<le> 2 ^ 30" by linarith
    with 2 None rehash_props(1) [OF 2(2) small] pid_added_rehash [OF 2(2) small] show ?thesis
      by (auto simp: ac_simps split: if_splits)
  qed
qed simp

section \<open>Every reachable state\<close>

text \<open>
  \<open>live k\<close>: the tasks with a valid state.  Each has an entry in the pid table, so a fresh pid is
  not that of a live task.
\<close>

definition live :: "kernel \<Rightarrow> pid set" where
  "live k = {p. task_state (tcbs k p) \<noteq> TSTATE_TASK_INVALID}"

definition pid_inv :: "kernel \<Rightarrow> bool" where
  "pid_inv k \<longleftrightarrow> tab_ok (g_pidhash k) \<and> g_lastpid k < 2 ^ 31 \<and>
     (\<forall>p \<in> live k. nxsched_get_tcb k p = Some p)"

text \<open>
  The operations of the scheduler, as the kernel runs them: a system call of the running task, a
  timer interrupt, the expiry of a sleep, the creation and the activation of a task.
\<close>

inductive sched_step :: "kernel \<Rightarrow> kernel \<Rightarrow> bool" where
  step_lock: "sched_step k (sched_lock k)"
| step_unlock: "sched_step k (sched_unlock k)"
| step_sleep: "this_task k \<noteq> idle_pid \<Longrightarrow> sched_step k (nxsched_ticksleep n k)"
| step_wakeup: "sched_step k (nxsched_wakeup p k)"
| step_tick: "this_task k \<noteq> idle_pid \<Longrightarrow>
    sched_step k (snd (nxsched_process_roundrobin (this_task k) ticks noswitches k))"
| step_setprio: "p \<in> live k \<Longrightarrow> p \<noteq> idle_pid \<Longrightarrow> sched_step k (snd (nxsched_set_priority p v k))"
| step_activate: "task_state (tcbs k p) = TSTATE_TASK_INACTIVE \<Longrightarrow> sched_step k (nxtask_activate p k)"
| step_create: "1 \<le> priority \<Longrightarrow> priority \<le> 255 \<Longrightarrow>
    length (g_pidhash k) * 2 ^ length allocs \<le> 2 ^ 31 \<Longrightarrow>
    sched_step k (snd (nxthread_setup_scheduler priority allocs k))"

inductive_cases sched_stepE: "sched_step k k'"

lemma live_set_state: "live (set_state p t k) \<subseteq> insert p (live k)"
  by (auto simp: live_def)

lemma live_frame: "frame S k k' \<Longrightarrow> live k' \<subseteq> S \<union> live k"
  by (auto simp: live_def dest: frameD(6))

lemma live_listed:
  assumes "sched_core k"
  shows "runnable k \<subseteq> live k" "set (g_waitingforsignal k) \<subseteq> live k" "set (g_inactivetasks k) \<subseteq> live k"
  using state_okD [OF assms] by (auto simp: live_def runnable_def split: if_splits)

lemma get_tcb_cong: "g_pidhash k' = g_pidhash k \<Longrightarrow> nxsched_get_tcb k' = nxsched_get_tcb k"
  by (auto simp: nxsched_get_tcb_def fun_eq_iff)

lemma pid_inv_mono:
  assumes "pid_inv k" "live k' \<subseteq> live k" "g_pidhash k' = g_pidhash k" "g_lastpid k' = g_lastpid k"
  shows "pid_inv k'"
  using assms get_tcb_cong [OF assms(3)] by (auto simp: pid_inv_def)

text \<open>The tasks that are live or listed stay within a set, and the pid table stays as it is.\<close>

definition within :: "pid set \<Rightarrow> pid option list \<times> pid \<Rightarrow> kernel \<Rightarrow> bool" where
  "within S T k \<longleftrightarrow> live k \<union> runnable k \<subseteq> S \<and> (g_pidhash k, g_lastpid k) = T"

lemma within_frame:
  assumes "within S T k" "frame U k k'" "U \<subseteq> S" "runnable k' \<subseteq> S"
  shows "within S T k'"
  using assms live_frame [OF assms(2)] frameD(4,13) [OF assms(2)] by (auto simp: within_def)

lemma within_upd_tcb:
  assumes "within S T k" "\<And>c. task_state (f c) = task_state c"
  shows "within S T (upd_tcb p f k)"
  using assms by (auto simp: within_def live_def upd_tcb_def runnable_def)

lemma within_add_readytorun:
  "within S T k \<Longrightarrow> p \<in> S \<Longrightarrow> within S T (snd (nxsched_add_readytorun p k))"
  by (rule within_frame [OF _ frame_add_readytorun]) (auto simp: within_def)

lemma within_remove_readytorun:
  "within S T k \<Longrightarrow> p \<in> S \<Longrightarrow> within S T (snd (nxsched_remove_readytorun p k))"
  by (rule within_frame [OF _ frame_remove_readytorun])
    (use runnable_remove_readytorun [of p k] in \<open>auto simp: within_def\<close>)

lemma within_merge_pending:
  "within S T k \<Longrightarrow> within S T (snd (nxsched_merge_pending k))"
  by (rule within_frame [OF _ frame_merge_pending]) (auto simp: within_def)

lemma within_lists:
  "within S T k \<Longrightarrow> within S T (k\<lparr>g_waitingforsignal := l\<rparr>)"
  "within S T k \<Longrightarrow> within S T (k\<lparr>g_inactivetasks := l\<rparr>)"
  "within S T k \<Longrightarrow> set l \<subseteq> S \<Longrightarrow> within S T (k\<lparr>g_pendingtasks := l\<rparr>)"
  "within S T k \<Longrightarrow> within S T (upd_sem a g k)"
  by (auto simp: within_def live_def runnable_def upd_sem_def)

lemma within_set_state: "within S T k \<Longrightarrow> p \<in> S \<Longrightarrow> within S T (set_state p t k)"
  using live_set_state [of p t k]
  by (auto simp: within_def set_state_def upd_tcb_def runnable_def)

lemma within_set_prio: "within S T k \<Longrightarrow> within S T (set_prio p v k)"
  unfolding set_prio_def by (rule within_upd_tcb) simp_all

lemmas within_intros = within_upd_tcb within_add_readytorun within_remove_readytorun
  within_merge_pending within_lists within_set_state within_set_prio

lemma within_reprioritize:
  assumes "within S T k" "p \<in> S"
  shows "within S T (snd (nxsched_reprioritize_rtr p v k))"
proof -
  let ?k1 = "snd (nxsched_remove_readytorun p k)"
  let ?k3 = "snd (nxsched_add_readytorun p (set_prio p v ?k1))"
  have "within S T ?k3" using assms by (intro within_intros)
  then show ?thesis
    unfolding nxsched_reprioritize_rtr_def Let_def set_prio_def [symmetric]
    by (auto intro: within_merge_pending split: prod.splits)
qed

lemma within_move_to_pending:
  assumes "within S T k" "p \<in> S"
  shows "within S T (move_to_pending p k)"
  unfolding move_to_pending_def Let_def using assms within_remove_readytorun [OF assms]
  by (intro within_intros) (auto simp: within_def runnable_def)

lemma within_pend_loop: "within S T k \<Longrightarrow> within S T (pend_loop fuel v k)"
proof (induction fuel arbitrary: k)
  case 0
  then show ?case by (simp add: pend_loop.simps)
next
  case (Suc fuel)
  have "within S T (move_to_pending n k)" if "g_readytorun k = h # n # t" for h n t
    using Suc.prems that by (intro within_move_to_pending) (auto simp: within_def runnable_def)
  with Suc show ?case
    by (subst pend_loop.simps) (auto simp: Let_def split: list.splits)
qed

lemma within_set_priority:
  assumes w: "within S T k" and p: "p \<in> S"
  shows "within S T (snd (nxsched_set_priority p v k))"
proof -
  have "within S T (nxsched_running_setpriority p u k)" for u
    unfolding nxsched_running_setpriority_def
    using w p by (auto intro: within_set_prio within_pend_loop within_reprioritize split: list.splits)
  moreover have "within S T (nxsched_readytorun_setpriority p u k)" for u
    unfolding nxsched_readytorun_setpriority_def using w p by (rule within_reprioritize)
  moreover have "within S T (nxsched_blocked_setpriority p u k)" for u
  proof -
    have "set (remove1 p (g_pendingtasks k)) \<subseteq> S"
      using w set_remove1_subset [of p "g_pendingtasks k"] by (auto simp: within_def runnable_def)
    then show ?thesis
      unfolding nxsched_blocked_setpriority_def Let_def
      using w p by (auto intro!: within_intros split: tstate_t.splits option.splits)
  qed
  ultimately show ?thesis
    using w unfolding nxsched_set_priority_def by (auto split: tstate_t.splits)
qed

lemma within_remove_self:
  "within S T k \<Longrightarrow> p \<in> S \<Longrightarrow> within S T (nxsched_remove_self p k)"
  unfolding nxsched_remove_self_def Let_def by (auto intro: within_intros)

lemma within_step_ops:
  assumes w: "within S T k" and t: "this_task k \<in> S"
  shows "within S T (sched_lock k)" "within S T (sched_unlock k)"
    "within S T (nxsched_ticksleep n k)"
    "within S T (snd (nxsched_process_roundrobin (this_task k) ticks ns k))"
    "p \<in> S \<Longrightarrow> within S T (nxtask_activate p k)" "within S T (nxsched_wakeup p k)"
proof -
  show "within S T (sched_lock k)" using w by (auto simp: sched_lock_def intro: within_upd_tcb)
  show "within S T (sched_unlock k)"
    using w unfolding sched_unlock_def Let_def by (auto intro!: within_upd_tcb within_merge_pending)
  have "within S T (nxsched_abstick_sleep k)"
    unfolding nxsched_abstick_sleep_def Let_def
    using within_remove_self [OF w t] t by (intro within_intros)
  moreover have "within S T (snd (sched_yield k))"
    using w t by (simp add: sched_yield_def Let_def within_set_priority)
  ultimately show "within S T (nxsched_ticksleep n k)" by (simp add: nxsched_ticksleep_def)
  show "within S T (snd (nxsched_process_roundrobin (this_task k) ticks ns k))"
    unfolding nxsched_process_roundrobin_def Let_def
    using w t by (auto intro!: within_upd_tcb within_reprioritize split: list.splits)
  show "within S T (nxtask_activate p k)" if p: "p \<in> S"
  proof -
    let ?f = "\<lambda>c. c\<lparr>waitobj := None, task_state := TSTATE_TASK_INVALID\<rparr>"
    have f: "upd_tcb p ?f k' = upd_tcb p (\<lambda>c. c\<lparr>waitobj := None\<rparr>) (set_state p TSTATE_TASK_INVALID k')"
      for k' by (simp add: set_state_def upd_tcb_def tcb_upd_swap)
    show ?thesis
      unfolding nxtask_activate_def nxsched_remove_blocked_def Let_def f
      using w p by (auto intro!: within_intros split: tstate_t.splits option.splits)
  qed
  show "within S T (nxsched_wakeup p k)"
  proof (cases "task_state (tcbs k p) = TSTATE_WAIT_SIG")
    case True
    then have "p \<in> S" using w by (auto simp: within_def live_def)
    then show ?thesis
      using w unfolding nxsched_wakeup_def by (auto intro!: within_intros)
  qed (simp add: nxsched_wakeup_def w)
qed

lemma pid_inv_within:
  assumes "pid_inv k" "within (live k) (g_pidhash k, g_lastpid k) k'"
  shows "pid_inv k'"
  using assms(1) by (rule pid_inv_mono) (use assms(2) in \<open>auto simp: within_def\<close>)

lemma within_self: "sched_core k \<Longrightarrow> within (live k) (g_pidhash k, g_lastpid k) k"
  using live_listed(1) by (simp add: within_def)

lemma setup_scheduler_inv:
  assumes inv: "sched_inv k" "pid_inv k" and pr: "1 \<le> priority" "priority \<le> 255"
    and small: "length (g_pidhash k) * 2 ^ length allocs \<le> 2 ^ 31"
    and eq: "nxtask_assign_pid allocs k = (Some (Inr p), k')"
  shows "sched_inv (snd (nxthread_setup_scheduler priority allocs k))"
    "pid_inv (snd (nxthread_setup_scheduler priority allocs k))"
proof -
  have ok: "tab_ok (g_pidhash k)" using inv(2) by (simp add: pid_inv_def)
  have added: "pid_added p k k'" by (rule assign_pid_fresh [OF ok small eq])
  then have k': "k' = k\<lparr>g_pidhash := g_pidhash k', g_lastpid := p\<rparr>" and p1: "1 \<le> p" "p < 2 ^ 31"
    and fresh: "nxsched_get_tcb k p = None" by (simp_all add: pid_added_def)
  define k2 where "k2 = k'\<lparr>tcbs := (tcbs k')(p := new_tcb priority), g_inactivetasks := p # g_inactivetasks k'\<rparr>"
  have res: "snd (nxthread_setup_scheduler priority allocs k) = k2"
    by (simp add: nxthread_setup_scheduler_def eq k2_def)
  have sel: "tcbs k2 = (tcbs k)(p := new_tcb priority)" "g_readytorun k2 = g_readytorun k"
    "g_pendingtasks k2 = g_pendingtasks k" "g_waitingforsignal k2 = g_waitingforsignal k"
    "g_inactivetasks k2 = p # g_inactivetasks k"
    unfolding k2_def by (subst k'; simp)+
  have notlive: "p \<notin> live k" using inv(2) fresh by (auto simp: pid_inv_def)
  have core: "sched_core k" using inv(1) by (simp add: sched_inv_def)
  have unl: "unlisted k p"
    using live_listed [OF core] notlive p1 by (auto simp: unlisted_runnable idle_pid_def)
  have w: "uint (word_of_int priority :: u8) = priority" using pr by (simp add: uint_word_of_int)
  have prio2: "prio k2 = (prio k)(p := word_of_int priority)"
    by (auto simp: prio_def sel new_tcb_def)
  have "state_ok k2 q" for q
  proof -
    have "state_ok k q" using core by (simp add: sched_core_def states_ok_def)
    then show ?thesis using unl unfolding state_ok_def unlisted_def sel
      by (cases "q = p") (auto simp: new_tcb_def dest: in_set_takeD in_set_dropD)
  qed
  moreover have "prios_ok k2"
  proof -
    have "(word_of_int priority :: u8) \<noteq> 0"
    proof
      assume "(word_of_int priority :: u8) = 0"
      with w pr show False by simp
    qed
    moreover have "p \<noteq> idle_pid" using p1 by (simp add: idle_pid_def)
    moreover have "prios_ok k" using core by (simp add: sched_core_def)
    ultimately show ?thesis by (simp add: prios_ok_def prio2)
  qed
  moreover have "by_prio k2 l = by_prio k l" if "p \<notin> set l" for l
    using that unfolding by_prio_def prio2 by (induction l) auto
  ultimately have "sched_core k2"
    using core unl by (simp add: sched_core_def states_ok_def sel unlisted_def)
  moreover have "this_task k2 = this_task k" "this_task k \<noteq> p"
    using sel this_task_in [OF core] unl by (auto simp: this_task_def unlisted_def)
  ultimately show "sched_inv (snd (nxthread_setup_scheduler priority allocs k))"
    using inv(1) by (simp add: res sched_inv_def pending_ok_def sel nxsched_islocked_tcb_def)
  have "live k2 \<subseteq> insert p (live k)" by (auto simp: live_def sel)
  moreover have "g_pidhash k2 = g_pidhash k'" "g_lastpid k2 = p"
    unfolding k2_def by (simp, subst k', simp)
  ultimately show "pid_inv (snd (nxthread_setup_scheduler priority allocs k))"
    using added p1 inv(2) get_tcb_cong [of k2 k'] unfolding res pid_inv_def pid_added_def by auto
qed

lemma assign_pid_fail:
  assumes "tab_ok (g_pidhash k)" "length (g_pidhash k) * 2 ^ length allocs \<le> 2 ^ 31"
    "nxtask_assign_pid allocs k = (r, k')" "\<And>p. r \<noteq> Some (Inr p)"
  shows "\<exists>t. k' = k\<lparr>g_pidhash := t\<rparr> \<and> tab_ok t \<and> (\<forall>q. Some q \<in> set t \<longleftrightarrow> Some q \<in> set (g_pidhash k))"
  using assms
proof (induction allocs k rule: nxtask_assign_pid.induct)
  case (1 k)
  then show ?case by (intro exI [of _ "g_pidhash k"]) simp
next
  case (2 mem allocs k)
  have none: "find_pid (length (g_pidhash k)) (g_pidhash k) (g_lastpid k + 1) = None"
    using 2(4,5) by (auto split: option.splits)
  have "length (g_pidhash k) * 1 \<le> length (g_pidhash k) * 2 ^ length allocs"
    by (intro mult_le_mono2) simp
  moreover have "length (g_pidhash k) * 2 ^ length allocs \<le> 2 ^ 30" using 2(3) by simp
  ultimately have small: "length (g_pidhash k) \<le> 2 ^ 30" by linarith
  note re = rehash_props [OF 2(2) small]
  show ?case
  proof (cases mem)
    case True
    let ?k1 = "k\<lparr>g_pidhash := rehash (g_pidhash k)\<rparr>"
    have "\<exists>t. k' = ?k1\<lparr>g_pidhash := t\<rparr> \<and> tab_ok t \<and>
        (\<forall>q. Some q \<in> set t \<longleftrightarrow> Some q \<in> set (g_pidhash ?k1))"
      by (rule 2(1) [OF none True]) (use 2 none True re(1) in \<open>auto simp: ac_simps\<close>)
    with re(2) show ?thesis by simp
  next
    case False
    with 2 none show ?thesis by (intro exI [of _ "g_pidhash k"]) simp
  qed
qed

lemma setup_scheduler_fail_inv:
  assumes inv: "sched_inv k" "pid_inv k"
    and small: "length (g_pidhash k) * 2 ^ length allocs \<le> 2 ^ 31"
    and eq: "nxtask_assign_pid allocs k = (r, k')" "\<And>p. r \<noteq> Some (Inr p)"
  shows "sched_inv (snd (nxthread_setup_scheduler priority allocs k)) \<and>
    pid_inv (snd (nxthread_setup_scheduler priority allocs k))"
proof -
  have ok: "tab_ok (g_pidhash k)" using inv(2) by (simp add: pid_inv_def)
  obtain t where t: "k' = k\<lparr>g_pidhash := t\<rparr>" "tab_ok t" "\<forall>q. Some q \<in> set t \<longleftrightarrow> Some q \<in> set (g_pidhash k)"
    using assign_pid_fail [OF ok small eq] by blast
  have ok': "tab_ok (g_pidhash k')" using t by simp
  have res: "snd (nxthread_setup_scheduler priority allocs k) = k'"
    using eq by (auto simp: nxthread_setup_scheduler_def split: option.splits sum.splits)
  have "sched_inv k'" by (rule sched_inv_lists_cong [OF inv(1)]) (simp_all add: t(1))
  moreover have "pid_inv k'"
    using inv(2) ok' t unfolding pid_inv_def get_tcb_mem [OF ok] get_tcb_mem [OF ok']
    by (auto simp: live_def split: if_splits)
  ultimately show ?thesis by (simp add: res)
qed

lemma sched_step_inv:
  assumes "sched_step k k'" "sched_inv k" "pid_inv k"
  shows "sched_inv k' \<and> pid_inv k'"
proof -
  have core: "sched_core k" using assms(2) by (simp add: sched_inv_def)
  have t: "this_task k \<in> live k" using live_listed(1) [OF core] this_task_in [OF core] by (auto simp: runnable_def)
  note ops = within_step_ops [OF within_self [OF core] t]
  show ?thesis
    using assms(1)
  proof cases
    case (step_sleep n)
    have "sched_inv (nxsched_ticksleep n k)"
      using sched_inv_abstick_sleep sched_inv_yield assms(2) step_sleep by (simp add: nxsched_ticksleep_def)
    with step_sleep ops(3) assms(3) show ?thesis by (auto intro: pid_inv_within)
  next
    case (step_setprio p v)
    have "within (live k) (g_pidhash k, g_lastpid k) k'"
      using within_set_priority [OF within_self [OF core]] step_setprio by simp
    with step_setprio assms show ?thesis by (auto intro: pid_inv_within sched_inv_set_priority)
  next
    case (step_activate p)
    then have "p \<in> live k" by (simp add: live_def)
    with step_activate ops(5) assms show ?thesis by (auto intro: pid_inv_within sched_inv_activate)
  next
    case (step_create priority allocs)
    show ?thesis
    proof (cases "\<exists>p k1. nxtask_assign_pid allocs k = (Some (Inr p), k1)")
      case True
      then show ?thesis using setup_scheduler_inv [OF assms(2,3)] step_create by metis
    next
      case False
      then show ?thesis using setup_scheduler_fail_inv [OF assms(2,3)] step_create by (metis prod.exhaust)
    qed
  qed (use assms ops in \<open>auto intro: pid_inv_within sched_inv_lock sched_inv_unlock sched_inv_wakeup
      sched_inv_process_roundrobin\<close>)
qed

lemma nx_start_inv: "sched_inv (nx_start_kernel ss) \<and> pid_inv (nx_start_kernel ss)"
proof
  have "state_ok (nx_start_kernel ss) p" for p
    by (simp add: state_ok_def nx_start_kernel_def unused_tcb_def idle_tcb_def)
  then show "sched_inv (nx_start_kernel ss)"
    by (simp add: sched_inv_def sched_core_def states_ok_def prios_ok_def prio_def pending_ok_def
        nx_start_kernel_def unused_tcb_def idle_tcb_def)
  have l16: "(2::nat) ^ 4 = 16" by simp
  have tab: "tab_ok (g_pidhash (nx_start_kernel ss))"
    unfolding tab_ok_def nx_start_kernel_def
    by (auto simp: nth_Cons' PIDHASH_def idle_pid_def intro!: exI [of _ 4])
  have "live (nx_start_kernel ss) = {idle_pid}"
    by (auto simp: live_def nx_start_kernel_def unused_tcb_def idle_tcb_def split: if_splits)
  with tab get_tcb_mem [OF tab] show "pid_inv (nx_start_kernel ss)"
    by (simp add: pid_inv_def) (simp add: nx_start_kernel_def)
qed

lemma reachable_inv:
  assumes "sched_step\<^sup>*\<^sup>* (nx_start_kernel ss) k"
  shows "sched_inv k \<and> pid_inv k"
  using assms by (induction) (auto simp: nx_start_inv dest: sched_step_inv)

section \<open>Properties of the kernel\<close>


text \<open>
  C19: While the allocator has memory, \<open>nxtask_assign_pid\<close> returns after at most one enlargement of
  the table with a positive pid that no task in the table has; afterwards the lookup finds the new
  task under it and every other task as before.
\<close>

theorem assign_pid_fresh_and_found:
  assumes "tab_ok (g_pidhash k)" "length (g_pidhash k) \<le> 2 ^ 30" "g_lastpid k < 2 ^ 31"
  shows "\<exists>p k'. nxtask_assign_pid [True, m] k = (Some (Inr p), k') \<and> 1 \<le> p \<and>
    nxsched_get_tcb k p = None \<and>
    (\<forall>q. nxsched_get_tcb k' q = (if q = p then Some p else nxsched_get_tcb k q))"
proof -
  obtain p k' where "nxtask_assign_pid [True, m] k = (Some (Inr p), k')" "pid_added p k k'"
    using assign_pid_added [OF assms, of m] by blast
  then show ?thesis
    by (intro exI [of _ p] exI [of _ k']) (simp add: pid_added_def del: nxtask_assign_pid.simps)
qed

definition demo_sem :: "nat \<Rightarrow> sem_t" where
  "demo_sem a = \<lparr>semval = 0, flags = 0, waitlist = []\<rparr>"

definition demo_active :: kernel where
  "demo_active = nxtask_activate 1 (snd (nxthread_setup_scheduler 100 [True] (nx_start_kernel demo_sem)))"

definition demo_started :: kernel where
  "demo_started = sched_unlock demo_active"

lemma find_pid_numeral [simp]:
  "find_pid (numeral v) tab s =
     (let p = pid_wrap s
      in if tab ! PIDHASH (length tab) p = None then Some p
         else find_pid (pred_numeral v) tab (p + 1))"
  by (simp add: numeral_eq_Suc)

lemma PIDHASH_16: "PIDHASH 16 p = p mod 16"
  using PIDHASH_mod [of 4 p] by simp

lemma demo_created:
  "nxthread_setup_scheduler 100 [True] (nx_start_kernel demo_sem) = (Some (Inr 1),
    (nx_start_kernel demo_sem)\<lparr>g_pidhash := (Some 0 # replicate 15 None)[1 := Some 1], g_lastpid := 1,
      tcbs := (tcbs (nx_start_kernel demo_sem))(1 := new_tcb 100), g_inactivetasks := [1]\<rparr>)"
  by (simp add: nxthread_setup_scheduler_def nx_start_kernel_def pid_wrap_def PIDHASH_16 idle_pid_def)

lemma demo_active_sel:
  "g_readytorun demo_active = [0]" "g_pendingtasks demo_active = [1]"
  "interrupt_context demo_active = False" "lockcount (tcbs demo_active 0) = 1"
  "sched_priority (tcbs demo_active 0) = 0"
  "lockcount (tcbs demo_active (Suc 0)) = 0" "sched_priority (tcbs demo_active (Suc 0)) = 100"
proof -
  let ?k = "nxsched_remove_blocked 1 (snd (nxthread_setup_scheduler 100 [True] (nx_start_kernel demo_sem)))"
  have k: "tcbs ?k 0 = idle_tcb" "g_readytorun ?k = [0]" "g_pendingtasks ?k = []"
    "interrupt_context ?k = False" "sched_priority (tcbs ?k (Suc 0)) = 100" "lockcount (tcbs ?k (Suc 0)) = 0"
    unfolding demo_created
    by (simp_all add: nxsched_remove_blocked_def new_tcb_def nx_start_kernel_def idle_pid_def)
  then have "nxsched_add_readytorun 1 ?k = (False, set_state 1 TSTATE_TASK_PENDING
      (?k\<lparr>g_pendingtasks := snd (nxsched_add_prioritized ?k 1 (g_pendingtasks ?k))\<rparr>))"
    by (intro add_readytorun_pending) (simp_all add: this_task_def nxsched_islocked_tcb_def prio_def idle_tcb_def)
  then have eq: "demo_active = set_state 1 TSTATE_TASK_PENDING (?k\<lparr>g_pendingtasks := [1]\<rparr>)"
    using k(3) by (simp add: demo_active_def nxtask_activate_def add_prioritized_snd)
  show "g_readytorun demo_active = [0]" "g_pendingtasks demo_active = [1]"
    "interrupt_context demo_active = False" "lockcount (tcbs demo_active 0) = 1"
    "sched_priority (tcbs demo_active 0) = 0"
    "lockcount (tcbs demo_active (Suc 0)) = 0" "sched_priority (tcbs demo_active (Suc 0)) = 100"
    unfolding eq using k by (simp_all add: set_state_def upd_tcb_def idle_tcb_def)
qed

lemma demo_started_ready:
  "g_readytorun demo_started = [1, 0]" "lockcount (tcbs demo_started (Suc 0)) = 0"
  "task_state (tcbs demo_started 0) = TSTATE_TASK_READYTORUN"
  unfolding demo_started_def sched_unlock_def
  by (simp_all add: demo_active_sel nxsched_merge_pending_def prio_def this_task_def
      nxsched_islocked_tcb_def Let_def)


theorem assign_pid_fresh_and_found_witness:
  "\<exists>p k'. nxtask_assign_pid [True, True] (nx_start_kernel demo_sem) = (Some (Inr p), k') \<and>
    nxsched_get_tcb k' p = Some p"
proof -
  have "tab_ok (g_pidhash (nx_start_kernel demo_sem))" using nx_start_inv by (simp add: pid_inv_def)
  moreover have "length (g_pidhash (nx_start_kernel demo_sem)) \<le> 2 ^ 30"
    "g_lastpid (nx_start_kernel demo_sem) < 2 ^ 31" by (simp_all add: nx_start_kernel_def)
  ultimately show ?thesis
    using assign_pid_fresh_and_found [of "nx_start_kernel demo_sem" True] by metis
qed

end
