(* ===== verification/NxSem.thy ===== *)
theory NxSem
  imports NxTask
begin

text \<open>
  Counting semaphores and the semaphore side of mutexes (\<^verbatim>\<open>nuttx/libs/libc/semaphore\<close>,
  \<^verbatim>\<open>nuttx/sched/semaphore\<close>) without priority inheritance or protection, as the board is
  configured.  A semaphore is named by its address in the store of the kernel.  A call that
  blocks is split at the context switch: the function that enters it returns \<open>Blocked\<close>, and
  \<open>nxsem_wait_resume\<close> is what the task runs when it is scheduled again.  The compare-and-exchange
  loops run once, since nothing else runs between the read and the exchange on one CPU.
\<close>

section \<open>Values of the semaphore word\<close>

definition SEM_TYPE_MUTEX :: u8 where "SEM_TYPE_MUTEX = 4"
definition NXSEM_MBLOCKING_BIT :: u32 where "NXSEM_MBLOCKING_BIT = 0x80000000"
definition NXSEM_NO_MHOLDER :: u32 where "NXSEM_NO_MHOLDER = 0x7ffffffe"
definition NXSEM_MRESET :: u32 where "NXSEM_MRESET = 0x7fffffff"
definition SEM_VALUE_MAX :: int where "SEM_VALUE_MAX = 0x7fffffff"

definition NXSEM_IS_MUTEX :: "sem_t \<Rightarrow> bool" where
  "NXSEM_IS_MUTEX s \<longleftrightarrow> flags s AND SEM_TYPE_MUTEX \<noteq> 0"

definition NXSEM_MACQUIRED :: "u32 \<Rightarrow> bool" where
  "NXSEM_MACQUIRED h \<longleftrightarrow> h AND NXSEM_NO_MHOLDER \<noteq> NXSEM_NO_MHOLDER"

definition NXSEM_MBLOCKING :: "u32 \<Rightarrow> bool" where
  "NXSEM_MBLOCKING h \<longleftrightarrow> h AND NXSEM_MBLOCKING_BIT \<noteq> 0"

definition semcount :: "sem_t \<Rightarrow> int" where
  "semcount s = sint (semval s)"

definition set_semval :: "nat \<Rightarrow> u32 \<Rightarrow> kernel \<Rightarrow> kernel" where
  "set_semval a v k = upd_sem a (\<lambda>s. s\<lparr>semval := v\<rparr>) k"

definition blocking_bit :: "pid list \<Rightarrow> u32" where
  "blocking_bit wl = (if wl = [] then 0 else NXSEM_MBLOCKING_BIT)"

definition set_mholder :: "nat \<Rightarrow> pid \<Rightarrow> kernel \<Rightarrow> kernel" where
  "set_mholder a p k = set_semval a (of_nat p OR blocking_bit (waitlist (sems k a))) k"

section \<open>Operations\<close>

definition nxsem_init :: "nat \<Rightarrow> u32 \<Rightarrow> kernel \<Rightarrow> kernel" where
  "nxsem_init a v k = upd_sem a (\<lambda>_. \<lparr>semval = v, flags = 0, waitlist = []\<rparr>) k"

definition nxsem_get_value :: "nat \<Rightarrow> kernel \<Rightarrow> int res" where
  "nxsem_get_value a k =
     (if NXSEM_IS_MUTEX (sems k a) then Inl EINVAL else Inr (semcount (sems k a)))"

subsection \<open>Waiting\<close>

datatype wait_result = Returned "unit res" | Blocked

text \<open>
  The part of \<^verbatim>\<open>nxsem_wait_slow\<close> that blocks the running task, up to \<^verbatim>\<open>up_switch_context\<close>.
\<close>

definition block_on_sem :: "nat \<Rightarrow> kernel \<Rightarrow> kernel" where
  "block_on_sem a k =
     (let rtcb = this_task k;
          k1 = upd_tcb rtcb (\<lambda>c. c\<lparr>waitobj := Some a, errcode := None\<rparr>) k;
          k2 = nxsched_remove_self rtcb k1;
          k3 = set_state rtcb TSTATE_WAIT_SEM k2
      in upd_sem a (\<lambda>s. s\<lparr>waitlist := snd (nxsched_add_prioritized k3 rtcb (waitlist s))\<rparr>) k3)"

definition nxsem_wait_slow :: "nat \<Rightarrow> kernel \<Rightarrow> wait_result \<times> kernel" where
  "nxsem_wait_slow a k =
     (let rtcb = this_task k;
          mutex = NXSEM_IS_MUTEX (sems k a);
          old = semval (sems k a)
      in if sigpending (tcbs k rtcb) then (Returned (Inl EINTR), k)
         else if mutex then
           (let k1 = set_semval a (old OR NXSEM_MBLOCKING_BIT) k;
                htcb = (if NXSEM_MACQUIRED old
                        then nxsched_get_tcb k1 (unat (old AND NOT NXSEM_MBLOCKING_BIT)) else None)
            in case htcb of
                 None \<Rightarrow> (Returned OK, set_mholder a rtcb k1)
               | Some _ \<Rightarrow> (Blocked, block_on_sem a k1))
         else
           (let k1 = set_semval a (old - 1) k
            in if sint old > 0 then (Returned OK, k1) else (Blocked, block_on_sem a k1)))"

text \<open>What follows the context switch, run by the woken task.\<close>

definition nxsem_wait_resume :: "nat \<Rightarrow> pid \<Rightarrow> kernel \<Rightarrow> unit res \<times> kernel" where
  "nxsem_wait_resume a rtcb k =
     (case errcode (tcbs k rtcb) of
        Some e \<Rightarrow> (Inl e, k)
      | None \<Rightarrow> (OK, if NXSEM_IS_MUTEX (sems k a) then set_mholder a rtcb k else k))"

definition nxsem_wait :: "nat \<Rightarrow> kernel \<Rightarrow> wait_result \<times> kernel" where
  "nxsem_wait a k =
     (let old = semval (sems k a)
      in if NXSEM_IS_MUTEX (sems k a) then
           (if old \<noteq> NXSEM_NO_MHOLDER then nxsem_wait_slow a k
            else (Returned OK, set_semval a (of_nat (this_task k)) k))
         else
           (if sint old < 1 then nxsem_wait_slow a k
            else (Returned OK, set_semval a (old - 1) k)))"

definition nxsem_trywait_slow :: "nat \<Rightarrow> kernel \<Rightarrow> unit res \<times> kernel" where
  "nxsem_trywait_slow a k =
     (let old = semval (sems k a)
      in if NXSEM_IS_MUTEX (sems k a) then
           (if NXSEM_MACQUIRED old then (Inl EAGAIN, k)
            else (OK, set_semval a (of_nat (this_task k)) k))
         else
           (if sint old \<le> 0 then (Inl EAGAIN, k) else (OK, set_semval a (old - 1) k)))"

definition nxsem_trywait :: "nat \<Rightarrow> kernel \<Rightarrow> unit res \<times> kernel" where
  "nxsem_trywait a k =
     (let old = semval (sems k a)
      in if NXSEM_IS_MUTEX (sems k a) then
           (if old \<noteq> NXSEM_NO_MHOLDER then (Inl EAGAIN, k)
            else (OK, set_semval a (of_nat (this_task k)) k))
         else
           (if sint old < 1 then (Inl EAGAIN, k) else (OK, set_semval a (old - 1) k)))"

text \<open>
  \<^verbatim>\<open>nxsem_tickwait\<close> up to its blocking point; the watchdog timer it starts runs \<open>nxsem_timeout\<close>.
\<close>

definition nxsem_tickwait :: "nat \<Rightarrow> u32 \<Rightarrow> kernel \<Rightarrow> wait_result \<times> kernel" where
  "nxsem_tickwait a delay k =
     (case nxsem_trywait a k of
        (Inr _, k') \<Rightarrow> (Returned OK, k')
      | (Inl _, k') \<Rightarrow> if delay = 0 then (Returned (Inl ETIMEDOUT), k') else nxsem_wait a k')"

subsection \<open>Posting\<close>

text \<open>The first waiter, the one of highest priority, becomes the holder and is made ready.\<close>

definition wake_first :: "nat \<Rightarrow> kernel \<Rightarrow> kernel" where
  "wake_first a k =
     (case waitlist (sems k a) of
        [] \<Rightarrow> k
      | stcb # rest \<Rightarrow>
          (let k1 = upd_sem a (\<lambda>s. s\<lparr>waitlist := rest\<rparr>) k;
               k2 = (if NXSEM_IS_MUTEX (sems k a) then set_mholder a stcb k1 else k1);
               k3 = upd_tcb stcb (\<lambda>c. c\<lparr>waitobj := None\<rparr>) k2
           in snd (nxsched_add_readytorun stcb k3)))"

definition nxsem_post_slow :: "nat \<Rightarrow> kernel \<Rightarrow> unit res \<times> kernel" where
  "nxsem_post_slow a k =
     (let old = semval (sems k a)
      in if NXSEM_IS_MUTEX (sems k a) then
           (let k1 = set_semval a (old OR NXSEM_MBLOCKING_BIT) k
            in if \<not> NXSEM_MBLOCKING old
               then (OK, set_semval a (if old \<noteq> NXSEM_MRESET then NXSEM_NO_MHOLDER else old) k1)
               else (OK, wake_first a k1))
         else if sint old \<ge> SEM_VALUE_MAX then (Inl EOVERFLOW, k)
         else
           (let k1 = set_semval a (old + 1) k
            in (OK, if sint old < 0 then wake_first a k1 else k1)))"

definition nxsem_post :: "nat \<Rightarrow> kernel \<Rightarrow> unit res \<times> kernel" where
  "nxsem_post a k =
     (let old = semval (sems k a)
      in if NXSEM_IS_MUTEX (sems k a) then
           (if NXSEM_MBLOCKING old then nxsem_post_slow a k
            else (OK, set_semval a NXSEM_NO_MHOLDER k))
         else
           (if sint old < 0 then nxsem_post_slow a k
            else (OK, set_semval a (old + 1) k)))"

subsection \<open>Interrupted waits\<close>

text \<open>
  \<^verbatim>\<open>nxsem_wait_irq\<close>, called for a task that waits for the semaphore \<^verbatim>\<open>waitobj\<close>; a mutex wait is
  not aborted by a signal or a cancellation.
\<close>

definition nxsem_wait_irq :: "pid \<Rightarrow> errno \<Rightarrow> kernel \<Rightarrow> kernel" where
  "nxsem_wait_irq wtcb e k =
     (case waitobj (tcbs k wtcb) of
        None \<Rightarrow> k
      | Some a \<Rightarrow>
          (let mutex = NXSEM_IS_MUTEX (sems k a)
           in if mutex \<and> (e = EINTR \<or> e = ECANCELED) then k
              else
                (let k1 = upd_sem a (\<lambda>s. s\<lparr>waitlist := remove1 wtcb (waitlist s)\<rparr>) k;
                     k2 = (if mutex then k1 else set_semval a (semval (sems k a) + 1) k1);
                     k3 = upd_tcb wtcb (\<lambda>c. c\<lparr>waitobj := None, errcode := Some e\<rparr>) k2
                 in snd (nxsched_add_readytorun wtcb k3))))"

definition nxsem_timeout :: "pid \<Rightarrow> kernel \<Rightarrow> kernel" where
  "nxsem_timeout wtcb k =
     (if task_state (tcbs k wtcb) = TSTATE_WAIT_SEM then nxsem_wait_irq wtcb ETIMEDOUT k else k)"

text \<open>
  \<^verbatim>\<open>nxsem_recover\<close> for a task that is being deleted; the task's own state is left as it is.
\<close>

definition nxsem_recover :: "pid \<Rightarrow> kernel \<Rightarrow> kernel" where
  "nxsem_recover tcb k =
     (if task_state (tcbs k tcb) = TSTATE_WAIT_SEM then
        (case waitobj (tcbs k tcb) of
           None \<Rightarrow> k
         | Some a \<Rightarrow>
             (let k1 = upd_sem a (\<lambda>s. s\<lparr>waitlist := remove1 tcb (waitlist s)\<rparr>) k;
                  old = semval (sems k a)
              in if NXSEM_IS_MUTEX (sems k a) then
                   (if waitlist (sems k1 a) = [] then set_semval a (old AND NOT NXSEM_MBLOCKING_BIT) k1
                    else k1)
                 else set_semval a (old + 1) k1))
      else k)"

subsection \<open>Resetting and destroying\<close>

definition reset_mutex :: "nat \<Rightarrow> kernel \<Rightarrow> kernel" where
  "reset_mutex a k =
     (let k1 = set_semval a (NXSEM_MRESET OR NXSEM_MBLOCKING_BIT) k
      in if waitlist (sems k a) \<noteq> [] then snd (nxsem_post a k1) else set_semval a NXSEM_MRESET k1)"

fun reset_sem :: "nat \<Rightarrow> nat \<Rightarrow> kernel \<Rightarrow> kernel" where
  "reset_sem a count k =
     (if semcount (sems k a) < 0 \<and> count > 0
      then reset_sem a (count - 1) (snd (nxsem_post a k))
      else if semcount (sems k a) < 0 then k
      else set_semval a (of_nat count) k)"

declare reset_sem.simps [simp del]

definition nxsem_reset :: "nat \<Rightarrow> nat \<Rightarrow> kernel \<Rightarrow> kernel" where
  "nxsem_reset a count k =
     (let k1 = sched_lock k;
          k2 = (if NXSEM_IS_MUTEX (sems k1 a) then reset_mutex a k1 else reset_sem a count k1)
      in sched_unlock k2)"

definition nxsem_destroy :: "nat \<Rightarrow> kernel \<Rightarrow> kernel" where
  "nxsem_destroy a k =
     (let mutex = NXSEM_IS_MUTEX (sems k a);
          old = semval (sems k a)
      in if mutex \<and> NXSEM_MBLOCKING old \<or> \<not> mutex \<and> sint old < 0 then k
         else set_semval a (if mutex then NXSEM_NO_MHOLDER else 1) k)"

section \<open>The semaphore invariant\<close>

text \<open>
  \<open>sem_struct\<close>: a task is in the wait list of a semaphore exactly when it is in the state of
  waiting for it, and the wait lists are ordered by priority.  \<open>val_ok\<close>: the count of a counting
  semaphore is minus the number of waiters when there are any and not negative otherwise; a mutex
  with waiters has a holder and the blocking bit.
\<close>

definition waits_ok :: "kernel \<Rightarrow> bool" where
  "waits_ok k \<longleftrightarrow> (\<forall>p a. p \<in> set (waitlist (sems k a)) \<longleftrightarrow>
     task_state (tcbs k p) = TSTATE_WAIT_SEM \<and> waitobj (tcbs k p) = Some a)"

definition sem_struct :: "kernel \<Rightarrow> bool" where
  "sem_struct k \<longleftrightarrow> sched_inv k \<and> waits_ok k \<and>
     (\<forall>a. distinct (waitlist (sems k a)) \<and> by_prio k (waitlist (sems k a)))"

definition val_ok :: "sem_t \<Rightarrow> bool" where
  "val_ok s \<longleftrightarrow>
     (if NXSEM_IS_MUTEX s
      then waitlist s \<noteq> [] \<longrightarrow> NXSEM_MBLOCKING (semval s) \<and> NXSEM_MACQUIRED (semval s)
      else int (length (waitlist s)) = max 0 (- semcount s))"

definition sem_inv :: "kernel \<Rightarrow> bool" where
  "sem_inv k \<longleftrightarrow> sem_struct k \<and> (\<forall>a. val_ok (sems k a))"

lemma upd_sem_comp: "upd_sem a f (upd_sem a g k) = upd_sem a (\<lambda>s. f (g s)) k"
  by (simp add: upd_sem_def)

lemma set_semval_sel [simp]:
  "tcbs (set_semval a v k) = tcbs k" "this_task (set_semval a v k) = this_task k"
  "g_readytorun (set_semval a v k) = g_readytorun k" "g_pidhash (set_semval a v k) = g_pidhash k"
  "g_pendingtasks (set_semval a v k) = g_pendingtasks k"
  "sems (set_semval a v k) = (sems k)(a := (sems k a)\<lparr>semval := v\<rparr>)"
  "prio (set_semval a v k) = prio k" "sched_inv (set_semval a v k) = sched_inv k"
  by (simp_all add: set_semval_def)

lemma is_mutex_upd [simp]:
  "NXSEM_IS_MUTEX (s\<lparr>semval := v\<rparr>) = NXSEM_IS_MUTEX s"
  "NXSEM_IS_MUTEX (s\<lparr>waitlist := l\<rparr>) = NXSEM_IS_MUTEX s"
  by (simp_all add: NXSEM_IS_MUTEX_def)

lemma by_prio_upd_sem [simp]: "by_prio (upd_sem a f k) = by_prio k"
  by (rule by_prio_cong) simp

lemma by_prio_set_semval [simp]: "by_prio (set_semval a v k) = by_prio k"
  by (simp add: set_semval_def)

lemma sem_struct_set_semval [simp]: "sem_struct (set_semval a v k) = sem_struct k"
proof -
  have w: "waitlist (((sems k)(a := (sems k a)\<lparr>semval := v\<rparr>)) b) = waitlist (sems k b)" for b
    by simp
  show ?thesis
    unfolding sem_struct_def waits_ok_def set_semval_sel by_prio_set_semval w ..
qed

lemma waiting_unlisted:
  assumes "sem_struct k" "p \<in> set (waitlist (sems k a))"
  shows "unlisted k p" "task_state (tcbs k p) = TSTATE_WAIT_SEM" "waitobj (tcbs k p) = Some a"
    "p \<notin> runnable k" "p \<noteq> idle_pid"
proof -
  show st: "task_state (tcbs k p) = TSTATE_WAIT_SEM" "waitobj (tcbs k p) = Some a"
    using assms by (auto simp: sem_struct_def waits_ok_def)
  show "unlisted k p"
    by (rule not_listed_if_state) (use assms(1) st(1) in \<open>auto simp: sem_struct_def sched_inv_def\<close>)
  then show "p \<notin> runnable k" "p \<noteq> idle_pid" by (auto simp: unlisted_runnable)
qed

text \<open>A task in the ready lists is in no wait list.\<close>

lemma runnable_not_waiting:
  assumes "sched_core k" "p \<in> runnable k"
  shows "task_state (tcbs k p) \<noteq> TSTATE_WAIT_SEM"
  using state_okD [OF assms(1), of p] assms(2) by (auto simp: runnable_def split: if_splits)

lemma struct_make_ready:
  assumes st: "sem_struct k" and p: "p \<in> set (waitlist (sems k a))"
    and f: "\<And>c. sched_priority (f c) = sched_priority c" "\<And>c. task_state (f c) = task_state c"
      "\<And>c. lockcount (f c) = lockcount c"
    and g: "waitlist (g (sems k a)) = remove1 p (waitlist (sems k a))"
    and k1: "k1 = upd_tcb p f (upd_sem a g k)"
  shows "sem_struct (snd (nxsched_add_readytorun p k1))"
    "sems (snd (nxsched_add_readytorun p k1)) = (sems k)(a := g (sems k a))"
    "g_pidhash (snd (nxsched_add_readytorun p k1)) = g_pidhash k"
proof -
  let ?k2 = "snd (nxsched_add_readytorun p k1)"
  note w = waiting_unlisted [OF st p]
  have inv: "sched_inv k" using st by (simp add: sem_struct_def)
  have inv1: "sched_inv k1"
    unfolding k1 using inv by (intro sched_inv_set_fields) (simp_all add: f)
  have unl1: "unlisted k1 p"
    by (rule not_listed_if_state) (use inv1 w(2) in \<open>auto simp: k1 f sched_inv_def\<close>)
  have inv2: "sched_inv ?k2" by (rule sched_inv_add_readytorun [OF inv1 unl1])
  note fr = frame_add_readytorun [of p k1]
  have run1: "runnable k1 = runnable k" by (simp add: k1)
  show sems2: "sems ?k2 = (sems k)(a := g (sems k a))" "g_pidhash ?k2 = g_pidhash k"
    using frameD(1,4) [OF fr] by (simp_all add: k1 upd_tcb_def)
  have prio2: "prio ?k2 = prio k" using frameD(12) [OF fr] by (auto simp: k1 prio_def f fun_eq_iff)
  have d: "distinct (waitlist (sems k b))" "by_prio k (waitlist (sems k b))" for b
    using st by (simp_all add: sem_struct_def)
  have "q \<in> set (waitlist (sems ?k2 b)) \<longleftrightarrow>
      task_state (tcbs ?k2 q) = TSTATE_WAIT_SEM \<and> waitobj (tcbs ?k2 q) = Some b" for q b
  proof (cases "q \<in> insert p (runnable k1)")
    case True
    then have "task_state (tcbs ?k2 q) \<noteq> TSTATE_WAIT_SEM"
      using runnable_not_waiting [of ?k2 q] inv2 by (simp add: sched_inv_def)
    moreover have "q \<notin> set (waitlist (sems ?k2 b))"
    proof (cases "q = p")
      case True
      then show ?thesis
        using st w(3) d g by (auto simp: sems2 sem_struct_def waits_ok_def)
    next
      case False
      then have "q \<notin> set (waitlist (sems k b))"
        using True run1 waiting_unlisted(4) [OF st] by auto
      then show ?thesis using d g by (auto simp: sems2 dest: set_remove1_subset [THEN subsetD])
    qed
    ultimately show ?thesis by simp
  next
    case False
    then have "tcbs ?k2 q = tcbs k q" "q \<noteq> p" using frameD(6) [OF fr, of q] by (auto simp: k1)
    moreover have "q \<in> set (waitlist (sems ?k2 b)) \<longleftrightarrow> q \<in> set (waitlist (sems k b))"
      using \<open>q \<noteq> p\<close> g by (simp add: sems2)
    ultimately show ?thesis using st by (simp add: sem_struct_def waits_ok_def)
  qed
  then have "waits_ok ?k2" by (simp add: waits_ok_def)
  moreover have "distinct (waitlist (sems ?k2 b)) \<and> by_prio ?k2 (waitlist (sems ?k2 b))" for b
    using d by_prio_cong [OF prio2] g by (simp add: sems2 by_prio_remove1)
  ultimately show "sem_struct ?k2" using inv2 by (simp add: sem_struct_def)
qed

lemma sems_tcb_upd [simp]: "sems (set_state p t k) = sems k" "sems (upd_tcb p f k) = sems k"
  by (simp_all add: set_state_def upd_tcb_def)

lemma sems_remove_self [simp]: "sems (nxsched_remove_self p k) = sems k"
  using frameD(1) [OF frame_remove_self] .

lemma prio_remove_self [simp]: "prio (nxsched_remove_self p k) = prio k"
  using frameD(12) [OF frame_remove_self] .

lemma struct_block:
  assumes st: "sem_struct k" and run: "this_task k \<noteq> idle_pid"
  shows "sem_struct (block_on_sem a k)"
    "sems (block_on_sem a k) = (sems k)(a := (sems k a)\<lparr>waitlist :=
       snd (nxsched_add_prioritized k (this_task k) (waitlist (sems k a)))\<rparr>)"
    "task_state (tcbs (block_on_sem a k) (this_task k)) = TSTATE_WAIT_SEM"
    "g_pidhash (block_on_sem a k) = g_pidhash k"
proof -
  let ?r = "this_task k"
  let ?k1 = "upd_tcb ?r (\<lambda>c. c\<lparr>waitobj := Some a, errcode := None\<rparr>) k"
  let ?k2 = "nxsched_remove_self ?r ?k1"
  let ?k3 = "set_state ?r TSTATE_WAIT_SEM ?k2"
  have prio_k1: "prio ?k1 = prio k" by (auto simp: prio_def fun_eq_iff)
  have ap: "nxsched_add_prioritized ?k3 ?r l = nxsched_add_prioritized k ?r l" for l
    by (simp add: nxsched_add_prioritized_def prio_k1)
  have eq: "block_on_sem a k = upd_sem a (\<lambda>s. s\<lparr>waitlist := snd (nxsched_add_prioritized k ?r (waitlist s))\<rparr>) ?k3"
    by (simp add: block_on_sem_def Let_def ap)
  have sem3: "sems ?k3 = sems k" by (simp add: set_state_def upd_tcb_def)
  show sems': "sems (block_on_sem a k) = (sems k)(a := (sems k a)\<lparr>waitlist :=
       snd (nxsched_add_prioritized k ?r (waitlist (sems k a)))\<rparr>)" by (simp add: eq sem3)
  show state': "task_state (tcbs (block_on_sem a k) ?r) = TSTATE_WAIT_SEM" by (simp add: eq)
  show "g_pidhash (block_on_sem a k) = g_pidhash k"
    using frameD(4) [OF frame_remove_self, of ?r ?k1] by (simp add: eq)
  have inv: "sched_inv k" using st by (simp add: sem_struct_def)
  then have core: "sched_core k" by (simp add: sched_inv_def)
  have inv1: "sched_inv ?k1" by (rule sched_inv_set_fields [OF inv]) simp_all
  then have core1: "sched_core ?k1" by (simp add: sched_inv_def)
  have inv2: "sched_inv ?k2" by (rule sched_inv_remove_self [OF inv1]) (simp_all add: run)
  have unl2: "unlisted ?k2 ?r" by (rule unlisted_remove_self [OF core1]) (simp_all add: run)
  have inv3: "sched_inv ?k3" by (rule sched_inv_set_unlisted [OF inv2 unl2]) simp
  have fr: "frame (insert ?r (runnable k)) ?k1 ?k2"
    using frame_remove_self [of ?r ?k1] by (simp add: runnable_def)
  have run2: "runnable ?k2 = runnable k - {?r}"
    using runnable_remove_self [OF core1] run by simp
  have r_run: "?r \<in> runnable k" using this_task_in [OF core] by (simp add: runnable_def)
  have wo3: "waitobj (tcbs ?k3 ?r) = Some a"
    using frameD(9) [OF fr, of ?r] by (simp add: set_state_def upd_tcb_def)
  have d: "distinct (waitlist (sems k b))" "by_prio k (waitlist (sems k b))" for b
    using st by (simp_all add: sem_struct_def)
  have r_not: "?r \<notin> set (waitlist (sems k b))" for b
    using waiting_unlisted(4) [OF st] r_run by metis
  have "q \<in> set (waitlist (sems (block_on_sem a k) b)) \<longleftrightarrow>
      task_state (tcbs (block_on_sem a k) q) = TSTATE_WAIT_SEM \<and>
      waitobj (tcbs (block_on_sem a k) q) = Some b" for q b
  proof (cases "q = ?r")
    case True
    then show ?thesis using state' wo3 r_not by (auto simp: sems' eq)
  next
    case False
    note qr = this
    have t3: "tcbs (block_on_sem a k) q = tcbs ?k2 q" using qr by (simp add: eq set_state_def)
    have mem: "q \<in> set (waitlist (sems (block_on_sem a k) b)) \<longleftrightarrow> q \<in> set (waitlist (sems k b))"
      using qr by (simp add: sems')
    show ?thesis
    proof (cases "q \<in> runnable k")
      case True
      then have "q \<in> runnable ?k2" using qr run2 by simp
      then have "task_state (tcbs ?k2 q) \<noteq> TSTATE_WAIT_SEM"
        using inv2 runnable_not_waiting by (simp add: sched_inv_def)
      moreover have "q \<notin> set (waitlist (sems k b))" using True waiting_unlisted(4) [OF st] by metis
      ultimately show ?thesis by (simp add: t3 mem)
    next
      case False
      then have "tcbs ?k2 q = tcbs k q" using frameD(6) [OF fr, of q] qr by simp
      then show ?thesis using st by (simp add: t3 mem sem_struct_def waits_ok_def)
    qed
  qed
  then have "waits_ok (block_on_sem a k)" by (simp add: waits_ok_def)
  moreover have "prio (block_on_sem a k) = prio k" by (simp add: eq prio_k1)
  then have "by_prio (block_on_sem a k) = by_prio k" by (rule by_prio_cong)
  then have "distinct (waitlist (sems (block_on_sem a k) b)) \<and>
      by_prio (block_on_sem a k) (waitlist (sems (block_on_sem a k) b))" for b
    using d r_not by (simp add: sems' distinct_add_prioritized by_prio_add_prioritized)
  moreover have "sched_inv (block_on_sem a k)" using inv3 by (simp add: eq)
  ultimately show "sem_struct (block_on_sem a k)" by (simp add: sem_struct_def)
qed

lemma length_add_prioritized [simp]:
  "length (snd (nxsched_add_prioritized k p l)) = Suc (length l)"
proof -
  have "length (takeWhile P l) + length (dropWhile P l) = length l" for P
    by (metis length_append takeWhile_dropWhile_id)
  then show ?thesis by (simp add: add_prioritized_snd)
qed

lemma add_prioritized_not_Nil [simp]: "snd (nxsched_add_prioritized k p l) \<noteq> []"
  by (simp add: add_prioritized_snd)

subsection \<open>Words\<close>

lemma bit_MBLOCKING_BIT: "bit NXSEM_MBLOCKING_BIT n \<longleftrightarrow> n = 31"
proof -
  have "NXSEM_MBLOCKING_BIT = 2 ^ 31" by (simp add: NXSEM_MBLOCKING_BIT_def)
  then have "bit NXSEM_MBLOCKING_BIT n = bit (2 ^ 31 :: u32) n" by (rule arg_cong)
  then show ?thesis by (auto simp only: bit_exp_iff) (auto simp: possible_bit_word)
qed

lemma MBLOCKING_bit: "NXSEM_MBLOCKING h \<longleftrightarrow> bit h 31"
  unfolding NXSEM_MBLOCKING_def 
  by (auto simp: bit_eq_iff [of "h AND NXSEM_MBLOCKING_BIT" 0] bit_and_iff bit_MBLOCKING_BIT)

lemma MBLOCKING_or [simp]: "NXSEM_MBLOCKING (h OR NXSEM_MBLOCKING_BIT)"
  by (simp add: MBLOCKING_bit bit_or_iff bit_MBLOCKING_BIT)

lemma MACQUIRED_or [simp]: "NXSEM_MACQUIRED (h OR NXSEM_MBLOCKING_BIT) = NXSEM_MACQUIRED h"
proof -
  have "NXSEM_MBLOCKING_BIT AND NXSEM_NO_MHOLDER = 0"
    by (simp add: NXSEM_MBLOCKING_BIT_def NXSEM_NO_MHOLDER_def)
  then show ?thesis by (simp add: NXSEM_MACQUIRED_def bit.conj_disj_distrib2)
qed

lemma unat_of_pid: "p < 2 ^ 31 \<Longrightarrow> unat (of_nat p :: u32) = p"
  by (simp add: unat_of_nat)

lemma holder_not_blocking [simp]:
  assumes "p < 2 ^ 31"
  shows "\<not> NXSEM_MBLOCKING (of_nat p)"
proof -
  have "bit (of_nat p :: u32) 31 = bit (unat (of_nat p :: u32)) 31" by (simp add: bit_unsigned_iff)
  with unat_of_pid [OF assms] assms show ?thesis by (simp add: MBLOCKING_bit bit_iff_odd)
qed

lemma holder_acquired [simp]:
  assumes "p < 2 ^ 31 - 2"
  shows "NXSEM_MACQUIRED (of_nat p)"
  unfolding NXSEM_MACQUIRED_def
proof
  assume "(of_nat p :: u32) AND NXSEM_NO_MHOLDER = NXSEM_NO_MHOLDER"
  then have "NXSEM_NO_MHOLDER \<le> (of_nat p :: u32)" by (metis word_and_le2)
  with assms show False by (simp add: word_le_nat_alt unat_of_pid NXSEM_NO_MHOLDER_def)
qed

lemma holder_unat [simp]:
  assumes "p < 2 ^ 31"
  shows "unat ((of_nat p OR NXSEM_MBLOCKING_BIT) AND NOT NXSEM_MBLOCKING_BIT) = p"
    "unat (of_nat p AND NOT NXSEM_MBLOCKING_BIT) = p"
proof -
  have "\<not> bit (of_nat p :: u32) 31" using holder_not_blocking [OF assms] by (simp add: MBLOCKING_bit)
  then have "(of_nat p :: u32) AND NOT NXSEM_MBLOCKING_BIT = of_nat p"
    by (intro bit_eqI) (auto simp: bit_and_iff bit_not_iff bit_MBLOCKING_BIT)
  then show "unat (of_nat p AND NOT NXSEM_MBLOCKING_BIT) = p"
    "unat ((of_nat p OR NXSEM_MBLOCKING_BIT) AND NOT NXSEM_MBLOCKING_BIT) = p"
    by (simp_all add: unat_of_pid [OF assms] bit.conj_disj_distrib2)
qed

lemma sint_pred:
  fixes w :: u32
  assumes "- (2 ^ 31) < sint w"
  shows "sint (w - 1) = sint w - 1"
  using assms sint_lt [of w] by (simp add: signed_take_bit_int_eq_self sint_word_ariths)

lemma sint_succ:
  fixes w :: u32
  assumes "sint w < 2 ^ 31 - 1"
  shows "sint (w + 1) = sint w + 1"
  using assms sint_ge [of w] by (simp add: signed_take_bit_int_eq_self sint_word_ariths)

section \<open>Every operation keeps the invariant\<close>

lemma sem_inv_set_semval:
  assumes "sem_inv k" "val_ok ((sems k a)\<lparr>semval := v\<rparr>)"
  shows "sem_inv (set_semval a v k)"
  using assms by (auto simp: sem_inv_def)

lemma val_ok_count:
  "\<not> NXSEM_IS_MUTEX s \<Longrightarrow> val_ok s \<longleftrightarrow> int (length (waitlist s)) = max 0 (- sint (semval s))"
  by (simp add: val_ok_def semcount_def)

lemma val_ok_mutex:
  "NXSEM_IS_MUTEX s \<Longrightarrow>
     val_ok s \<longleftrightarrow> (waitlist s \<noteq> [] \<longrightarrow> NXSEM_MBLOCKING (semval s) \<and> NXSEM_MACQUIRED (semval s))"
  by (simp add: val_ok_def)

lemma val_ok_waits:
  assumes "sem_inv k" "\<not> NXSEM_IS_MUTEX (sems k a)"
  shows "int (length (waitlist (sems k a))) = max 0 (- sint (semval (sems k a)))"
  using assms val_ok_count by (auto simp: sem_inv_def)

lemma val_ok_waits_mutex:
  assumes "sem_inv k" "NXSEM_IS_MUTEX (sems k a)" "waitlist (sems k a) \<noteq> []"
  shows "NXSEM_MBLOCKING (semval (sems k a))" "NXSEM_MACQUIRED (semval (sems k a))"
  using assms val_ok_mutex by (auto simp: sem_inv_def)

lemma sem_inv_take_count:
  assumes "sem_inv k" "\<not> NXSEM_IS_MUTEX (sems k a)" "sint (semval (sems k a)) > 0"
  shows "sem_inv (set_semval a (semval (sems k a) - 1) k)"
  using assms val_ok_waits [OF assms(1,2)]
  by (intro sem_inv_set_semval) (simp_all add: val_ok_count sint_pred)

lemma sem_inv_take_mutex:
  assumes "sem_inv k" "NXSEM_IS_MUTEX (sems k a)" "\<not> NXSEM_MACQUIRED (semval (sems k a))"
  shows "sem_inv (set_semval a v k)"
  using assms val_ok_waits_mutex [OF assms(1,2)]
  by (intro sem_inv_set_semval) (auto simp: val_ok_mutex)

lemma NO_MHOLDER_free [simp]: "\<not> NXSEM_MACQUIRED NXSEM_NO_MHOLDER" "\<not> NXSEM_MACQUIRED NXSEM_MRESET"
  by (simp_all add: NXSEM_MACQUIRED_def NXSEM_NO_MHOLDER_def NXSEM_MRESET_def)

lemma NO_MHOLDER_not_blocking [simp]: "\<not> NXSEM_MBLOCKING NXSEM_NO_MHOLDER" "\<not> NXSEM_MBLOCKING NXSEM_MRESET"
  by (simp_all add: NXSEM_MBLOCKING_def NXSEM_MBLOCKING_BIT_def NXSEM_NO_MHOLDER_def NXSEM_MRESET_def)

lemma sem_inv_trywait:
  assumes "sem_inv k"
  shows "sem_inv (snd (nxsem_trywait a k))" "sem_inv (snd (nxsem_trywait_slow a k))"
  using assms sem_inv_take_count [OF assms, of a] sem_inv_take_mutex [OF assms, of a]
  by (auto simp: nxsem_trywait_def nxsem_trywait_slow_def Let_def not_less not_le)

lemma holder_val_ok:
  assumes "NXSEM_IS_MUTEX s" "p < 2 ^ 31 - 2" "v = of_nat p OR blocking_bit (waitlist s)"
  shows "val_ok (s\<lparr>semval := v\<rparr>)"
  using assms by (auto simp: val_ok_mutex blocking_bit_def)

lemma sem_inv_block:
  assumes st: "sem_struct k" and run: "this_task k \<noteq> idle_pid"
    and ok: "\<forall>b. b \<noteq> a \<longrightarrow> val_ok (sems k b)"
    and ok_a: "val_ok ((sems k a)\<lparr>waitlist := snd (nxsched_add_prioritized k (this_task k) (waitlist (sems k a)))\<rparr>)"
  shows "sem_inv (block_on_sem a k)"
  using struct_block(1,2) [OF st run, of a] ok ok_a by (simp add: sem_inv_def)

text \<open>The wait lists are shorter than the range of the count.\<close>

lemma waitlist_bound:
  assumes st: "sem_struct k" and pid: "pid_inv k" and run: "this_task k \<noteq> idle_pid"
  shows "length (waitlist (sems k a)) < 2 ^ 31 - 1"
proof -
  let ?W = "set (waitlist (sems k a))"
  have core: "sched_core k" using st by (simp add: sem_struct_def sched_inv_def)
  have ok: "tab_ok (g_pidhash k)" using pid by (simp add: pid_inv_def)
  have "p < 2 ^ 31" if p: "p \<in> ?W \<union> {this_task k}" for p
  proof -
    have "p \<in> live k"
      using p waiting_unlisted(2) [OF st, of p a] this_task_in [OF core] live_listed(1) [OF core]
      by (auto simp: live_def runnable_def)
    then have "Some p \<in> set (g_pidhash k)"
      using pid get_tcb_mem [OF ok, of p] by (auto simp: pid_inv_def split: if_splits)
    then show ?thesis by (rule tab_ok_mem(2) [OF ok])
  qed
  moreover have "p \<noteq> 0" if "p \<in> ?W" for p
    using waiting_unlisted(5) [OF st that] by (simp add: idle_pid_def)
  moreover have "this_task k \<notin> ?W"
    using waiting_unlisted(4) [OF st] this_task_in [OF core] by (auto simp: runnable_def)
  ultimately have sub: "?W \<subseteq> {1..<2 ^ 31} - {this_task k}" and t: "this_task k \<in> {1..<2 ^ 31}"
    using run by (fastforce simp: idle_pid_def)+
  have "card ?W \<le> card ({1..<2 ^ 31 :: nat} - {this_task k})" using sub by (intro card_mono) simp_all
  also have "\<dots> = 2 ^ 31 - 1 - 1" using t by (simp add: card_Diff_singleton)
  finally have "card ?W \<le> 2 ^ 31 - 2" by simp
  moreover have "distinct (waitlist (sems k a))" using st by (simp add: sem_struct_def)
  ultimately show ?thesis by (simp add: distinct_card)
qed

lemma sem_inv_wait_slow:
  assumes inv: "sem_inv k" and pid: "pid_inv k" and run: "this_task k \<noteq> idle_pid"
    and tid: "this_task k < 2 ^ 31 - 2"
  shows "sem_inv (snd (nxsem_wait_slow a k))"
proof (cases "sigpending (tcbs k (this_task k))")
  case True
  then show ?thesis using inv by (simp add: nxsem_wait_slow_def)
next
  case False
  let ?s = "sems k a" and ?old = "semval (sems k a)"
  have st: "sem_struct k" and oth: "\<forall>b. val_ok (sems k b)" using inv by (simp_all add: sem_inv_def)
  show ?thesis
  proof (cases "NXSEM_IS_MUTEX ?s")
    case True
    let ?k1 = "set_semval a (?old OR NXSEM_MBLOCKING_BIT) k"
    have take: "sem_inv (set_mholder a (this_task k) ?k1)"
    proof -
      have "set_mholder a (this_task k) ?k1 = set_semval a (of_nat (this_task k) OR blocking_bit (waitlist ?s)) k"
        by (simp add: set_mholder_def set_semval_def upd_sem_comp)
      moreover have "val_ok (?s\<lparr>semval := of_nat (this_task k) OR blocking_bit (waitlist ?s)\<rparr>)"
        by (rule holder_val_ok [OF True tid refl])
      ultimately show ?thesis using sem_inv_set_semval [OF inv] by simp
    qed
    have "sem_inv (block_on_sem a ?k1)" if "NXSEM_MACQUIRED ?old"
      by (rule sem_inv_block) (use st run oth True that in \<open>auto simp: val_ok_mutex\<close>)
    with take True False show ?thesis
      by (auto simp: nxsem_wait_slow_def Let_def split: option.splits)
  next
    case nm: False
    note w = val_ok_waits [OF inv nm]
    have b: "int (length (waitlist ?s)) < 2 ^ 31 - 1" using waitlist_bound [OF st pid run, of a] by simp
    let ?k1 = "set_semval a (?old - 1) k"
    have "sem_inv (block_on_sem a ?k1)" if "\<not> 0 < sint ?old"
    proof (rule sem_inv_block)
      have "sint (?old - 1) = sint ?old - 1" using w b that by (intro sint_pred) linarith
      then show "val_ok ((sems ?k1 a)\<lparr>waitlist :=
          snd (nxsched_add_prioritized ?k1 (this_task ?k1) (waitlist (sems ?k1 a)))\<rparr>)"
        using w that nm by (simp add: val_ok_count)
    qed (use st run oth in auto)
    with nm False sem_inv_take_count [OF inv nm] show ?thesis
      by (auto simp: nxsem_wait_slow_def Let_def)
  qed
qed

lemma sem_inv_wait:
  assumes "sem_inv k" "pid_inv k" "this_task k \<noteq> idle_pid" "this_task k < 2 ^ 31 - 2"
  shows "sem_inv (snd (nxsem_wait a k))"
  using assms sem_inv_wait_slow [OF assms, of a] sem_inv_take_count [OF assms(1), of a]
    sem_inv_take_mutex [OF assms(1), of a]
  by (auto simp: nxsem_wait_def Let_def not_less)

lemma set_mholder_sel [simp]:
  "tcbs (set_mholder a p k) = tcbs k" "sem_struct (set_mholder a p k) = sem_struct k"
  "this_task (set_mholder a p k) = this_task k" "g_pidhash (set_mholder a p k) = g_pidhash k"
  by (simp_all add: set_mholder_def)

lemma sem_inv_wait_resume:
  assumes inv: "sem_inv k" and tid: "p < 2 ^ 31 - 2"
  shows "sem_inv (snd (nxsem_wait_resume a p k))"
  using inv holder_val_ok [OF _ tid refl, of "sems k a"]
  by (auto simp: nxsem_wait_resume_def set_mholder_def intro!: sem_inv_set_semval split: option.splits)

subsection \<open>Waking the first waiter\<close>

definition woken_sem :: "sem_t \<Rightarrow> sem_t" where
  "woken_sem s = (case waitlist s of
       [] \<Rightarrow> s
     | p # rest \<Rightarrow> if NXSEM_IS_MUTEX s then s\<lparr>waitlist := rest, semval := of_nat p OR blocking_bit rest\<rparr>
                   else s\<lparr>waitlist := rest\<rparr>)"

lemma wake_first_eq:
  assumes "waitlist (sems k a) = p # rest"
  shows "wake_first a k = snd (nxsched_add_readytorun p
    (upd_tcb p (\<lambda>c. c\<lparr>waitobj := None\<rparr>) (upd_sem a (\<lambda>_. woken_sem (sems k a)) k)))"
  using assms
  by (simp add: wake_first_def woken_sem_def Let_def set_mholder_def set_semval_def upd_sem_def)

lemma wake_first_props:
  assumes st: "sem_struct k"
  shows "sem_struct (wake_first a k)" "sems (wake_first a k) = (sems k)(a := woken_sem (sems k a))"
    "g_pidhash (wake_first a k) = g_pidhash k"
proof -
  have "sem_struct (wake_first a k) \<and> sems (wake_first a k) = (sems k)(a := woken_sem (sems k a)) \<and>
    g_pidhash (wake_first a k) = g_pidhash k"
  proof (cases "waitlist (sems k a)")
    case Nil
    then have "wake_first a k = k" "woken_sem (sems k a) = sems k a"
      by (simp_all add: wake_first_def woken_sem_def)
    with st show ?thesis by simp
  next
    case (Cons p rest)
    then have "waitlist (woken_sem (sems k a)) = remove1 p (waitlist (sems k a))"
      by (simp add: woken_sem_def)
    with struct_make_ready [OF st, of p a "\<lambda>c. c\<lparr>waitobj := None\<rparr>" "\<lambda>_. woken_sem (sems k a)"] Cons
    show ?thesis by (simp add: wake_first_eq)
  qed
  then show "sem_struct (wake_first a k)" "sems (wake_first a k) = (sems k)(a := woken_sem (sems k a))"
    "g_pidhash (wake_first a k) = g_pidhash k" by simp_all
qed

lemma waiter_tid:
  assumes "pid_inv k" "sem_struct k" "p \<in> set (waitlist (sems k a))"
  shows "p < 2 ^ 31"
proof -
  have ok: "tab_ok (g_pidhash k)" using assms(1) by (simp add: pid_inv_def)
  have "p \<in> live k" using waiting_unlisted(2) [OF assms(2,3)] by (simp add: live_def)
  then have "Some p \<in> set (g_pidhash k)"
    using assms(1) get_tcb_mem [OF ok, of p] by (auto simp: pid_inv_def split: if_splits)
  then show ?thesis by (rule tab_ok_mem(2) [OF ok])
qed

text \<open>
  \<open>tids_ok\<close>: no task has one of the two largest pids, whose value would mean a free mutex.
\<close>

definition tids_ok :: "kernel \<Rightarrow> bool" where
  "tids_ok k \<longleftrightarrow> (\<forall>p \<in> live k. p < 2 ^ 31 - 2)"

lemma sem_inv_post_slow:
  assumes inv: "sem_inv k" and tids: "tids_ok k"
  shows "sem_inv (snd (nxsem_post_slow a k))"
proof -
  let ?s = "sems k a" and ?old = "semval (sems k a)"
  have st: "sem_struct k" and oth: "val_ok (sems k b)" for b using inv by (simp_all add: sem_inv_def)
  show ?thesis
  proof (cases "NXSEM_IS_MUTEX ?s")
    case True
    let ?k1 = "set_semval a (?old OR NXSEM_MBLOCKING_BIT) k"
    have "val_ok (woken_sem (sems ?k1 a))"
    proof (cases "waitlist ?s")
      case Nil
      then show ?thesis using True by (simp add: woken_sem_def val_ok_mutex)
    next
      case (Cons p rest)
      have "p < 2 ^ 31 - 2"
        using waiting_unlisted(2) [OF st, of p a] tids Cons by (auto simp: tids_ok_def live_def)
      then show ?thesis
        using True Cons holder_val_ok [of "?s\<lparr>waitlist := rest\<rparr>" p] by (simp add: woken_sem_def)
    qed
    then have "sem_inv (wake_first a ?k1)"
      using wake_first_props(1,2) [of ?k1 a] st oth by (simp add: sem_inv_def)
    moreover have "sem_inv (set_semval a v ?k1)" if "\<not> NXSEM_MBLOCKING ?old" for v
    proof -
      have "waitlist ?s = []" using val_ok_waits_mutex(1) [OF inv True] that by blast
      then have "val_ok (?s\<lparr>semval := v\<rparr>)" using True by (simp add: val_ok_mutex)
      then show ?thesis using st oth by (simp add: sem_inv_def)
    qed
    ultimately show ?thesis using True by (simp add: nxsem_post_slow_def Let_def)
  next
    case False
    note w = val_ok_waits [OF inv False]
    let ?k1 = "set_semval a (?old + 1) k"
    have "sem_inv ?k1" if "sint ?old < SEM_VALUE_MAX" "\<not> sint ?old < 0"
      using that w False by (intro sem_inv_set_semval [OF inv]) (simp add: val_ok_count sint_succ SEM_VALUE_MAX_def)
    moreover have "sem_inv (wake_first a ?k1)" if neg: "sint ?old < 0"
    proof -
      obtain p rest where wl: "waitlist ?s = p # rest" using w neg by (cases "waitlist ?s") auto
      have "sint (?old + 1) = sint ?old + 1" using neg by (intro sint_succ) simp
      then have "val_ok (woken_sem (sems ?k1 a))"
        using wl w False neg by (simp add: woken_sem_def val_ok_count)
      then show ?thesis
        using wake_first_props(1,2) [of ?k1 a] st oth by (simp add: sem_inv_def)
    qed
    ultimately show ?thesis using False inv by (simp add: nxsem_post_slow_def Let_def)
  qed
qed

lemma sem_inv_post:
  assumes inv: "sem_inv k" and tids: "tids_ok k"
    and max: "NXSEM_IS_MUTEX (sems k a) \<or> semcount (sems k a) < SEM_VALUE_MAX"
  shows "sem_inv (snd (nxsem_post a k))"
proof -
  let ?s = "sems k a" and ?old = "semval (sems k a)"
  have "val_ok (?s\<lparr>semval := NXSEM_NO_MHOLDER\<rparr>)" if "NXSEM_IS_MUTEX ?s" "\<not> NXSEM_MBLOCKING ?old"
    using val_ok_waits_mutex(1) [OF inv that(1)] that by (auto simp: val_ok_mutex)
  moreover have "val_ok (?s\<lparr>semval := ?old + 1\<rparr>)" if "\<not> NXSEM_IS_MUTEX ?s" "\<not> sint ?old < 0"
    using that max val_ok_waits [OF inv that(1)]
    by (simp add: val_ok_count semcount_def SEM_VALUE_MAX_def sint_succ)
  ultimately show ?thesis
    using sem_inv_post_slow [OF inv tids, of a] inv
    by (auto simp: nxsem_post_def Let_def intro: sem_inv_set_semval)
qed

subsection \<open>Timeouts, deletion, reset\<close>

definition aborted_sem :: "pid \<Rightarrow> sem_t \<Rightarrow> sem_t" where
  "aborted_sem p s = (if NXSEM_IS_MUTEX s then s\<lparr>waitlist := remove1 p (waitlist s)\<rparr>
     else s\<lparr>waitlist := remove1 p (waitlist s), semval := semval s + 1\<rparr>)"

lemma wait_irq_eq:
  assumes "waitobj (tcbs k p) = Some a" "\<not> (NXSEM_IS_MUTEX (sems k a) \<and> (e = EINTR \<or> e = ECANCELED))"
  shows "nxsem_wait_irq p e k = snd (nxsched_add_readytorun p
    (upd_tcb p (\<lambda>c. c\<lparr>waitobj := None, errcode := Some e\<rparr>) (upd_sem a (\<lambda>_. aborted_sem p (sems k a)) k)))"
  using assms
  by (simp add: nxsem_wait_irq_def aborted_sem_def Let_def set_semval_def upd_sem_def)

lemma val_ok_aborted:
  assumes inv: "sem_inv k" and p: "p \<in> set (waitlist (sems k a))"
  shows "val_ok (aborted_sem p (sems k a))"
proof (cases "NXSEM_IS_MUTEX (sems k a)")
  case True
  have "remove1 p (waitlist (sems k a)) \<noteq> [] \<Longrightarrow> waitlist (sems k a) \<noteq> []" using p by auto
  with val_ok_waits_mutex [OF inv True] True show ?thesis
    by (auto simp: aborted_sem_def val_ok_mutex)
next
  case False
  note w = val_ok_waits [OF inv False]
  have len: "0 < length (waitlist (sems k a))" using p by (cases "waitlist (sems k a)") auto
  then have "sint (semval (sems k a) + 1) = sint (semval (sems k a)) + 1"
  proof (intro sint_succ)
    have "sint (semval (sems k a)) < 0" using w len by linarith
    then show "sint (semval (sems k a)) < 2 ^ 31 - 1" by simp
  qed
  with w len p False show ?thesis by (simp add: aborted_sem_def val_ok_count length_remove1)
qed

lemma wait_irq_props:
  assumes inv: "sem_inv k" and p: "p \<in> set (waitlist (sems k a))"
    and e: "\<not> (NXSEM_IS_MUTEX (sems k a) \<and> (e = EINTR \<or> e = ECANCELED))"
  shows "sem_inv (nxsem_wait_irq p e k)"
    "sems (nxsem_wait_irq p e k) = (sems k)(a := aborted_sem p (sems k a))"
    "errcode (tcbs (nxsem_wait_irq p e k) p) = Some e"
proof -
  have st: "sem_struct k" using inv by (simp add: sem_inv_def)
  let ?f = "\<lambda>c. c\<lparr>waitobj := None, errcode := Some e\<rparr>" and ?g = "\<lambda>_. aborted_sem p (sems k a)"
  have eq: "nxsem_wait_irq p e k = snd (nxsched_add_readytorun p (upd_tcb p ?f (upd_sem a ?g k)))"
    by (rule wait_irq_eq [OF waiting_unlisted(3) [OF st p] e])
  have "waitlist (aborted_sem p (sems k a)) = remove1 p (waitlist (sems k a))"
    by (simp add: aborted_sem_def)
  note mk = struct_make_ready [OF st p, of ?f ?g, OF _ _ _ this refl]
  show sems': "sems (nxsem_wait_irq p e k) = (sems k)(a := aborted_sem p (sems k a))"
    unfolding eq using mk(2) by simp
  have "sem_struct (nxsem_wait_irq p e k)" unfolding eq using mk(1) by simp
  with inv val_ok_aborted [OF inv p] show "sem_inv (nxsem_wait_irq p e k)"
    by (simp add: sem_inv_def sems')
  show "errcode (tcbs (nxsem_wait_irq p e k) p) = Some e"
    unfolding eq using frameD(10) [OF frame_add_readytorun] by simp
qed

lemma sem_inv_timeout:
  assumes inv: "sem_inv k" and w: "waitobj (tcbs k p) \<noteq> None"
  shows "sem_inv (nxsem_timeout p k)"
proof (cases "task_state (tcbs k p) = TSTATE_WAIT_SEM")
  case True
  obtain a where "waitobj (tcbs k p) = Some a" using w by auto
  then have "p \<in> set (waitlist (sems k a))"
    using inv True by (simp add: sem_inv_def sem_struct_def waits_ok_def)
  with True show ?thesis by (simp add: nxsem_timeout_def wait_irq_props(1) [OF inv])
qed (simp add: nxsem_timeout_def inv)

lemma sem_inv_recover:
  assumes inv: "sem_inv k" and st: "task_state (tcbs k p) = TSTATE_WAIT_SEM" "waitobj (tcbs k p) = Some a"
  shows "sem_inv (set_state p TSTATE_TASK_INVALID (nxsem_recover p k))"
proof -
  let ?s = "sems k a" and ?wl = "remove1 p (waitlist (sems k a))"
  let ?k' = "nxsem_recover p k"
  define s' where "s' = (if NXSEM_IS_MUTEX ?s
    then ?s\<lparr>waitlist := ?wl, semval := if ?wl = [] then semval ?s AND NOT NXSEM_MBLOCKING_BIT else semval ?s\<rparr>
    else ?s\<lparr>waitlist := ?wl, semval := semval ?s + 1\<rparr>)"
  have eq: "?k' = upd_sem a (\<lambda>_. s') k"
    using st by (simp add: nxsem_recover_def s'_def Let_def set_semval_def upd_sem_def)
  have struct: "sem_struct k" using inv by (simp add: sem_inv_def)
  have p: "p \<in> set (waitlist ?s)" using struct st by (simp add: sem_struct_def waits_ok_def)
  have wl': "waitlist s' = ?wl" by (simp add: s'_def)
  have d: "distinct (waitlist (sems k b))" "by_prio k (waitlist (sems k b))" for b
    using struct by (simp_all add: sem_struct_def)
  have "val_ok s'"
  proof (cases "NXSEM_IS_MUTEX ?s")
    case True
    then show ?thesis
      using val_ok_aborted [OF inv p] by (auto simp: s'_def aborted_sem_def val_ok_mutex)
  next
    case False
    then show ?thesis using val_ok_aborted [OF inv p] by (simp add: s'_def aborted_sem_def)
  qed
  moreover have "sched_inv (set_state p TSTATE_TASK_INVALID ?k')"
    using struct waiting_unlisted(1) [OF struct p] unfolding eq sem_struct_def
    by (intro sched_inv_set_unlisted) simp_all
  moreover have "waits_ok (set_state p TSTATE_TASK_INVALID ?k')"
  proof -
    have "q \<in> set (waitlist (((sems k)(a := s')) b)) \<longleftrightarrow> q \<noteq> p \<and> q \<in> set (waitlist (sems k b))" for q b
      using st d struct wl' by (auto simp: sem_struct_def waits_ok_def)
    then show ?thesis
      using struct by (auto simp: waits_ok_def eq sem_struct_def set_state_def)
  qed
  ultimately show ?thesis
    using inv d wl' by (simp add: sem_inv_def sem_struct_def eq by_prio_remove1)
qed

lemma sem_inv_destroy:
  assumes inv: "sem_inv k"
  shows "sem_inv (nxsem_destroy a k)"
proof (cases "NXSEM_IS_MUTEX (sems k a)")
  case True
  have "waitlist (sems k a) = [] \<or> NXSEM_MBLOCKING (semval (sems k a))"
    using val_ok_waits_mutex(1) [OF inv True] by blast
  with inv True show ?thesis
    by (auto simp: nxsem_destroy_def Let_def val_ok_mutex intro!: sem_inv_set_semval)
next
  case False
  with inv val_ok_waits [OF inv False] show ?thesis
    by (auto simp: nxsem_destroy_def Let_def val_ok_count intro!: sem_inv_set_semval)
qed

lemma sem_inv_init:
  assumes inv: "sem_inv k" and empty: "waitlist (sems k a) = []" and v: "0 \<le> sint v"
  shows "sem_inv (nxsem_init a v k)"
proof -
  have "\<not> NXSEM_IS_MUTEX \<lparr>semval = v, flags = 0, waitlist = []\<rparr>" by (simp add: NXSEM_IS_MUTEX_def)
  then have "val_ok \<lparr>semval = v, flags = 0, waitlist = []\<rparr>" using v by (simp add: val_ok_count)
  moreover have "waitlist (sems (nxsem_init a v k) b) = waitlist (sems k b)" for b
    using empty by (simp add: nxsem_init_def)
  then have "waits_ok (nxsem_init a v k) = waits_ok k"
    unfolding waits_ok_def by (simp only: nxsem_init_def upd_sem_sel)
  ultimately show ?thesis
    using inv by (auto simp: sem_inv_def sem_struct_def nxsem_init_def)
qed

text \<open>Posting keeps the set of live tasks and the pid table.\<close>

lemma within_set_semval: "within S T k \<Longrightarrow> within S T (set_semval a v k)"
  unfolding set_semval_def by (rule within_lists(4))

lemma within_wake_first:
  assumes "within S T k" "\<forall>p \<in> set (waitlist (sems k a)). p \<in> S"
  shows "within S T (wake_first a k)"
proof (cases "waitlist (sems k a)")
  case Nil
  then show ?thesis using assms(1) by (simp add: wake_first_def)
next
  case (Cons p rest)
  with assms show ?thesis
    unfolding wake_first_eq [OF Cons]
    by (intro within_add_readytorun within_upd_tcb within_lists(4)) simp_all
qed

lemma waiters_live: "sem_struct k \<Longrightarrow> p \<in> set (waitlist (sems k a)) \<Longrightarrow> p \<in> live k"
  using waiting_unlisted(2) by (simp add: live_def)

lemma within_post:
  assumes st: "sem_struct k" and w: "within (live k) T k"
  shows "within (live k) T (snd (nxsem_post a k))"
proof -
  have "within (live k) T (wake_first a (set_semval a v k))" for v
    using within_wake_first [OF within_set_semval [OF w], of a v a] waiters_live [OF st] by simp
  then show ?thesis
    using w unfolding nxsem_post_def nxsem_post_slow_def Let_def
    by (auto intro!: within_set_semval)
qed

lemma live_post_tids:
  assumes "sem_struct k" "tids_ok k"
  shows "tids_ok (snd (nxsem_post a k))" "pid_inv k \<Longrightarrow> pid_inv (snd (nxsem_post a k))"
proof -
  have core: "sched_core k" using assms(1) by (simp add: sem_struct_def sched_inv_def)
  have w: "within (live k) (g_pidhash k, g_lastpid k) (snd (nxsem_post a k))"
    using assms(1) within_self [OF core] by (rule within_post)
  then show "tids_ok (snd (nxsem_post a k))" using assms(2) by (auto simp: tids_ok_def within_def)
  show "pid_inv k \<Longrightarrow> pid_inv (snd (nxsem_post a k))" using w by (rule pid_inv_within [rotated])
qed

lemma sem_inv_reset_sem:
  assumes "sem_inv k" "tids_ok k" "\<not> NXSEM_IS_MUTEX (sems k a)" "count < 2 ^ 15"
  shows "sem_inv (reset_sem a count k)"
  using assms
proof (induction a count k rule: reset_sem.induct)
  case (1 a count k)
  have st: "sem_struct k" using 1(2) by (simp add: sem_inv_def)
  show ?case
  proof (cases "semcount (sems k a) < 0")
    case True
    show ?thesis
    proof (cases "0 < count")
      case c: True
      have "sem_inv (snd (nxsem_post a k))"
        using True by (intro sem_inv_post [OF 1(2,3)]) (simp add: SEM_VALUE_MAX_def)
      moreover have "\<not> NXSEM_IS_MUTEX (sems (snd (nxsem_post a k)) a)"
        using 1(4) True wake_first_props(2) [of "set_semval a (semval (sems k a) + 1) k" a] st
        by (simp add: nxsem_post_def nxsem_post_slow_def semcount_def Let_def woken_sem_def split: list.splits)
      ultimately have "sem_inv (reset_sem a (count - 1) (snd (nxsem_post a k)))"
        using 1(1) True c live_post_tids(1) [OF st 1(3)] 1(5) by simp
      then show ?thesis using True c by (simp add: reset_sem.simps [of a count k])
    next
      case False
      then show ?thesis using True 1(2) by (simp add: reset_sem.simps)
    qed
  next
    case False
    have "sint (of_nat count :: u32) = int count"
      using 1(5) by (simp add: signed_of_nat signed_take_bit_int_eq_self)
    then have "val_ok ((sems k a)\<lparr>semval := of_nat count\<rparr>)"
      using val_ok_waits [OF 1(2,4)] False 1(4) by (simp add: val_ok_count semcount_def)
    then have "sem_inv (set_semval a (of_nat count) k)" by (rule sem_inv_set_semval [OF 1(2)])
    then show ?thesis using False by (simp add: reset_sem.simps)
  qed
qed

subsection \<open>Scheduling steps\<close>

definition sem_ok :: "kernel \<Rightarrow> bool" where
  "sem_ok k \<longleftrightarrow> waits_ok k \<and> (\<forall>a. distinct (waitlist (sems k a)) \<and> by_prio k (waitlist (sems k a))) \<and>
     (\<forall>a. val_ok (sems k a))"

lemma sem_inv_alt: "sem_inv k \<longleftrightarrow> sched_inv k \<and> sem_ok k"
  by (auto simp: sem_inv_def sem_struct_def sem_ok_def)

lemma sem_ok_cong:
  assumes "sem_ok k" "sems k' = sems k" "prio k' = prio k"
    and "\<And>q. task_state (tcbs k' q) = TSTATE_WAIT_SEM \<longleftrightarrow> task_state (tcbs k q) = TSTATE_WAIT_SEM"
    and "\<And>q. task_state (tcbs k q) = TSTATE_WAIT_SEM \<Longrightarrow> waitobj (tcbs k' q) = waitobj (tcbs k q)"
  shows "sem_ok k'"
proof -
  have "waits_ok k'" using assms(1,2,4,5) unfolding sem_ok_def waits_ok_def by metis
  then show ?thesis using assms(1,2) by_prio_cong [OF assms(3)] by (simp add: sem_ok_def)
qed

lemma sem_ok_frame:
  assumes "sem_ok k" "frame S k k'"
    and "\<And>q. q \<in> S \<Longrightarrow> task_state (tcbs k q) \<noteq> TSTATE_WAIT_SEM"
    and "\<And>q. q \<in> S \<Longrightarrow> task_state (tcbs k' q) \<noteq> TSTATE_WAIT_SEM"
  shows "sem_ok k'"
  using assms(1) frameD(1,12) [OF assms(2)]
proof (rule sem_ok_cong)
  show "task_state (tcbs k' q) = TSTATE_WAIT_SEM \<longleftrightarrow> task_state (tcbs k q) = TSTATE_WAIT_SEM" for q
    using assms(3,4) frameD(6) [OF assms(2), of q] by (cases "q \<in> S") auto
  show "waitobj (tcbs k' q) = waitobj (tcbs k q)" for q by (rule frameD(9) [OF assms(2)])
qed

lemma sem_ok_upd_tcb:
  assumes "sem_ok k" "\<And>c. sched_priority (f c) = sched_priority c"
    "\<And>c. task_state (f c) = task_state c" "\<And>c. waitobj (f c) = waitobj c"
  shows "sem_ok (upd_tcb p f k)"
  using assms(1) by (rule sem_ok_cong) (auto simp: assms prio_def fun_eq_iff)

lemma sem_ok_merge:
  assumes "sem_ok k" "sched_core k"
  shows "sem_ok (snd (nxsched_merge_pending k))"
proof (rule sem_ok_frame [OF assms(1) frame_merge_pending])
  have "sched_core (snd (nxsched_merge_pending k))"
    using sched_inv_merge_pending [OF assms(2)] by (simp add: sched_inv_def)
  then show "task_state (tcbs (snd (nxsched_merge_pending k)) q) \<noteq> TSTATE_WAIT_SEM"
    if "q \<in> runnable k" for q using that runnable_not_waiting by simp
qed (use assms(2) runnable_not_waiting in auto)

lemma sem_inv_lock: "sem_inv k \<Longrightarrow> sem_inv (sched_lock k)"
  using sched_inv_lock [of k] by (auto simp: sem_inv_alt sched_lock_def intro: sem_ok_upd_tcb)

lemma sem_inv_unlock:
  assumes inv: "sem_inv k"
  shows "sem_inv (sched_unlock k)"
proof -
  let ?k0 = "upd_tcb (this_task k) (\<lambda>c. c\<lparr>lockcount := 0\<rparr>) k"
  have "sched_core k" using inv by (simp add: sem_inv_alt sched_inv_def)
  then have "sched_core ?k0" by (rule sched_core_lists_cong) auto
  moreover have "sem_ok ?k0" using inv by (auto simp: sem_inv_alt intro: sem_ok_upd_tcb)
  ultimately have "sem_ok (snd (nxsched_merge_pending ?k0))" by (rule sem_ok_merge [rotated])
  then have "sem_ok (sched_unlock k)"
    using inv unfolding sched_unlock_def Let_def by (auto simp: sem_inv_alt intro: sem_ok_upd_tcb)
  with inv sched_inv_unlock show ?thesis by (simp add: sem_inv_alt)
qed

lemma sem_inv_reset_mutex:
  assumes inv: "sem_inv k" and tids: "tids_ok k" and m: "NXSEM_IS_MUTEX (sems k a)"
  shows "sem_inv (reset_mutex a k)"
proof -
  let ?k1 = "set_semval a (NXSEM_MRESET OR NXSEM_MBLOCKING_BIT) k"
  have "sem_inv (set_semval a NXSEM_MRESET ?k1)" if "waitlist (sems k a) = []"
    using inv m that by (auto simp: sem_inv_def val_ok_mutex)
  moreover have "sem_inv (snd (nxsem_post a ?k1))" if wl: "waitlist (sems k a) \<noteq> []"
  proof -
    obtain p rest where pr: "waitlist (sems k a) = p # rest" using wl by (cases "waitlist (sems k a)") auto
    let ?k2 = "set_semval a ((NXSEM_MRESET OR NXSEM_MBLOCKING_BIT) OR NXSEM_MBLOCKING_BIT) ?k1"
    have st: "sem_struct ?k2" using inv by (simp add: sem_inv_def)
    have post: "snd (nxsem_post a ?k1) = wake_first a ?k2"
      using m by (simp add: nxsem_post_def nxsem_post_slow_def Let_def)
    have "p < 2 ^ 31 - 2"
      using inv tids pr waiters_live [of k p a] by (auto simp: sem_inv_def tids_ok_def)
    then have "val_ok (woken_sem (sems ?k2 a))"
      using m pr holder_val_ok [of "(sems k a)\<lparr>waitlist := rest\<rparr>" p] by (simp add: woken_sem_def)
    then show ?thesis
      using wake_first_props(1,2) [OF st, of a] inv by (simp add: post sem_inv_def)
  qed
  ultimately show ?thesis by (simp add: reset_mutex_def Let_def)
qed

lemma tids_ok_lock: "tids_ok k \<Longrightarrow> tids_ok (sched_lock k)"
  by (auto simp: tids_ok_def live_def sched_lock_def)

lemma sem_inv_reset:
  assumes "sem_inv k" "tids_ok k" "count < 2 ^ 15"
  shows "sem_inv (nxsem_reset a count k)"
  using sem_inv_reset_mutex [of "sched_lock k" a] sem_inv_reset_sem [of "sched_lock k" a count]
    assms sem_inv_lock [of k] tids_ok_lock [of k]
  by (auto simp: nxsem_reset_def Let_def intro: sem_inv_unlock)

section \<open>Properties of semaphores\<close>

lemma block_switches:
  assumes "sem_struct k" "this_task k \<noteq> idle_pid"
  shows "this_task (block_on_sem a k) \<noteq> this_task k"
proof
  assume eq: "this_task (block_on_sem a k) = this_task k"
  have core: "sched_core (block_on_sem a k)"
    using struct_block(1) [OF assms, of a] by (simp add: sem_struct_def sched_inv_def)
  have "task_state (tcbs (block_on_sem a k) (this_task (block_on_sem a k))) = TSTATE_TASK_RUNNING"
    using task_state_ready(1) [OF core] by simp
  with struct_block(3) [OF assms, of a] eq show False by simp
qed

lemma wait_counting_cases:
  assumes inv: "sem_inv k" and m: "\<not> NXSEM_IS_MUTEX (sems k a)"
    and sig: "\<not> sigpending (tcbs k (this_task k))"
  shows "nxsem_wait a k =
    (let k1 = set_semval a (semval (sems k a) - 1) k
     in if 0 < semcount (sems k a) then (Returned OK, k1) else (Blocked, block_on_sem a k1))"
  using m sig by (simp add: nxsem_wait_def nxsem_wait_slow_def semcount_def Let_def)


lemma post_counting:
  assumes "sem_inv k" "tids_ok k" "\<not> NXSEM_IS_MUTEX (sems k a)" "semcount (sems k a) < SEM_VALUE_MAX"
    "nxsem_post a k = (r, k')"
  shows "sem_inv k'" "r = OK" "sems k' = (sems k)(a := sems k' a)" "flags (sems k' a) = flags (sems k a)"
    "semcount (sems k' a) = semcount (sems k a) + 1" "waitlist (sems k' a) = tl (waitlist (sems k a))"
    "runnable k' = runnable k \<union> set (take 1 (waitlist (sems k a)))"
proof -
  have st: "sem_struct k" using assms(1) by (simp add: sem_inv_def)
  let ?old = "semval (sems k a)" and ?k1 = "set_semval a (semval (sems k a) + 1) k"
  note w = val_ok_waits [OF assms(1,3)]
  show "sem_inv k'" using sem_inv_post [OF assms(1,2), of a] assms(3,4,5) by simp
  have inc: "sint (?old + 1) = sint ?old + 1"
    using assms(4) by (intro sint_succ) (simp add: semcount_def SEM_VALUE_MAX_def)
  have "r = OK \<and> sems k' = (sems k)(a := sems k' a) \<and> flags (sems k' a) = flags (sems k a) \<and>
    semcount (sems k' a) = semcount (sems k a) + 1 \<and> waitlist (sems k' a) = tl (waitlist (sems k a)) \<and>
    runnable k' = runnable k \<union> set (take 1 (waitlist (sems k a)))"
  proof (cases "waitlist (sems k a)")
    case Nil
    then have "\<not> sint ?old < 0" using w by simp
    then have "r = OK" "k' = ?k1" using assms(3,5) by (auto simp: nxsem_post_def Let_def)
    with Nil inc show ?thesis by (simp add: semcount_def set_semval_def upd_sem_def runnable_def)
  next
    case (Cons p rest)
    then have "sint ?old < 0" using w by (cases "sint ?old < 0") auto
    then have k': "r = OK" "k' = wake_first a ?k1"
      using assms(3,4,5) by (auto simp: nxsem_post_def nxsem_post_slow_def Let_def semcount_def)
    have "waitlist (sems ?k1 a) = p # rest" using Cons by simp
    note wf = wake_first_eq [OF this] wake_first_props(2) [of ?k1 a]
    have "runnable k' = insert p (runnable k)" unfolding k' wf(1) by (simp add: set_semval_def)
    then show ?thesis
      using Cons inc wf(2) st assms(3) k' by (simp add: semcount_def woken_sem_def fun_eq_iff)
  qed
  then show "r = OK" "sems k' = (sems k)(a := sems k' a)" "flags (sems k' a) = flags (sems k a)"
    "semcount (sems k' a) = semcount (sems k a) + 1" "waitlist (sems k' a) = tl (waitlist (sems k a))"
    "runnable k' = runnable k \<union> set (take 1 (waitlist (sems k a)))" by blast+
qed

text \<open>
  C9: Posting a counting semaphore below its maximum keeps the invariant and adds one to the
  count.  If tasks wait, the first of the wait list is taken out and made ready, and no waiter has
  a higher priority than it.
\<close>

theorem sem_post_counting:
  assumes "sem_inv k" "tids_ok k" "\<not> NXSEM_IS_MUTEX (sems k a)" "semcount (sems k a) < SEM_VALUE_MAX"
    "nxsem_post a k = (r, k')"
  shows "sem_inv k' \<and> r = OK \<and> semcount (sems k' a) = semcount (sems k a) + 1 \<and>
    (case waitlist (sems k a) of
       [] \<Rightarrow> waitlist (sems k' a) = []
     | p # rest \<Rightarrow> waitlist (sems k' a) = rest \<and> p \<in> runnable k' \<and> (\<forall>q \<in> set rest. prio k q \<le> prio k p))"
proof -
  have "by_prio k (waitlist (sems k a))" using assms(1) by (simp add: sem_inv_def sem_struct_def)
  then show ?thesis using post_counting [OF assms] by (cases "waitlist (sems k a)") simp_all
qed

text \<open>
  The lock-free and the critical-section variant of the non-blocking wait agree on every
  counting semaphore, and on every mutex whose word is not one of the reset values.
\<close>

theorem trywait_variants_agree:
  assumes "NXSEM_IS_MUTEX (sems k a) \<Longrightarrow>
    NXSEM_MACQUIRED (semval (sems k a)) \<or> semval (sems k a) = NXSEM_NO_MHOLDER"
  shows "nxsem_trywait a k = nxsem_trywait_slow a k"
  using assms by (auto simp: nxsem_trywait_def nxsem_trywait_slow_def Let_def)

text \<open>
  C40: Posting at the maximal count: the slow path refuses with an overflow error, but the fast path
  that \<open>nxsem_post\<close> takes wraps the count to the most negative value and reports success, so the
  semaphore then claims to have waiters it does not have.
\<close>

theorem post_at_maximum_wraps:
  assumes "\<not> NXSEM_IS_MUTEX (sems k a)" "semcount (sems k a) = SEM_VALUE_MAX"
  shows "fst (nxsem_post_slow a k) = Inl EOVERFLOW \<and> fst (nxsem_post a k) = OK \<and>
    semcount (sems (snd (nxsem_post a k)) a) = - (2 ^ 31)"
proof -
  have v: "sint (semval (sems k a)) = 2 ^ 31 - 1" using assms(2) by (simp add: semcount_def SEM_VALUE_MAX_def)
  then have "sint (semval (sems k a) + 1) = - (2 ^ 31)" by (simp add: sint_word_ariths)
  with assms v show ?thesis
    by (simp add: nxsem_post_slow_def nxsem_post_def Let_def semcount_def SEM_VALUE_MAX_def)
qed

text \<open>
  Resetting a mutex nobody waits for leaves it free for a caller that would block, but the
  non-blocking wait that applications use still reports that it is taken.
\<close>

theorem reset_mutex_then_trywait:
  assumes "NXSEM_IS_MUTEX (sems k a)" "waitlist (sems k a) = []" "k' = reset_mutex a k"
  shows "fst (nxsem_trywait a k') = Inl EAGAIN \<and> fst (nxsem_trywait_slow a k') = OK"
  using assms
  by (simp add: reset_mutex_def nxsem_trywait_def nxsem_trywait_slow_def Let_def
      NXSEM_MRESET_def NXSEM_NO_MHOLDER_def NXSEM_MACQUIRED_def)

subsection \<open>Instances\<close>

lemma demo_sem_inv: "sem_inv demo_kernel"
proof -
  have "\<not> NXSEM_IS_MUTEX \<lparr>semval = 0, flags = 0, waitlist = []\<rparr>" by (simp add: NXSEM_IS_MUTEX_def)
  then show ?thesis
    using demo_inv by (simp add: sem_inv_alt sem_ok_def waits_ok_def val_ok_count demo_kernel_def demo_tcb_def)
qed

lemma demo_live: "live demo_kernel = {0, 1, 2}"
  by (auto simp: live_def demo_kernel_def demo_tcb_def split: if_splits)

lemma demo_pid_inv: "pid_inv demo_kernel"
proof -
  have "tab_ok (map Some [0, 1, 2, 3])"
    unfolding tab_ok_def
  proof (intro conjI allI impI)
    show "\<exists>j. length (map Some [0, 1, 2, 3 :: pid]) = 2 ^ j \<and> j < 32" by (rule exI [of _ 2]) simp
    fix i p :: pid
    assume i: "i < length (map Some [0, 1, 2, 3 :: pid])" "map Some [0, 1, 2, 3] ! i = Some p"
    then have "i = 0 \<or> i = 1 \<or> i = 2 \<or> i = 3" by auto
    with i(2) have "p = i" "i < 4" by auto
    moreover have len: "length (map Some [0, 1, 2, 3 :: pid]) = 2 ^ 2" by simp
    ultimately show "PIDHASH (length (map Some [0, 1, 2, 3 :: pid])) p = i" "p < 2 ^ 31"
      unfolding len PIDHASH_mod by simp_all
  qed (simp add: idle_pid_def)
  then have tab: "tab_ok (g_pidhash demo_kernel)" by (simp add: demo_kernel_def)
  have "g_pidhash demo_kernel = map Some [0, 1, 2, 3]" "g_lastpid demo_kernel = 3"
    by (simp_all add: demo_kernel_def)
  with tab get_tcb_mem [OF tab] demo_live show ?thesis by (simp add: pid_inv_def)
qed

lemma demo_count: "\<not> NXSEM_IS_MUTEX (sems demo_kernel a)" "semcount (sems demo_kernel a) = 0"
  "waitlist (sems demo_kernel a) = []" "this_task demo_kernel = 1" "\<not> sigpending (tcbs demo_kernel 1)"
  by (simp_all add: demo_kernel_def NXSEM_IS_MUTEX_def semcount_def this_task_def demo_tcb_def)


theorem sem_post_counting_witness:
  "fst (nxsem_post 7 demo_kernel) = OK \<and> semcount (sems (snd (nxsem_post 7 demo_kernel)) 7) = 1"
proof -
  obtain r k' where eq: "nxsem_post 7 demo_kernel = (r, k')" by fastforce
  have "tids_ok demo_kernel" by (simp add: tids_ok_def demo_live)
  moreover have "semcount (sems demo_kernel 7) < SEM_VALUE_MAX" by (simp add: demo_count SEM_VALUE_MAX_def)
  ultimately show ?thesis
    using sem_post_counting [OF demo_sem_inv _ demo_count(1) _ eq] by (simp add: eq demo_count)
qed

theorem trywait_variants_agree_witness:
  "nxsem_trywait 7 demo_kernel = nxsem_trywait_slow 7 demo_kernel"
  using trywait_variants_agree [of demo_kernel 7] demo_count(1) by blast

definition demo_full :: kernel where
  "demo_full = set_semval 7 0x7fffffff demo_kernel"

theorem post_at_maximum_wraps_witness:
  "fst (nxsem_post 7 demo_full) = OK \<and> semcount (sems (snd (nxsem_post 7 demo_full)) 7) = - (2 ^ 31)"
  using post_at_maximum_wraps [of demo_full 7] demo_count(1)
  by (simp add: demo_full_def semcount_def SEM_VALUE_MAX_def)

definition demo_mutex :: kernel where
  "demo_mutex = upd_sem 7 (\<lambda>_. \<lparr>semval = 1, flags = SEM_TYPE_MUTEX, waitlist = []\<rparr>) demo_kernel"

theorem reset_mutex_then_trywait_witness:
  "fst (nxsem_trywait 7 (reset_mutex 7 demo_mutex)) = Inl EAGAIN"
  using reset_mutex_then_trywait [of demo_mutex 7 "reset_mutex 7 demo_mutex"]
  by (simp add: demo_mutex_def NXSEM_IS_MUTEX_def SEM_TYPE_MUTEX_def)

end
