(* ===== verification/Lock_Interface.thy ===== *)
theory Lock_Interface
  imports NxPrelude
begin

text \<open>
  What a client of a lock relies on: at most one task is inside, in every state the lock's steps
  lead to.  From this follows that whoever enters finds the protected data at rest and whoever
  leaves is the last one who touched them.
\<close>

locale lock_interface =
  fixes lstep :: "'m \<Rightarrow> 'm \<Rightarrow> bool"
    and inside :: "'m \<Rightarrow> pid \<Rightarrow> bool"
    and linv :: "'m \<Rightarrow> bool"
  assumes linv_step: "linv m \<Longrightarrow> lstep m m' \<Longrightarrow> linv m'"
    and exclusive: "linv m \<Longrightarrow> inside m p \<Longrightarrow> inside m q \<Longrightarrow> p = q"
begin

lemma linv_steps: "lstep\<^sup>*\<^sup>* m m' \<Longrightarrow> linv m \<Longrightarrow> linv m'"
  by (induction rule: rtranclp_induct) (auto dest: linv_step)

lemma alone: "linv m \<Longrightarrow> inside m p \<Longrightarrow> inside m q \<longleftrightarrow> q = p"
  using exclusive by blast

lemma acquired_free:
  assumes "linv m" "lstep m m'" "inside m' p" "\<not> inside m p" "\<And>q. q \<noteq> p \<Longrightarrow> inside m' q = inside m q"
  shows "\<not> inside m q"
  using assms exclusive [OF linv_step [OF assms(1,2)], of p q] by (cases "q = p") auto

lemma released_free:
  assumes "linv m" "inside m p" "\<not> inside m' p" "\<And>q. q \<noteq> p \<Longrightarrow> inside m' q = inside m q"
  shows "\<not> inside m' q"
  using assms alone [OF assms(1,2), of q] by (cases "q = p") auto

end

end
