(* ===== verification/NxMutex.thy ===== *)
theory NxMutex
  imports NxSem Lock_Interface
begin

text \<open>
  Mutexes and recursive mutexes (\<^verbatim>\<open>nuttx/include/nuttx/mutex.h\<close>,
  \<^verbatim>\<open>nuttx/libs/libc/misc/lib_mutex.c\<close>) on top of semaphores, and the protocol by which tasks use
  a mutex: any interleaving of locking, waking, timing out and unlocking gives mutual exclusion.
\<close>

section \<open>Mutexes\<close>

text \<open>\<^verbatim>\<open>nxsem_set_protocol\<close> without priority inheritance.\<close>

definition nxsem_set_protocol :: "nat \<Rightarrow> u8 \<Rightarrow> kernel \<Rightarrow> unit res \<times> kernel" where
  "nxsem_set_protocol a protocol k =
     (let prio_bits = protocol AND 3
      in if prio_bits = 0 then (OK, upd_sem a (\<lambda>s. s\<lparr>flags := protocol\<rparr>) k)
         else if prio_bits = 1 \<or> prio_bits = 2 then (Inl ENOTSUP, k)
         else (Inl EINVAL, k))"

definition nxmutex_init :: "nat \<Rightarrow> kernel \<Rightarrow> kernel" where
  "nxmutex_init a k =
     snd (nxsem_set_protocol a SEM_TYPE_MUTEX (nxsem_init a NXSEM_NO_MHOLDER k))"

text \<open>\<^verbatim>\<open>nxmutex_get_holder\<close>, with \<open>None\<close> for its value -1.\<close>

definition nxmutex_get_holder :: "nat \<Rightarrow> kernel \<Rightarrow> pid option" where
  "nxmutex_get_holder a k =
     (let mholder = semval (sems k a) AND NOT NXSEM_MBLOCKING_BIT
      in if NXSEM_MACQUIRED mholder then Some (unat mholder) else None)"

definition nxmutex_is_hold :: "nat \<Rightarrow> kernel \<Rightarrow> bool" where
  "nxmutex_is_hold a k \<longleftrightarrow> nxmutex_get_holder a k = Some (this_task k)"

definition nxmutex_is_locked :: "nat \<Rightarrow> kernel \<Rightarrow> bool" where
  "nxmutex_is_locked a k \<longleftrightarrow> NXSEM_MACQUIRED (semval (sems k a))"

definition nxmutex_lock :: "nat \<Rightarrow> kernel \<Rightarrow> wait_result \<times> kernel" where
  "nxmutex_lock a k = nxsem_wait a k"

definition nxmutex_trylock :: "nat \<Rightarrow> kernel \<Rightarrow> unit res \<times> kernel" where
  "nxmutex_trylock a k = nxsem_trywait a k"

definition nxmutex_unlock :: "nat \<Rightarrow> kernel \<Rightarrow> unit res \<times> kernel" where
  "nxmutex_unlock a k = nxsem_post a k"

definition nxmutex_ticklock :: "nat \<Rightarrow> u32 \<Rightarrow> kernel \<Rightarrow> wait_result \<times> kernel" where
  "nxmutex_ticklock a delay k =
     (if delay \<noteq> 0 then nxsem_tickwait a delay k
      else (case nxsem_trywait a k of (r, k') \<Rightarrow> (Returned r, k')))"

definition nxmutex_reset :: "nat \<Rightarrow> kernel \<Rightarrow> kernel" where
  "nxmutex_reset a k = nxsem_reset a 1 k"

definition nxmutex_destroy :: "nat \<Rightarrow> kernel \<Rightarrow> kernel" where
  "nxmutex_destroy a k = nxsem_destroy a k"

definition nxmutex_breaklock :: "nat \<Rightarrow> kernel \<Rightarrow> (unit res \<times> bool) \<times> kernel" where
  "nxmutex_breaklock a k =
     (case nxmutex_unlock a k of (r, k') \<Rightarrow> ((r, case r of Inr _ \<Rightarrow> True | Inl _ \<Rightarrow> False), k'))"

definition nxmutex_restorelock :: "nat \<Rightarrow> bool \<Rightarrow> kernel \<Rightarrow> wait_result \<times> kernel" where
  "nxmutex_restorelock a locked k = (if locked then nxmutex_lock a k else (Returned OK, k))"

section \<open>Recursive mutexes\<close>

record rmutex_s =
  rmutex :: nat
  rcount :: u32

definition nxrmutex_init :: "rmutex_s \<Rightarrow> kernel \<Rightarrow> rmutex_s \<times> kernel" where
  "nxrmutex_init m k = (m\<lparr>rcount := 0\<rparr>, nxmutex_init (rmutex m) k)"

text \<open>
  The end of \<^verbatim>\<open>nxrmutex_lock\<close> and its variants: a lock that was obtained is counted.  A call
  that blocks runs it when \<open>nxsem_wait_resume\<close> has returned.
\<close>

definition rmutex_count_lock :: "unit res \<Rightarrow> rmutex_s \<Rightarrow> rmutex_s" where
  "rmutex_count_lock r m = (case r of Inr _ \<Rightarrow> m\<lparr>rcount := rcount m + 1\<rparr> | Inl _ \<Rightarrow> m)"

definition rmutex_count_result :: "wait_result \<times> kernel \<Rightarrow> rmutex_s \<Rightarrow> wait_result \<times> rmutex_s \<times> kernel" where
  "rmutex_count_result w m =
     (case w of
        (Returned r, k) \<Rightarrow> (Returned r, rmutex_count_lock r m, k)
      | (Blocked, k) \<Rightarrow> (Blocked, m, k))"

definition nxrmutex_lock :: "rmutex_s \<Rightarrow> kernel \<Rightarrow> wait_result \<times> rmutex_s \<times> kernel" where
  "nxrmutex_lock m k =
     rmutex_count_result
       (if \<not> nxmutex_is_hold (rmutex m) k then nxmutex_lock (rmutex m) k else (Returned OK, k)) m"

definition nxrmutex_trylock :: "rmutex_s \<Rightarrow> kernel \<Rightarrow> unit res \<times> rmutex_s \<times> kernel" where
  "nxrmutex_trylock m k =
     (let (r, k') = (if \<not> nxmutex_is_hold (rmutex m) k then nxmutex_trylock (rmutex m) k else (OK, k))
      in (r, rmutex_count_lock r m, k'))"

definition nxrmutex_ticklock :: "rmutex_s \<Rightarrow> u32 \<Rightarrow> kernel \<Rightarrow> wait_result \<times> rmutex_s \<times> kernel" where
  "nxrmutex_ticklock m delay k =
     rmutex_count_result
       (if \<not> nxmutex_is_hold (rmutex m) k then nxmutex_ticklock (rmutex m) delay k
        else (Returned OK, k)) m"

definition nxrmutex_unlock :: "rmutex_s \<Rightarrow> kernel \<Rightarrow> unit res \<times> rmutex_s \<times> kernel" where
  "nxrmutex_unlock m k =
     (let m1 = m\<lparr>rcount := rcount m - 1\<rparr>
      in if rcount m1 = 0 then
           (case nxmutex_unlock (rmutex m) k of
              (Inr u, k') \<Rightarrow> (Inr u, m1, k')
            | (Inl e, k') \<Rightarrow> (Inl e, m1\<lparr>rcount := rcount m1 + 1\<rparr>, k'))
         else (OK, m1, k))"

definition nxrmutex_breaklock :: "rmutex_s \<Rightarrow> kernel \<Rightarrow> unit res \<times> u32 \<times> rmutex_s \<times> kernel" where
  "nxrmutex_breaklock m k =
     (if nxmutex_is_hold (rmutex m) k then
        (case nxmutex_unlock (rmutex m) k of
           (Inr u, k') \<Rightarrow> (Inr u, rcount m, m\<lparr>rcount := 0\<rparr>, k')
         | (Inl e, k') \<Rightarrow> (Inl e, rcount m, m, k'))
      else (OK, 0, m, k))"

definition nxrmutex_restorelock :: "rmutex_s \<Rightarrow> u32 \<Rightarrow> kernel \<Rightarrow> wait_result \<times> rmutex_s \<times> kernel" where
  "nxrmutex_restorelock m count k =
     (if count \<noteq> 0 then
        (case nxmutex_lock (rmutex m) k of
           (Returned (Inr u), k') \<Rightarrow> (Returned (Inr u), m\<lparr>rcount := count\<rparr>, k')
         | (w, k') \<Rightarrow> (w, m, k'))
      else (Returned OK, m, k))"

definition nxrmutex_is_recursive :: "rmutex_s \<Rightarrow> bool" where
  "nxrmutex_is_recursive m \<longleftrightarrow> rcount m > 1"

definition nxrmutex_destroy :: "rmutex_s \<Rightarrow> kernel \<Rightarrow> rmutex_s \<times> kernel" where
  "nxrmutex_destroy m k = (m\<lparr>rcount := 0\<rparr>, nxmutex_destroy (rmutex m) k)"

definition nxrmutex_reset :: "rmutex_s \<Rightarrow> kernel \<Rightarrow> rmutex_s \<times> kernel" where
  "nxrmutex_reset m k = (m\<lparr>rcount := 0\<rparr>, nxmutex_reset (rmutex m) k)"

section \<open>The protocol of a mutex\<close>

text \<open>
  Where each task stands with respect to the mutex at address \<open>a\<close>: outside, inside
  \<open>nxmutex_lock\<close> after it blocked, or between a successful lock and the unlock.
\<close>

datatype mpc = Outside | Locking | Inside

record msys =
  mk :: kernel
  pc :: "pid \<Rightarrow> mpc"

text \<open>
  One step of the system.  A task acts only while it is the running task.  \<open>m_timeout\<close> is the
  expiry of the timer of a timed lock.  \<open>m_other\<close> is any other activity of the kernel: it keeps
  the kernel invariants, does not touch this mutex, the error code or the liveness of a task that
  uses it; every scheduling step and every operation on another semaphore is of this kind.
\<close>

inductive mstep :: "nat \<Rightarrow> msys \<Rightarrow> msys \<Rightarrow> bool" for a where
  m_lock_ok: "p = this_task (mk S) \<Longrightarrow> p \<noteq> idle_pid \<Longrightarrow> pc S p = Outside \<Longrightarrow>
    nxmutex_lock a (mk S) = (Returned OK, k') \<Longrightarrow> mstep a S \<lparr>mk = k', pc = (pc S)(p := Inside)\<rparr>"
| m_lock_err: "p = this_task (mk S) \<Longrightarrow> p \<noteq> idle_pid \<Longrightarrow> pc S p = Outside \<Longrightarrow>
    nxmutex_lock a (mk S) = (Returned (Inl e), k') \<Longrightarrow> mstep a S \<lparr>mk = k', pc = pc S\<rparr>"
| m_lock_block: "p = this_task (mk S) \<Longrightarrow> p \<noteq> idle_pid \<Longrightarrow> pc S p = Outside \<Longrightarrow>
    nxmutex_lock a (mk S) = (Blocked, k') \<Longrightarrow> mstep a S \<lparr>mk = k', pc = (pc S)(p := Locking)\<rparr>"
| m_trylock: "p = this_task (mk S) \<Longrightarrow> p \<noteq> idle_pid \<Longrightarrow> pc S p = Outside \<Longrightarrow>
    nxmutex_trylock a (mk S) = (r, k') \<Longrightarrow>
    mstep a S \<lparr>mk = k', pc = (if r = OK then (pc S)(p := Inside) else pc S)\<rparr>"
| m_resume: "p = this_task (mk S) \<Longrightarrow> pc S p = Locking \<Longrightarrow>
    nxsem_wait_resume a p (mk S) = (r, k') \<Longrightarrow>
    mstep a S \<lparr>mk = k', pc = (pc S)(p := if r = OK then Inside else Outside)\<rparr>"
| m_unlock: "p = this_task (mk S) \<Longrightarrow> pc S p = Inside \<Longrightarrow>
    nxmutex_unlock a (mk S) = (r, k') \<Longrightarrow> mstep a S \<lparr>mk = k', pc = (pc S)(p := Outside)\<rparr>"
| m_timeout: "pc S p = Locking \<Longrightarrow> mstep a S \<lparr>mk = nxsem_timeout p (mk S), pc = pc S\<rparr>"
| m_other: "sem_inv k' \<Longrightarrow> pid_inv k' \<Longrightarrow> tids_ok k' \<Longrightarrow> sems k' a = sems (mk S) a \<Longrightarrow>
    (\<And>p. pc S p \<noteq> Outside \<Longrightarrow> errcode (tcbs k' p) = errcode (tcbs (mk S) p) \<and>
      nxsched_get_tcb k' p = Some p) \<Longrightarrow>
    mstep a S \<lparr>mk = k', pc = pc S\<rparr>"

inductive_cases mstepE: "mstep a S S'"

section \<open>The kernel invariants together\<close>

definition kinv :: "kernel \<Rightarrow> bool" where
  "kinv k \<longleftrightarrow> sem_inv k \<and> pid_inv k \<and> tids_ok k"

lemma kinv_struct: "kinv k \<Longrightarrow> sem_struct k" "kinv k \<Longrightarrow> sched_core k"
  by (auto simp: kinv_def sem_inv_def sem_struct_def sched_inv_def)

lemma kinv_within:
  assumes "kinv k" "sem_inv k'" "within (live k) (g_pidhash k, g_lastpid k) k'"
  shows "kinv k'"
  using assms pid_inv_within [of k k'] by (auto simp: kinv_def tids_ok_def within_def)

lemma kinv_self: "kinv k \<Longrightarrow> within (live k) (g_pidhash k, g_lastpid k) k"
  using within_self kinv_struct(2) by blast

lemma running_live:
  assumes "kinv k"
  shows "this_task k \<in> live k" "this_task k < 2 ^ 31 - 2"
proof -
  show "this_task k \<in> live k"
    using live_listed(1) [OF kinv_struct(2)] this_task_in [OF kinv_struct(2)] assms
    by (auto simp: runnable_def)
  then show "this_task k < 2 ^ 31 - 2" using assms by (simp add: kinv_def tids_ok_def)
qed

lemma live_lookup: "kinv k \<Longrightarrow> p \<in> live k \<Longrightarrow> nxsched_get_tcb k p = Some p"
  by (simp add: kinv_def pid_inv_def)

lemma within_block_on_sem:
  assumes "within S T k" "this_task k \<in> S"
  shows "within S T (block_on_sem a k)"
  unfolding block_on_sem_def Let_def
  using assms by (intro within_lists(4) within_set_state within_remove_self within_upd_tcb) simp_all

lemma within_wait:
  assumes "within S T k" "this_task k \<in> S"
  shows "within S T (snd (nxsem_wait a k))"
proof -
  have "within S T (block_on_sem a (set_semval a v k))" for v
    using assms by (intro within_block_on_sem within_set_semval) simp_all
  moreover have "within S T (set_mholder a p (set_semval a v k))" for p v
    unfolding set_mholder_def using assms(1) by (intro within_set_semval)
  ultimately show ?thesis
    using assms(1) unfolding nxsem_wait_def nxsem_wait_slow_def Let_def
    by (auto intro: within_set_semval split: option.splits)
qed

lemma kinv_wait: "kinv k \<Longrightarrow> this_task k \<noteq> idle_pid \<Longrightarrow> kinv (snd (nxsem_wait a k))"
  using kinv_within [OF _ sem_inv_wait within_wait] running_live kinv_self by (simp add: kinv_def)

lemma kinv_trywait: "kinv k \<Longrightarrow> kinv (snd (nxsem_trywait a k))"
  by (rule kinv_within [OF _ sem_inv_trywait(1)])
    (use kinv_self in \<open>auto simp: kinv_def nxsem_trywait_def Let_def intro: within_set_semval\<close>)

lemma kinv_resume: "kinv k \<Longrightarrow> p \<in> live k \<Longrightarrow> kinv (snd (nxsem_wait_resume a p k))"
  by (rule kinv_within [OF _ sem_inv_wait_resume])
    (use kinv_self in \<open>auto simp: kinv_def tids_ok_def nxsem_wait_resume_def set_mholder_def
       intro: within_set_semval split: option.splits\<close>)

lemma kinv_post:
  assumes "kinv k" "NXSEM_IS_MUTEX (sems k a) \<or> semcount (sems k a) < SEM_VALUE_MAX"
  shows "kinv (snd (nxsem_post a k))"
  using kinv_within [OF assms(1) sem_inv_post within_post] assms kinv_self kinv_struct
  by (simp add: kinv_def)

lemma kinv_timeout:
  assumes "kinv k"
  shows "kinv (nxsem_timeout p k)"
proof (cases "task_state (tcbs k p) = TSTATE_WAIT_SEM \<and> waitobj (tcbs k p) \<noteq> None")
  case True
  then have "p \<in> live k" by (simp add: live_def)
  then have "within (live k) (g_pidhash k, g_lastpid k) (nxsem_timeout p k)"
    using kinv_self [OF assms] unfolding nxsem_timeout_def nxsem_wait_irq_def Let_def set_semval_def
    by (auto intro!: within_add_readytorun within_upd_tcb within_lists(4) split: option.splits)
  moreover have "sem_inv (nxsem_timeout p k)"
    using assms True by (intro sem_inv_timeout) (simp_all add: kinv_def)
  ultimately show ?thesis by (rule kinv_within [OF assms, rotated])
next
  case False
  then have "nxsem_timeout p k = k" by (auto simp: nxsem_timeout_def nxsem_wait_irq_def)
  with assms show ?thesis by simp
qed

section \<open>Mutual exclusion\<close>

definition holder_of :: "u32 \<Rightarrow> pid option" where
  "holder_of h = (let m = h AND NOT NXSEM_MBLOCKING_BIT in if NXSEM_MACQUIRED m then Some (unat m) else None)"

lemma get_holder_of: "nxmutex_get_holder a k = holder_of (semval (sems k a))"
  by (simp add: nxmutex_get_holder_def holder_of_def)

lemma MACQUIRED_mask [simp]: "NXSEM_MACQUIRED (h AND NOT NXSEM_MBLOCKING_BIT) = NXSEM_MACQUIRED h"
proof -
  have "NOT NXSEM_MBLOCKING_BIT AND NXSEM_NO_MHOLDER = NXSEM_NO_MHOLDER"
    by (simp add: NXSEM_MBLOCKING_BIT_def NXSEM_NO_MHOLDER_def)
  then have "h AND NOT NXSEM_MBLOCKING_BIT AND NXSEM_NO_MHOLDER = h AND NXSEM_NO_MHOLDER"
    by (simp add: and.assoc)
  then show ?thesis by (simp add: NXSEM_MACQUIRED_def and.assoc)
qed

lemma holder_of_simps [simp]:
  "holder_of (h OR NXSEM_MBLOCKING_BIT) = holder_of h"
  "p < 2 ^ 31 - 2 \<Longrightarrow> holder_of (of_nat p) = Some p"
  "p < 2 ^ 31 - 2 \<Longrightarrow> holder_of (of_nat p OR blocking_bit wl) = Some p"
  "\<not> NXSEM_MACQUIRED h \<Longrightarrow> holder_of h = None"
proof -
  show 1: "holder_of (h OR NXSEM_MBLOCKING_BIT) = holder_of h" for h
    by (simp add: holder_of_def bit.conj_disj_distrib2)
  show 2: "p < 2 ^ 31 - 2 \<Longrightarrow> holder_of (of_nat p) = Some p" by (simp add: holder_of_def)
  then show "p < 2 ^ 31 - 2 \<Longrightarrow> holder_of (of_nat p OR blocking_bit wl) = Some p"
    by (simp add: blocking_bit_def 1)
  show "\<not> NXSEM_MACQUIRED h \<Longrightarrow> holder_of h = None" by (simp add: holder_of_def)
qed

text \<open>
  A task that owns the mutex: it is inside, or it was woken by an unlock and has not run yet.
\<close>

definition owns :: "nat \<Rightarrow> msys \<Rightarrow> pid \<Rightarrow> bool" where
  "owns a S p \<longleftrightarrow> pc S p = Inside \<or>
     (pc S p = Locking \<and> p \<notin> set (waitlist (sems (mk S) a)) \<and> errcode (tcbs (mk S) p) = None)"

definition minv :: "nat \<Rightarrow> msys \<Rightarrow> bool" where
  "minv a S \<longleftrightarrow> kinv (mk S) \<and> NXSEM_IS_MUTEX (sems (mk S) a) \<and>
     (\<forall>p. pc S p \<noteq> Outside \<longrightarrow> nxsched_get_tcb (mk S) p = Some p) \<and>
     (\<forall>p \<in> set (waitlist (sems (mk S) a)). pc S p = Locking \<and> errcode (tcbs (mk S) p) = None) \<and>
     (\<forall>p. owns a S p \<longrightarrow> nxmutex_get_holder a (mk S) = Some p)"

lemma minv_exclusive: "minv a S \<Longrightarrow> owns a S p \<Longrightarrow> owns a S q \<Longrightarrow> p = q"
  unfolding minv_def by (metis option.inject)

text \<open>A lock that returns at once: nobody owned the mutex, and the caller is the holder.\<close>

lemma lock_returns:
  assumes k: "kinv k" and m: "NXSEM_IS_MUTEX (sems k a)" and eq: "nxsem_wait a k = (Returned OK, k')"
  shows "\<exists>v. k' = set_semval a v k \<and> holder_of v = Some (this_task k) \<and>
    (\<forall>q. holder_of (semval (sems k a)) = Some q \<longrightarrow> nxsched_get_tcb k q = None)"
proof (cases "semval (sems k a) = NXSEM_NO_MHOLDER")
  case True
  then have "k' = set_semval a (of_nat (this_task k)) k"
    using eq m by (auto simp: nxsem_wait_def)
  with True running_live(2) [OF k] show ?thesis by auto
next
  case False
  let ?h = "semval (sems k a)"
  let ?k1 = "set_semval a (?h OR NXSEM_MBLOCKING_BIT) k"
  have slow: "nxsem_wait_slow a k = (Returned OK, k')" using eq m False by (simp add: nxsem_wait_def)
  then have k': "k' = set_mholder a (this_task k) ?k1"
    and none: "NXSEM_MACQUIRED ?h \<Longrightarrow> nxsched_get_tcb ?k1 (unat (?h AND NOT NXSEM_MBLOCKING_BIT)) = None"
    using m by (auto simp: nxsem_wait_slow_def Let_def split: if_splits option.splits)
  have "k' = set_semval a (of_nat (this_task k) OR blocking_bit (waitlist (sems k a))) k"
    by (simp add: k' set_mholder_def set_semval_def upd_sem_comp)
  moreover have "nxsched_get_tcb k q = None" if "holder_of ?h = Some q" for q
    using that none get_tcb_cong [of ?k1 k] by (auto simp: holder_of_def Let_def split: if_splits)
  ultimately show ?thesis using running_live(2) [OF k] by auto
qed

lemma lock_blocks:
  assumes "NXSEM_IS_MUTEX (sems k a)" "nxsem_wait a k = (Blocked, k')"
  shows "k' = block_on_sem a (set_semval a (semval (sems k a) OR NXSEM_MBLOCKING_BIT) k)"
  using assms
  by (auto simp: nxsem_wait_def nxsem_wait_slow_def Let_def split: if_splits option.splits)

lemma lock_error:
  assumes "nxsem_wait a k = (Returned (Inl e), k')"
  shows "k' = k"
  using assms
  by (auto simp: nxsem_wait_def nxsem_wait_slow_def Let_def split: if_splits option.splits)

lemma errcode_block:
  "errcode (tcbs (block_on_sem a k) p) = (if p = this_task k then None else errcode (tcbs k p))"
proof -
  let ?k1 = "upd_tcb (this_task k) (\<lambda>c. c\<lparr>waitobj := Some a, errcode := None\<rparr>) k"
  have "errcode (tcbs (nxsched_remove_self (this_task k) ?k1) p) = errcode (tcbs ?k1 p)"
    by (rule frameD(10) [OF frame_remove_self])
  then show ?thesis
    by (cases "p = this_task k") (simp_all add: block_on_sem_def Let_def set_state_def)
qed

lemma errcode_wake_first: "errcode (tcbs (wake_first a k) p) = errcode (tcbs k p)"
proof (cases "waitlist (sems k a)")
  case (Cons q rest)
  show ?thesis
    unfolding wake_first_eq [OF Cons] using frameD(10) [OF frame_add_readytorun] by simp
qed (simp add: wake_first_def)

lemma live_set_semval [simp]: "live (set_semval a v k) = live k"
  by (simp add: live_def)

text \<open>The holder changes hands only when nobody who is alive owns the mutex.\<close>

lemma minv_take:
  assumes inv: "minv a S" and k': "k' = set_semval a v (mk S)" "kinv k'" and v: "holder_of v = Some p"
    and free: "\<And>q. owns a S q \<Longrightarrow> q = p"
    and p: "nxsched_get_tcb (mk S) p = Some p" "p \<notin> set (waitlist (sems (mk S) a))"
  shows "minv a \<lparr>mk = k', pc = (pc S)(p := Inside)\<rparr>"
proof -
  have "q = p" if "owns a \<lparr>mk = k', pc = (pc S)(p := Inside)\<rparr> q" for q
    using that free [of q] by (auto simp: owns_def k'(1) split: if_splits)
  moreover have "nxsched_get_tcb k' = nxsched_get_tcb (mk S)" by (rule get_tcb_cong) (simp add: k'(1))
  ultimately show ?thesis
    using inv k' v p by (auto simp: minv_def get_holder_of)
qed

lemma running_not_waiting:
  "kinv k \<Longrightarrow> this_task k \<notin> set (waitlist (sems k a))"
  using waiting_unlisted(4) [OF kinv_struct(1)] this_task_in [OF kinv_struct(2)]
  by (auto simp: runnable_def)

lemma running_lookup: "kinv k \<Longrightarrow> nxsched_get_tcb k (this_task k) = Some (this_task k)"
  using live_lookup running_live(1) by blast

lemma minv_lock_ok:
  assumes inv: "minv a S" and p: "p = this_task (mk S)" "p \<noteq> idle_pid"
    and eq: "nxsem_wait a (mk S) = (Returned OK, k')"
  shows "minv a \<lparr>mk = k', pc = (pc S)(p := Inside)\<rparr>"
proof -
  have k: "kinv (mk S)" and m: "NXSEM_IS_MUTEX (sems (mk S) a)" using inv by (simp_all add: minv_def)
  obtain v where v: "k' = set_semval a v (mk S)" "holder_of v = Some p"
    and dead: "\<And>q. holder_of (semval (sems (mk S) a)) = Some q \<Longrightarrow> nxsched_get_tcb (mk S) q = None"
    using lock_returns [OF k m eq] p(1) by blast
  have "\<not> owns a S q" for q
    using inv dead [of q] by (auto simp: minv_def get_holder_of owns_def)
  moreover have "kinv k'" using kinv_wait [OF k, of a] p eq by simp
  ultimately show ?thesis
    using v p(1) running_lookup [OF k] running_not_waiting [OF k] by (intro minv_take [OF inv]) auto
qed

lemma minv_trylock_ok:
  assumes inv: "minv a S" and p: "p = this_task (mk S)" and eq: "nxsem_trywait a (mk S) = (OK, k')"
  shows "minv a \<lparr>mk = k', pc = (pc S)(p := Inside)\<rparr>"
proof -
  have k: "kinv (mk S)" and m: "NXSEM_IS_MUTEX (sems (mk S) a)" using inv by (simp_all add: minv_def)
  have h: "semval (sems (mk S) a) = NXSEM_NO_MHOLDER" and k': "k' = set_semval a (of_nat p) (mk S)"
    using eq m p by (auto simp: nxsem_trywait_def Let_def split: if_splits)
  have "\<not> owns a S q" for q using inv h by (auto simp: minv_def get_holder_of)
  moreover have "kinv k'" using kinv_trywait [OF k, of a] eq by simp
  ultimately show ?thesis
    using k' p running_lookup [OF k] running_live [OF k] running_not_waiting [OF k]
    by (intro minv_take [OF inv, of _ "of_nat p"]) auto
qed

lemma minv_block:
  assumes inv: "minv a S" and p: "p = this_task (mk S)" "p \<noteq> idle_pid"
    and eq: "nxsem_wait a (mk S) = (Blocked, k')"
  shows "minv a \<lparr>mk = k', pc = (pc S)(p := Locking)\<rparr>" (is "minv a ?S'")
proof -
  have k: "kinv (mk S)" and m: "NXSEM_IS_MUTEX (sems (mk S) a)" using inv by (simp_all add: minv_def)
  let ?k1 = "set_semval a (semval (sems (mk S) a) OR NXSEM_MBLOCKING_BIT) (mk S)"
  have k': "k' = block_on_sem a ?k1" by (rule lock_blocks [OF m eq])
  have st: "sem_struct ?k1" "this_task ?k1 \<noteq> idle_pid" using kinv_struct(1) [OF k] p by simp_all
  note sems' = struct_block(2) [OF st, of a]
  have wl: "set (waitlist (sems k' a)) = insert p (set (waitlist (sems (mk S) a)))"
    using p(1) by (simp add: k' sems')
  have err: "errcode (tcbs k' q) = (if q = p then None else errcode (tcbs (mk S) q))" for q
    using p(1) by (simp add: k' errcode_block)
  have tab: "nxsched_get_tcb k' = nxsched_get_tcb (mk S)"
    by (rule get_tcb_cong) (simp add: k' struct_block(4) [OF st])
  have own: "owns a S q" if "owns a ?S' q" for q
    using that by (auto simp: owns_def wl err split: if_splits)
  have "NXSEM_IS_MUTEX (sems k' a)" "holder_of (semval (sems k' a)) = holder_of (semval (sems (mk S) a))"
    using m by (simp_all add: k' sems')
  moreover have "kinv k'" using kinv_wait [OF k, of a] p eq by simp
  ultimately show ?thesis
    using inv own tab wl err p(1) running_lookup [OF k] by (simp add: minv_def get_holder_of)
qed

lemma minv_resume:
  assumes inv: "minv a S" and p: "p = this_task (mk S)" "pc S p = Locking"
    and eq: "nxsem_wait_resume a p (mk S) = (r, k')"
  shows "minv a \<lparr>mk = k', pc = (pc S)(p := if r = OK then Inside else Outside)\<rparr>"
proof -
  have k: "kinv (mk S)" and m: "NXSEM_IS_MUTEX (sems (mk S) a)" using inv by (simp_all add: minv_def)
  have nw: "p \<notin> set (waitlist (sems (mk S) a))" using running_not_waiting [OF k] p(1) by simp
  show ?thesis
  proof (cases "errcode (tcbs (mk S) p)")
    case None
    then have r: "r = OK" and k': "k' = set_mholder a p (mk S)"
      using eq m by (auto simp: nxsem_wait_resume_def)
    have "owns a S p" using p(2) nw None by (simp add: owns_def)
    then have "q = p" if "owns a S q" for q using minv_exclusive [OF inv that] by simp
    moreover have "kinv k'" using kinv_resume [OF k, of p a] running_live(1) [OF k] p(1) eq by simp
    moreover have "holder_of (of_nat p OR blocking_bit (waitlist (sems (mk S) a))) = Some p"
      using running_live(2) [OF k] p(1) by simp
    ultimately show ?thesis
      using r k' nw running_lookup [OF k] p(1) by (auto simp: set_mholder_def intro: minv_take [OF inv])
  next
    case (Some e)
    then have "r = Inl e" "k' = mk S" using eq by (simp_all add: nxsem_wait_resume_def)
    moreover have "owns a S q" if "owns a \<lparr>mk = mk S, pc = (pc S)(p := Outside)\<rparr> q" for q
      using that by (auto simp: owns_def split: if_splits)
    ultimately show ?thesis using inv nw by (auto simp: minv_def)
  qed
qed

lemma minv_unlock:
  assumes inv: "minv a S" and p: "p = this_task (mk S)" "pc S p = Inside"
    and eq: "nxsem_post a (mk S) = (r, k')"
  shows "minv a \<lparr>mk = k', pc = (pc S)(p := Outside)\<rparr>" (is "minv a ?S'")
proof -
  have k: "kinv (mk S)" and m: "NXSEM_IS_MUTEX (sems (mk S) a)" using inv by (simp_all add: minv_def)
  let ?s = "sems (mk S) a"
  have k'inv: "kinv k'" using kinv_post [OF k] m eq by (metis snd_conv)
  have nw: "p \<notin> set (waitlist ?s)" using running_not_waiting [OF k] p(1) by simp
  have own_p: "q = p" if "owns a S q" for q
    using minv_exclusive [OF inv that, of p] p(2) by (simp add: owns_def)
  have w: "within (live (mk S)) (g_pidhash (mk S), g_lastpid (mk S)) k'"
    using within_post [OF kinv_struct(1) [OF k] kinv_self [OF k], of a] eq by simp
  have tab: "nxsched_get_tcb k' = nxsched_get_tcb (mk S)"
    by (rule get_tcb_cong) (use w in \<open>simp add: within_def\<close>)
  show ?thesis
  proof (cases "NXSEM_MBLOCKING (semval ?s) \<and> waitlist ?s \<noteq> []")
    case False
    then obtain v where k': "k' = set_semval a v (mk S)"
      using eq m by (auto simp: nxsem_post_def nxsem_post_slow_def Let_def wake_first_def
          set_semval_def upd_sem_comp split: if_splits)
    have "\<not> owns a ?S' q" for q
    proof
      assume "owns a ?S' q"
      then have "q \<noteq> p" "owns a S q" by (auto simp: owns_def k' split: if_split_asm)
      with own_p show False by blast
    qed
    moreover have "waitlist (sems k' a) = waitlist ?s" "NXSEM_IS_MUTEX (sems k' a)" "tcbs k' = tcbs (mk S)"
      using m by (simp_all add: k')
    ultimately show ?thesis using inv k'inv tab nw by (auto simp: minv_def)
  next
    case True
    let ?k1 = "set_semval a (semval ?s OR NXSEM_MBLOCKING_BIT) (mk S)"
    obtain q rest where wl: "waitlist ?s = q # rest" using True by (cases "waitlist ?s") auto
    have k': "k' = wake_first a ?k1"
      using eq m True by (simp add: nxsem_post_def nxsem_post_slow_def Let_def)
    have sems': "sems k' a = ?s\<lparr>waitlist := rest, semval := of_nat q OR blocking_bit rest\<rparr>"
      using wake_first_props(2) [of ?k1 a] kinv_struct(1) [OF k] wl m by (simp add: k' woken_sem_def)
    have err: "errcode (tcbs k' x) = errcode (tcbs (mk S) x)" for x by (simp add: k' errcode_wake_first)
    have qw: "q \<in> set (waitlist ?s)" using wl by simp
    have "q \<in> live (mk S)" by (rule waiters_live [OF kinv_struct(1) [OF k] qw])
    then have q2: "q < 2 ^ 31 - 2" using k by (simp add: kinv_def tids_ok_def)
    have own': "x = q" if "owns a ?S' x" for x
    proof (rule ccontr)
      assume "x \<noteq> q"
      with that have "x \<noteq> p" "owns a S x"
        using wl by (auto simp: owns_def sems' err split: if_split_asm)
      with own_p show False by blast
    qed
    have wl': "\<forall>x \<in> set rest. x \<noteq> p \<and> pc S x = Locking \<and> errcode (tcbs k' x) = None"
      using inv wl nw by (auto simp: minv_def err)
    have "nxmutex_get_holder a k' = Some q" using q2 by (simp add: get_holder_of sems')
    with own' wl' show ?thesis
      using inv k'inv tab sems' m by (auto simp: minv_def)
  qed
qed

lemma minv_timeout:
  assumes inv: "minv a S"
  shows "minv a \<lparr>mk = nxsem_timeout p (mk S), pc = pc S\<rparr>"
proof (cases "task_state (tcbs (mk S) p) = TSTATE_WAIT_SEM \<and> waitobj (tcbs (mk S) p) \<noteq> None")
  case True
  let ?k' = "nxsem_timeout p (mk S)"
  have k: "kinv (mk S)" and m: "NXSEM_IS_MUTEX (sems (mk S) a)" using inv by (simp_all add: minv_def)
  obtain b where b: "waitobj (tcbs (mk S) p) = Some b" using True by auto
  have p: "p \<in> set (waitlist (sems (mk S) b))"
    using kinv_struct(1) [OF k] True b by (simp add: sem_struct_def waits_ok_def)
  have irq: "?k' = nxsem_wait_irq p ETIMEDOUT (mk S)" using True by (simp add: nxsem_timeout_def)
  have sinv: "sem_inv (mk S)" using k by (simp add: kinv_def)
  have e: "\<not> (NXSEM_IS_MUTEX (sems (mk S) b) \<and> (ETIMEDOUT = EINTR \<or> ETIMEDOUT = ECANCELED))" by simp
  note props = wait_irq_props [OF sinv p e]
  have err: "errcode (tcbs ?k' q) = (if q = p then Some ETIMEDOUT else errcode (tcbs (mk S) q))" for q
    unfolding irq wait_irq_eq [OF b e] using frameD(10) [OF frame_add_readytorun] by simp
  have d: "distinct (waitlist (sems (mk S) b))" using kinv_struct(1) [OF k] by (simp add: sem_struct_def)
  have wl: "set (waitlist (sems ?k' a)) = set (waitlist (sems (mk S) a)) - (if a = b then {p} else {})"
    using d by (simp add: irq props(2) aborted_sem_def)
  have pa: "p \<in> set (waitlist (sems (mk S) a)) \<Longrightarrow> a = b"
    using waiting_unlisted(3) [OF kinv_struct(1) [OF k]] b by auto
  have val: "semval (sems ?k' a) = semval (sems (mk S) a)" "NXSEM_IS_MUTEX (sems ?k' a)"
    using m by (auto simp: irq props(2) aborted_sem_def)
  have tab: "nxsched_get_tcb ?k' = nxsched_get_tcb (mk S)"
    unfolding irq wait_irq_eq [OF b e]
    by (rule get_tcb_cong) (use frameD(4) [OF frame_add_readytorun] in simp)
  have "owns a S q" if "owns a \<lparr>mk = ?k', pc = pc S\<rparr> q" for q
    using that by (auto simp: owns_def wl err split: if_splits)
  then show ?thesis
    using inv kinv_timeout [OF k, of p] val tab wl err pa by (auto simp: minv_def get_holder_of)
next
  case False
  then have "nxsem_timeout p (mk S) = mk S" by (auto simp: nxsem_timeout_def nxsem_wait_irq_def)
  then have "\<lparr>mk = nxsem_timeout p (mk S), pc = pc S\<rparr> = S" by (cases S) simp
  with inv show ?thesis by simp
qed

lemma minv_other:
  assumes inv: "minv a S" and k': "kinv k'" "sems k' a = sems (mk S) a"
    and pcs: "\<And>p. pc S p \<noteq> Outside \<Longrightarrow> errcode (tcbs k' p) = errcode (tcbs (mk S) p) \<and>
      nxsched_get_tcb k' p = Some p"
  shows "minv a \<lparr>mk = k', pc = pc S\<rparr>"
proof -
  have "owns a S p" if "owns a \<lparr>mk = k', pc = pc S\<rparr> p" for p
    using that pcs [of p] by (auto simp: owns_def k'(2))
  then show ?thesis using inv k' pcs by (auto simp: minv_def get_holder_of)
qed

lemma mstep_minv:
  assumes "mstep a S S'" "minv a S"
  shows "minv a S'"
  using assms(1)
proof cases
  case (m_lock_ok p k')
  then show ?thesis using minv_lock_ok [OF assms(2), of p k'] by (simp add: nxmutex_lock_def)
next
  case (m_lock_err p e k')
  then have "S' = S" using lock_error [of a "mk S" e k'] by (cases S) (simp add: nxmutex_lock_def)
  then show ?thesis using assms(2) by simp
next
  case (m_lock_block p k')
  then show ?thesis using minv_block [OF assms(2), of p k'] by (simp add: nxmutex_lock_def)
next
  case (m_trylock p r k')
  show ?thesis
  proof (cases "r = OK")
    case True
    then show ?thesis
      using m_trylock minv_trylock_ok [OF assms(2), of p k'] by (simp add: nxmutex_trylock_def)
  next
    case False
    then have "k' = mk S"
      using m_trylock by (auto simp: nxmutex_trylock_def nxsem_trywait_def Let_def split: if_splits)
    then have "S' = S" using m_trylock False by (cases S) simp
    then show ?thesis using assms(2) by simp
  qed
next
  case (m_resume p r k')
  then show ?thesis using minv_resume [OF assms(2), of p r k'] by simp
next
  case (m_unlock p r k')
  then show ?thesis using minv_unlock [OF assms(2), of p r k'] by (simp add: nxmutex_unlock_def)
next
  case (m_timeout p)
  then show ?thesis using minv_timeout [OF assms(2)] by simp
next
  case (m_other k')
  then show ?thesis using minv_other [OF assms(2), of k'] by (simp add: kinv_def)
qed

interpretation mtx: lock_interface "mstep a" "\<lambda>S p. pc S p = Inside" "minv a" for a
  by unfold_locales (auto intro: mstep_minv dest: minv_exclusive [of a _ _ _] simp: owns_def)

section \<open>Properties of mutexes\<close>

text \<open>A free mutex: locking it succeeds at once, and unlocking it restores the kernel.\<close>

lemma free_lock:
  assumes "NXSEM_IS_MUTEX (sems k a)" "semval (sems k a) = NXSEM_NO_MHOLDER"
  shows "nxmutex_lock a k = (Returned OK, set_semval a (of_nat (this_task k)) k)"
    and "kinv k \<Longrightarrow> nxmutex_unlock a (set_semval a (of_nat (this_task k)) k) = (OK, k)"
proof -
  show "nxmutex_lock a k = (Returned OK, set_semval a (of_nat (this_task k)) k)"
    using assms by (simp add: nxmutex_lock_def nxsem_wait_def)
  assume "kinv k"
  let ?k1 = "set_semval a (of_nat (this_task k)) k"
  have tid: "this_task k < 2 ^ 31" using running_live(2) [OF \<open>kinv k\<close>] by simp
  have "nxmutex_unlock a ?k1 = (OK, set_semval a NXSEM_NO_MHOLDER ?k1)"
    using assms(1) holder_not_blocking [OF tid] by (simp add: nxmutex_unlock_def nxsem_post_def NXSEM_IS_MUTEX_def)
  moreover have "set_semval a NXSEM_NO_MHOLDER ?k1 = k"
    using assms(2) by (cases k) (auto simp: set_semval_def upd_sem_def fun_eq_iff)
  ultimately show "nxmutex_unlock a ?k1 = (OK, k)" by simp
qed

lemma sems_mutex_init:
  "sems (nxmutex_init a k) a = \<lparr>semval = NXSEM_NO_MHOLDER, flags = SEM_TYPE_MUTEX, waitlist = []\<rparr>"
  by (simp add: nxmutex_init_def nxsem_set_protocol_def nxsem_init_def SEM_TYPE_MUTEX_def Let_def)

lemma mutex_init_is_mutex: "NXSEM_IS_MUTEX (sems (nxmutex_init a k) a)"
  by (simp add: sems_mutex_init NXSEM_IS_MUTEX_def SEM_TYPE_MUTEX_def)

lemma mutex_init_eq:
  "nxmutex_init a k = upd_sem a (\<lambda>_. \<lparr>semval = NXSEM_NO_MHOLDER, flags = SEM_TYPE_MUTEX, waitlist = []\<rparr>) k"
  by (simp add: nxmutex_init_def nxsem_set_protocol_def nxsem_init_def upd_sem_comp SEM_TYPE_MUTEX_def Let_def)

lemma kinv_mutex_init:
  assumes k: "kinv k" and wl: "waitlist (sems k a) = []"
  shows "kinv (nxmutex_init a k)"
proof -
  let ?s = "\<lparr>semval = NXSEM_NO_MHOLDER, flags = SEM_TYPE_MUTEX, waitlist = []\<rparr>"
  have wls: "waitlist (((sems k)(a := ?s)) b) = waitlist (sems k b)" for b using wl by simp
  have "val_ok ?s" using mutex_init_is_mutex [of a k] by (simp add: sems_mutex_init val_ok_mutex)
  then have "sem_inv (nxmutex_init a k)"
    using k wls unfolding kinv_def sem_inv_alt sem_ok_def waits_ok_def mutex_init_eq by simp
  moreover have "within (live k) (g_pidhash k, g_lastpid k) (nxmutex_init a k)"
    unfolding mutex_init_eq using kinv_self [OF k] by (rule within_lists(4))
  ultimately show ?thesis by (rule kinv_within [OF k])
qed

lemma minv_mutex_init:
  assumes "kinv k" "waitlist (sems k a) = []"
  shows "minv a \<lparr>mk = nxmutex_init a k, pc = (\<lambda>_. Outside)\<rparr>"
  using kinv_mutex_init [OF assms] mutex_init_is_mutex [of a k]
  by (simp add: minv_def owns_def sems_mutex_init)

text \<open>
  C3: Mutual exclusion.  From a kernel in which the mutex has just been initialised, no matter how
  the tasks lock, block, are woken, time out and unlock, and whatever else the kernel does in
  between, at most one task is between a successful lock and its unlock, and the mutex names it as
  the holder.
\<close>

theorem mutex_mutual_exclusion:
  assumes "kinv k" "waitlist (sems k a) = []"
    "(mstep a)\<^sup>*\<^sup>* \<lparr>mk = nxmutex_init a k, pc = (\<lambda>_. Outside)\<rparr> S"
    "pc S p = Inside" "pc S q = Inside"
  shows "p = q \<and> nxmutex_get_holder a (mk S) = Some p"
proof -
  have "minv a S" using mtx.linv_steps [OF assms(3)] minv_mutex_init [OF assms(1,2)] .
  moreover have "owns a S p" "owns a S q" using assms(4,5) by (simp_all add: owns_def)
  ultimately show ?thesis using minv_exclusive by (auto simp: minv_def)
qed

text \<open>
  C8: Unlocking a mutex that tasks wait for hands it over: the first waiter, of the highest
  priority, becomes the holder before it runs, so that no other task can take the mutex in
  between, and the task is ready.
\<close>

theorem unlock_hands_over:
  assumes "kinv k" "NXSEM_IS_MUTEX (sems k a)" "waitlist (sems k a) = q # rest"
    "nxmutex_unlock a k = (r, k')"
  shows "r = OK \<and> kinv k' \<and> nxmutex_get_holder a k' = Some q \<and> q \<in> runnable k' \<and>
    waitlist (sems k' a) = rest \<and> (\<forall>p \<in> set rest. prio k p \<le> prio k q) \<and>
    fst (nxmutex_trylock a k') = Inl EAGAIN"
proof -
  let ?s = "sems k a"
  let ?k1 = "set_semval a (semval ?s OR NXSEM_MBLOCKING_BIT) k"
  have st: "sem_struct k" by (rule kinv_struct(1) [OF assms(1)])
  have sinv: "sem_inv k" using assms(1) by (simp add: kinv_def)
  have "NXSEM_MBLOCKING (semval ?s)" using val_ok_waits_mutex(1) [OF sinv assms(2)] assms(3) by simp
  then have k': "r = OK" "k' = wake_first a ?k1"
    using assms(2,4) by (auto simp: nxmutex_unlock_def nxsem_post_def nxsem_post_slow_def Let_def)
  have sems': "sems k' a = ?s\<lparr>waitlist := rest, semval := of_nat q OR blocking_bit rest\<rparr>"
    using wake_first_props(2) [of ?k1 a] st assms(2,3) by (simp add: k' woken_sem_def)
  have "q \<in> live k" by (rule waiters_live [OF st, of q a]) (simp add: assms(3))
  then have q2: "q < 2 ^ 31 - 2" using assms(1) by (simp add: kinv_def tids_ok_def)
  have "waitlist (sems ?k1 a) = q # rest" using assms(3) by simp
  then have "q \<in> runnable k'" by (simp add: k' wake_first_eq)
  moreover have "by_prio k (q # rest)" using st assms(3) by (simp add: sem_struct_def flip: assms(3))
  moreover have "kinv k'"
    using kinv_post [OF assms(1), of a] assms(2,4) by (simp add: nxmutex_unlock_def)
  moreover have "holder_of (of_nat q OR blocking_bit rest) = Some q" using q2 by simp
  moreover from this have "of_nat q OR blocking_bit rest \<noteq> NXSEM_NO_MHOLDER"
    by (metis NO_MHOLDER_free(1) holder_of_simps(4) option.distinct(1))
  ultimately show ?thesis
    using k'(1) sems' assms(2) by (simp add: get_holder_of nxmutex_trylock_def nxsem_trywait_def)
qed

text \<open>
  C28: A timed lock that times out while it is the only waiter leaves the mutex unusable: the
  blocking bit stays set, the holder's unlock finds nobody to wake and returns without clearing
  the holder, so the mutex stays locked by a task that has unlocked it.
\<close>

theorem timeout_then_unlock_stays_locked:
  assumes "kinv k" "NXSEM_IS_MUTEX (sems k a)" "waitlist (sems k a) = [w]"
    "nxmutex_get_holder a k = Some h" "k1 = nxsem_timeout w k" "nxmutex_unlock a k1 = (r, k2)"
  shows "r = OK \<and> waitlist (sems k2 a) = [] \<and> nxmutex_get_holder a k2 = Some h \<and>
    fst (nxmutex_trylock a k2) = Inl EAGAIN"
proof -
  have sinv: "sem_inv k" using assms(1) by (simp add: kinv_def)
  have st: "sem_struct k" by (rule kinv_struct(1) [OF assms(1)])
  have w: "w \<in> set (waitlist (sems k a))" using assms(3) by simp
  note ws = waiting_unlisted(2,3) [OF st w]
  have e: "\<not> (NXSEM_IS_MUTEX (sems k a) \<and> (ETIMEDOUT = EINTR \<or> ETIMEDOUT = ECANCELED))" by simp
  have "sems k1 a = (sems k a)\<lparr>waitlist := []\<rparr>"
    using ws wait_irq_props(2) [OF sinv w e] assms(2,3)
    by (simp add: assms(5) nxsem_timeout_def aborted_sem_def)
  moreover have "NXSEM_MBLOCKING (semval (sems k a))"
    using val_ok_waits_mutex(1) [OF sinv assms(2)] assms(3) by simp
  ultimately have k2: "r = OK" "sems k2 a = (sems k a)\<lparr>waitlist := [], semval := semval (sems k a) OR NXSEM_MBLOCKING_BIT\<rparr>"
    using assms(2,6)
    by (auto simp: nxmutex_unlock_def nxsem_post_def nxsem_post_slow_def Let_def wake_first_def)
  moreover have "holder_of (semval (sems k a) OR NXSEM_MBLOCKING_BIT) = Some h"
    using assms(4) by (simp add: get_holder_of)
  moreover from this have "semval (sems k a) OR NXSEM_MBLOCKING_BIT \<noteq> NXSEM_NO_MHOLDER"
    by (metis NO_MHOLDER_free(1) holder_of_simps(4) option.distinct(1))
  ultimately show ?thesis
    using assms(2) by (simp add: get_holder_of nxmutex_trylock_def nxsem_trywait_def)
qed

text \<open>
  A recursive mutex counts: a task that holds it locks it again without touching the kernel
  and undoes that with one unlock; the last unlock releases the mutex.
\<close>

theorem rmutex_counts:
  assumes "NXSEM_IS_MUTEX (sems k (rmutex m))" "nxmutex_is_hold (rmutex m) k"
  shows "nxrmutex_lock m k = (Returned OK, m\<lparr>rcount := rcount m + 1\<rparr>, k) \<and>
    (rcount m \<noteq> 0 \<longrightarrow> nxrmutex_unlock (m\<lparr>rcount := rcount m + 1\<rparr>) k = (OK, m, k)) \<and>
    (rcount m = 1 \<longrightarrow> (\<exists>r k'. nxmutex_unlock (rmutex m) k = (Inr r, k') \<and>
      nxrmutex_unlock m k = (Inr r, m\<lparr>rcount := 0\<rparr>, k')))"
proof -
  obtain r k' where u: "nxmutex_unlock (rmutex m) k = (Inr r, k')"
    using assms(1) by (cases "nxmutex_unlock (rmutex m) k")
      (auto simp: nxmutex_unlock_def nxsem_post_def nxsem_post_slow_def Let_def split: if_splits)
  then show ?thesis
    using assms(2)
    by (auto simp: nxrmutex_lock_def rmutex_count_result_def rmutex_count_lock_def nxrmutex_unlock_def Let_def)
qed

text \<open>
  Breaking a recursive lock that nobody waits for and restoring it gives back the count and
  the holder.
\<close>

theorem rmutex_break_restore:
  assumes "kinv k" "NXSEM_IS_MUTEX (sems k (rmutex m))" "nxmutex_is_hold (rmutex m) k"
    "\<not> NXSEM_MBLOCKING (semval (sems k (rmutex m)))" "rcount m \<noteq> 0"
    "nxrmutex_breaklock m k = (r, n, m1, k1)" "nxrmutex_restorelock m1 n k1 = (w, m2, k2)"
  shows "r = OK \<and> rcount m1 = 0 \<and> \<not> nxmutex_is_locked (rmutex m) k1 \<and> w = Returned OK \<and> m2 = m \<and>
    nxmutex_is_hold (rmutex m) k2"
proof -
  have "nxmutex_unlock (rmutex m) k = (OK, set_semval (rmutex m) NXSEM_NO_MHOLDER k)"
    using assms(2,4) by (simp add: nxmutex_unlock_def nxsem_post_def)
  then have 1: "r = OK" "n = rcount m" "m1 = m\<lparr>rcount := 0\<rparr>" "k1 = set_semval (rmutex m) NXSEM_NO_MHOLDER k"
    using assms(3,6) by (auto simp: nxrmutex_breaklock_def)
  have "nxmutex_lock (rmutex m) k1 = (Returned OK, set_semval (rmutex m) (of_nat (this_task k)) k1)"
    using assms(2) by (simp add: 1 nxmutex_lock_def nxsem_wait_def)
  then have "w = Returned OK" "m2 = m" "k2 = set_semval (rmutex m) (of_nat (this_task k)) k1"
    using assms(5,7) by (auto simp: nxrmutex_restorelock_def 1)
  then show ?thesis
    using 1 running_live(2) [OF assms(1)]
    by (simp add: nxmutex_is_locked_def nxmutex_is_hold_def get_holder_of)
qed

subsection \<open>Instances\<close>

lemma demo_kinv: "kinv demo_kernel"
  using demo_sem_inv demo_pid_inv by (simp add: kinv_def tids_ok_def demo_live)

text \<open>The mutex 7 held by task \<open>h\<close>, nobody waiting.\<close>

definition demo_held :: "pid \<Rightarrow> kernel" where
  "demo_held h = set_semval 7 (of_nat h) (nxmutex_init 7 demo_kernel)"

lemma is_mutex_literal [simp]: "NXSEM_IS_MUTEX \<lparr>semval = v, flags = SEM_TYPE_MUTEX, waitlist = l\<rparr>"
  by (simp add: NXSEM_IS_MUTEX_def SEM_TYPE_MUTEX_def)

lemma demo_held_sel:
  "NXSEM_IS_MUTEX (sems (demo_held h) 7)" "waitlist (sems (demo_held h) 7) = []"
  "semval (sems (demo_held h) 7) = of_nat h" "this_task (demo_held h) = 1"
  "tcbs (demo_held h) = tcbs demo_kernel"
  using mutex_init_is_mutex [of 7 demo_kernel] demo_count(4)
  by (simp_all add: demo_held_def sems_mutex_init) (simp_all add: mutex_init_eq)

lemma demo_held_kinv: "kinv (demo_held h)"
proof -
  have k: "kinv (nxmutex_init 7 demo_kernel)" by (rule kinv_mutex_init [OF demo_kinv demo_count(3)])
  have "sem_inv (demo_held h)"
    unfolding demo_held_def using k mutex_init_is_mutex [of 7 demo_kernel]
    by (intro sem_inv_set_semval) (simp_all add: kinv_def val_ok_mutex sems_mutex_init)
  then show ?thesis
    using kinv_within [OF k _ within_set_semval [OF kinv_self [OF k]]] by (simp add: demo_held_def)
qed

text \<open>Task 1 has blocked on the mutex that task 2 holds.\<close>

definition demo_blocked :: kernel where
  "demo_blocked = snd (nxmutex_lock 7 (demo_held 2))"

lemma demo_blocked_props:
  "kinv demo_blocked" "NXSEM_IS_MUTEX (sems demo_blocked 7)" "waitlist (sems demo_blocked 7) = [1]"
  "nxmutex_get_holder 7 demo_blocked = Some 2"
proof -
  let ?k1 = "set_semval 7 (2 OR NXSEM_MBLOCKING_BIT) (demo_held 2)"
  have "2 \<in> live (demo_held 2)" using demo_live by (simp add: live_def demo_held_sel)
  then have look: "nxsched_get_tcb ?k1 2 = Some 2"
    using live_lookup [OF demo_held_kinv] get_tcb_cong [of ?k1 "demo_held 2"] by simp
  have "(2 :: u32) \<noteq> NXSEM_NO_MHOLDER" by (simp add: NXSEM_NO_MHOLDER_def)
  then have b: "demo_blocked = block_on_sem 7 ?k1"
    using look holder_acquired [of 2] holder_unat(2) [of 2] demo_count(5)
    by (simp add: demo_blocked_def nxmutex_lock_def nxsem_wait_def nxsem_wait_slow_def demo_held_sel Let_def)
  have run: "this_task (demo_held 2) \<noteq> idle_pid" by (simp add: demo_held_sel idle_pid_def)
  show "kinv demo_blocked"
    using kinv_wait [OF demo_held_kinv run] by (simp add: demo_blocked_def nxmutex_lock_def)
  have "sem_struct ?k1" "this_task ?k1 \<noteq> idle_pid"
    using kinv_struct(1) [OF demo_held_kinv] run by simp_all
  note sb = struct_block(2) [OF this, of 7]
  show "NXSEM_IS_MUTEX (sems demo_blocked 7)" "waitlist (sems demo_blocked 7) = [1]"
    using demo_held_sel(1) unfolding b sb by (simp_all add: demo_held_sel add_prioritized_snd)
  show "nxmutex_get_holder 7 demo_blocked = Some 2"
    using holder_of_simps(1) [of 2] holder_of_simps(2) [of 2] unfolding b get_holder_of sb by simp
qed

theorem mutex_mutual_exclusion_witness:
  "\<exists>S. (mstep 7)\<^sup>*\<^sup>* \<lparr>mk = nxmutex_init 7 demo_kernel, pc = (\<lambda>_. Outside)\<rparr> S \<and> pc S 1 = Inside \<and>
    nxmutex_get_holder 7 (mk S) = Some 1"
proof -
  let ?S0 = "\<lparr>mk = nxmutex_init 7 demo_kernel, pc = (\<lambda>_. Outside)\<rparr>"
  let ?S1 = "\<lparr>mk = demo_held 1, pc = (\<lambda>_. Outside)(1 := Inside)\<rparr>"
  have "this_task (nxmutex_init 7 demo_kernel) = 1" using demo_count(4) by (simp add: mutex_init_eq)
  moreover from this have "nxmutex_lock 7 (nxmutex_init 7 demo_kernel) = (Returned OK, demo_held 1)"
    using mutex_init_is_mutex [of 7 demo_kernel]
    by (simp add: nxmutex_lock_def nxsem_wait_def sems_mutex_init demo_held_def)
  ultimately have "mstep 7 ?S0 ?S1"
    using m_lock_ok [of 1 ?S0 7 "demo_held 1"] by (simp add: idle_pid_def)
  then have run: "(mstep 7)\<^sup>*\<^sup>* ?S0 ?S1" by simp
  from mutex_mutual_exclusion [OF demo_kinv demo_count(3) this, of 1 1] run show ?thesis
    by (intro exI [of _ ?S1]) simp
qed

theorem unlock_hands_over_witness:
  "nxmutex_get_holder 7 (snd (nxmutex_unlock 7 demo_blocked)) = Some 1"
  using unlock_hands_over [OF demo_blocked_props(1,2,3) prod.collapse [symmetric]] by simp

theorem timeout_then_unlock_stays_locked_witness:
  "nxmutex_get_holder 7 (snd (nxmutex_unlock 7 (nxsem_timeout 1 demo_blocked))) = Some 2"
  using timeout_then_unlock_stays_locked
    [OF demo_blocked_props(1,2,3,4) refl prod.collapse [symmetric]] by simp

lemma demo_held_by_1: "nxmutex_is_hold 7 (demo_held 1)"
  using holder_of_simps(2) [of 1] by (simp add: nxmutex_is_hold_def get_holder_of demo_held_sel)

theorem rmutex_counts_witness:
  "nxrmutex_lock \<lparr>rmutex = 7, rcount = 1\<rparr> (demo_held 1) =
    (Returned OK, \<lparr>rmutex = 7, rcount = 2\<rparr>, demo_held 1)"
  using rmutex_counts [of "demo_held 1" "\<lparr>rmutex = 7, rcount = 1\<rparr>"] demo_held_sel(1) demo_held_by_1
  by simp

theorem rmutex_break_restore_witness:
  "\<exists>r n m1 k1 w m2 k2. nxrmutex_breaklock \<lparr>rmutex = 7, rcount = 3\<rparr> (demo_held 1) = (r, n, m1, k1) \<and>
    nxrmutex_restorelock m1 n k1 = (w, m2, k2) \<and> rcount m2 = 3"
proof -
  obtain r n m1 k1 where 1: "nxrmutex_breaklock \<lparr>rmutex = 7, rcount = 3\<rparr> (demo_held 1) = (r, n, m1, k1)"
    by (metis prod_cases4)
  obtain w m2 k2 where 2: "nxrmutex_restorelock m1 n k1 = (w, m2, k2)" by (metis prod_cases3)
  have "\<not> NXSEM_MBLOCKING (semval (sems (demo_held 1) 7))"
    using holder_not_blocking [of 1] by (simp add: demo_held_sel)
  then have "m2 = \<lparr>rmutex = 7, rcount = 3\<rparr>"
    using rmutex_break_restore [OF demo_held_kinv [of 1], where m = "\<lparr>rmutex = 7, rcount = 3\<rparr>"]
      demo_held_sel(1) demo_held_by_1 1 2 by simp
  then have "rcount m2 = 3" by simp
  with 1 2 show ?thesis by blast
qed

end
