(* ===== verification/Fifo.thy ===== *)
theory Fifo
  imports NxPrelude
begin

text \<open>
  The contract of a bounded first-in first-out buffer.  The application's chunk ring, the byte
  rings of the serial driver and the circular buffer of the C library each provide it; what a
  client may conclude from the contract alone is proved here once.
\<close>

section \<open>The contract\<close>

locale bounded_fifo =
  fixes put :: "'x \<Rightarrow> 's \<Rightarrow> bool \<times> 's"
    and get :: "'s \<Rightarrow> 'x option \<times> 's"
    and contents :: "'s \<Rightarrow> 'x list"
    and inv :: "'s \<Rightarrow> bool"
    and cap :: "'s \<Rightarrow> nat"
  assumes bounded: "inv s \<Longrightarrow> length (contents s) \<le> cap s"
    and put_ok: "inv s \<Longrightarrow> length (contents s) < cap s \<Longrightarrow>
      fst (put x s) \<and> inv (snd (put x s)) \<and> contents (snd (put x s)) = contents s @ [x] \<and>
      cap (snd (put x s)) = cap s"
    and put_full: "inv s \<Longrightarrow> length (contents s) = cap s \<Longrightarrow> put x s = (False, s)"
    and get_ok: "inv s \<Longrightarrow> contents s = x # xs \<Longrightarrow>
      fst (get s) = Some x \<and> inv (snd (get s)) \<and> contents (snd (get s)) = xs \<and> cap (snd (get s)) = cap s"
    and get_empty: "inv s \<Longrightarrow> contents s = [] \<Longrightarrow> get s = (None, s)"

section \<open>Interleaved use\<close>

text \<open>
  A producer and a consumer use the buffer in any order.  \<open>run\<close> returns the elements that were
  accepted, the ones that were delivered and the final buffer.
\<close>

datatype 'x fop = Put 'x | Get

fun run :: "('x \<Rightarrow> 's \<Rightarrow> bool \<times> 's) \<Rightarrow> ('s \<Rightarrow> 'x option \<times> 's) \<Rightarrow> 'x fop list \<Rightarrow> 's \<Rightarrow>
    'x list \<times> 'x list \<times> 's" where
  "run put get [] s = ([], [], s)"
| "run put get (Put x # ops) s =
     (let (ok, s1) = put x s; (acc, del, s2) = run put get ops s1
      in (if ok then x # acc else acc, del, s2))"
| "run put get (Get # ops) s =
     (let (r, s1) = get s; (acc, del, s2) = run put get ops s1
      in (acc, (case r of Some x \<Rightarrow> x # del | None \<Rightarrow> del), s2))"

text \<open>
  A producer that retries until the buffer accepts its next element, and a consumer that polls.
  The schedule says whose turn it is (\<open>True\<close>: the producer).  The state has the elements still to be
  sent, the buffer and the elements received.
\<close>

fun pump_step :: "('x \<Rightarrow> 's \<Rightarrow> bool \<times> 's) \<Rightarrow> ('s \<Rightarrow> 'x option \<times> 's) \<Rightarrow> bool \<Rightarrow>
    'x list \<times> 's \<times> 'x list \<Rightarrow> 'x list \<times> 's \<times> 'x list" where
  "pump_step put get True (x # todo, s, out) =
     (case put x s of (ok, s') \<Rightarrow> (if ok then todo else x # todo, s', out))"
| "pump_step put get True ([], s, out) = ([], s, out)"
| "pump_step put get False (todo, s, out) =
     (case get s of (r, s') \<Rightarrow> (todo, s', out @ (case r of Some x \<Rightarrow> [x] | None \<Rightarrow> [])))"

fun pump :: "('x \<Rightarrow> 's \<Rightarrow> bool \<times> 's) \<Rightarrow> ('s \<Rightarrow> 'x option \<times> 's) \<Rightarrow> bool list \<Rightarrow>
    'x list \<times> 's \<times> 'x list \<Rightarrow> 'x list \<times> 's \<times> 'x list" where
  "pump put get [] st = st"
| "pump put get (b # bs) st = pump put get bs (pump_step put get b st)"

lemma pump_append: "pump put get (xs @ ys) st = pump put get ys (pump put get xs st)"
  by (induction xs arbitrary: st) simp_all

text \<open>A round gives each side at least one turn.\<close>

definition fair_round :: "bool list \<Rightarrow> bool" where
  "fair_round bs \<longleftrightarrow> True \<in> set bs \<and> False \<in> set bs"

context bounded_fifo
begin

lemma put_cases:
  assumes "inv s"
  obtains (ok) "fst (put x s)" "inv (snd (put x s))" "contents (snd (put x s)) = contents s @ [x]"
      "cap (snd (put x s)) = cap s" "length (contents s) < cap s"
    | (full) "put x s = (False, s)" "length (contents s) = cap s"
  using put_ok [OF assms, of x] put_full [OF assms, of x] bounded [OF assms]
  by (cases "length (contents s) = cap s") fastforce+

lemma get_cases:
  assumes "inv s"
  obtains (ok) x where "fst (get s) = Some x" "inv (snd (get s))" "contents s = x # contents (snd (get s))"
      "cap (snd (get s)) = cap s"
    | (empty) "get s = (None, s)" "contents s = []"
  using get_ok [OF assms] get_empty [OF assms] by (cases "contents s") auto

text \<open>Nothing is lost, duplicated or reordered, and the buffer never holds more than it may.\<close>

lemma run_fifo:
  assumes "inv s" "run put get ops s = (acc, del, s')"
  shows "contents s @ acc = del @ contents s' \<and> inv s' \<and> length (contents s') \<le> cap s"
  using assms
proof (induction ops arbitrary: s acc del)
  case Nil
  then show ?case using bounded by auto
next
  case (Cons op ops)
  show ?case
  proof (cases op)
    case (Put x)
    obtain acc2 where r: "run put get ops (snd (put x s)) = (acc2, del, s')"
      and acc: "acc = (if fst (put x s) then x # acc2 else acc2)"
      using Cons.prems(2) Put by (auto simp: split: prod.splits)
    from Cons.prems(1) show ?thesis
    proof (cases rule: put_cases [of s x])
      case ok
      with Cons.IH [OF ok(2) r] acc show ?thesis by simp
    next
      case full
      with Cons.IH [of s acc2 del] Cons.prems(1) r acc show ?thesis by simp
    qed
  next
    case Get
    obtain del2 where r: "run put get ops (snd (get s)) = (acc, del2, s')"
      and del: "del = (case fst (get s) of Some x \<Rightarrow> x # del2 | None \<Rightarrow> del2)"
      using Cons.prems(2) Get by (auto split: prod.splits)
    from Cons.prems(1) show ?thesis
    proof (cases rule: get_cases)
      case (ok x)
      with Cons.IH [OF ok(2) r] del show ?thesis by simp
    next
      case empty
      with Cons.IH [of s acc del2] Cons.prems(1) r del show ?thesis by simp
    qed
  qed
qed

lemma run_delivers_prefix:
  assumes "inv s" "contents s = []" "run put get ops s = (acc, del, s')"
  shows "acc = del @ contents s'"
  using run_fifo [OF assms(1,3)] assms(2) by simp

text \<open>What is left to do: each element must be accepted and delivered.\<close>

fun work :: "'x list \<times> 's \<times> 'x list \<Rightarrow> nat" where
  "work (todo, s, out) = 2 * length todo + length (contents s)"

fun pump_ok :: "'x list \<Rightarrow> 'x list \<times> 's \<times> 'x list \<Rightarrow> bool" where
  "pump_ok xs (todo, s, out) \<longleftrightarrow> inv s \<and> 0 < cap s \<and> out @ contents s @ todo = xs"

lemma pump_step_ok:
  assumes "pump_ok xs st"
  shows "pump_ok xs (pump_step put get b st) \<and>
    (pump_step put get b st = st \<or> work (pump_step put get b st) < work st)"
proof -
  obtain todo s out where st: "st = (todo, s, out)" by (cases st)
  with assms have inv: "inv s" by simp
  show ?thesis
  proof (cases b)
    case True
    then show ?thesis
    proof (cases todo)
      case (Cons x xs)
      from inv show ?thesis
        by (cases rule: put_cases [of s x]) (use assms True Cons st in \<open>auto split: prod.splits\<close>)
    qed (use assms st in simp)
  next
    case False
    from inv show ?thesis
      by (cases rule: get_cases) (use assms False st in \<open>auto split: prod.splits\<close>)
  qed
qed

text \<open>When neither side can move, everything has been delivered.\<close>

lemma pump_stuck:
  assumes "pump_ok xs st" "pump_step put get True st = st" "pump_step put get False st = st"
  shows "work st = 0"
proof -
  obtain todo s out where st: "st = (todo, s, out)" by (cases st)
  with assms have inv: "inv s" "0 < cap s" by simp_all
  from inv(1) have empty: "contents s = []"
    by (cases rule: get_cases) (use assms(3) st in \<open>auto split: prod.splits\<close>)
  have "todo = []"
  proof (cases todo)
    case (Cons x xs)
    from inv(1) show ?thesis
      by (cases rule: put_cases [of s x]) (use assms(2) Cons st inv(2) empty in \<open>auto split: prod.splits\<close>)
  qed
  with st empty show ?thesis by simp
qed

lemma pump_progress:
  assumes "pump_ok xs st"
  shows "pump_ok xs (pump put get bs st) \<and>
    ((pump put get bs st = st \<and> (\<forall>b \<in> set bs. pump_step put get b st = st)) \<or>
     work (pump put get bs st) < work st)"
  using assms
proof (induction bs arbitrary: st)
  case (Cons b bs)
  let ?st' = "pump_step put get b st"
  have step: "pump_ok xs ?st'" "?st' = st \<or> work ?st' < work st"
    using pump_step_ok [OF Cons.prems] by blast+
  from step(2) show ?case
  proof
    assume "?st' = st"
    with Cons.IH [OF Cons.prems] show ?thesis by simp
  next
    assume "work ?st' < work st"
    with Cons.IH [OF step(1)] show ?thesis by auto
  qed
qed simp

lemma pump_round:
  assumes "pump_ok xs st" "fair_round bs"
  shows "pump_ok xs (pump put get bs st)" "work (pump put get bs st) \<le> work st - 1"
proof -
  show "pump_ok xs (pump put get bs st)" using pump_progress [OF assms(1)] by blast
  show "work (pump put get bs st) \<le> work st - 1"
  proof (cases "pump put get bs st = st \<and> (\<forall>b \<in> set bs. pump_step put get b st = st)")
    case True
    then have "work st = 0"
      using pump_stuck [OF assms(1)] assms(2) by (simp add: fair_round_def)
    with True show ?thesis by simp
  next
    case False
    then show ?thesis using pump_progress [OF assms(1), of bs] by linarith
  qed
qed

text \<open>Under a fair schedule everything is delivered, in order, after a bounded number of rounds.\<close>

lemma pump_rounds:
  assumes "pump_ok xs st" "\<forall>bs \<in> set rounds. fair_round bs"
  shows "pump_ok xs (pump put get (concat rounds) st) \<and>
    work (pump put get (concat rounds) st) \<le> work st - length rounds"
  using assms
proof (induction rounds arbitrary: st)
  case (Cons bs rounds)
  have r: "pump_ok xs (pump put get bs st)" "work (pump put get bs st) \<le> work st - 1"
    using pump_round [OF Cons.prems(1), of bs] Cons.prems(2) by simp_all
  show ?case using Cons.IH [OF r(1)] Cons.prems(2) r(2) by (auto simp: pump_append)
qed simp

lemma pump_delivers:
  assumes "inv s" "0 < cap s" "\<forall>bs \<in> set rounds. fair_round bs"
    "2 * length todo + length (contents s) \<le> length rounds"
    "pump put get (concat rounds) (todo, s, out) = (todo', s', out')"
  shows "todo' = [] \<and> contents s' = [] \<and> out' = out @ contents s @ todo"
  using pump_rounds [of "out @ contents s @ todo" "(todo, s, out)" rounds] assms by auto

end

end
