(* ===== verification/Ring_Buffer.thy ===== *)
theory Ring_Buffer
  imports NxMutex Fifo
begin

text \<open>
  The chunk ring between the camera and the display application
  (\<^verbatim>\<open>apps/examples/camera_MSN2/ring_buffer.[ch]\<close>).  \<open>rb_inv\<close> ties the two free-running pointers to
  the occupancy counter; under it the ring is a bounded FIFO of at most \<open>RB_DEPTH\<close> chunks, and
  stays one when the pointers wrap around at 2^32.  The calls take the kernel state as well, since
  every one of them is bracketed by \<^verbatim>\<open>nxmutex_lock\<close> and \<^verbatim>\<open>nxmutex_unlock\<close> on \<^verbatim>\<open>g_rb_lock\<close>, whose
  address is the argument \<open>a\<close>.
\<close>

section \<open>Data\<close>

definition RB_DEPTH :: u32 where
  "RB_DEPTH = 64"

definition CHUNK_SIZE :: nat where
  "CHUNK_SIZE = 256"

record image_chunk_s =
  data :: "u8 list"
  len :: u16
  frame_id :: u32
  is_last :: u8
  is_meta :: u8

record ring_buffer_s =
  slots :: "image_chunk_s list"
  wr_ptr :: u32
  rd_ptr :: u32
  count :: u32

text \<open>A chunk after \<^verbatim>\<open>memset(&c, 0, sizeof(c))\<close>.\<close>

definition zero_chunk :: image_chunk_s where
  "zero_chunk = \<lparr>data = replicate CHUNK_SIZE 0, len = 0, frame_id = 0, is_last = 0, is_meta = 0\<rparr>"

text \<open>The bytes a chunk carries.\<close>

definition payload :: "image_chunk_s \<Rightarrow> u8 list" where
  "payload c = take (unat (len c)) (data c)"

section \<open>The critical sections, statement by statement\<close>

definition rb_copy_in :: "image_chunk_s \<Rightarrow> ring_buffer_s \<Rightarrow> ring_buffer_s" where
  "rb_copy_in c rb = rb\<lparr>slots := (slots rb)[unat (wr_ptr rb mod RB_DEPTH) := c]\<rparr>"

definition rb_copy_out :: "ring_buffer_s \<Rightarrow> image_chunk_s" where
  "rb_copy_out rb = slots rb ! unat (rd_ptr rb mod RB_DEPTH)"

definition rb_advance_wr :: "ring_buffer_s \<Rightarrow> ring_buffer_s" where
  "rb_advance_wr rb = rb\<lparr>wr_ptr := wr_ptr rb + 1\<rparr>"

definition rb_advance_rd :: "ring_buffer_s \<Rightarrow> ring_buffer_s" where
  "rb_advance_rd rb = rb\<lparr>rd_ptr := rd_ptr rb + 1\<rparr>"

definition rb_count_up :: "ring_buffer_s \<Rightarrow> ring_buffer_s" where
  "rb_count_up rb = rb\<lparr>count := count rb + 1\<rparr>"

definition rb_count_down :: "ring_buffer_s \<Rightarrow> ring_buffer_s" where
  "rb_count_down rb = rb\<lparr>count := count rb - 1\<rparr>"

definition rb_write_body :: "image_chunk_s \<Rightarrow> ring_buffer_s \<Rightarrow> int \<times> ring_buffer_s" where
  "rb_write_body c rb =
     (if RB_DEPTH \<le> count rb then (- 1, rb)
      else (0, rb_count_up (rb_advance_wr (rb_copy_in c rb))))"

definition rb_read_body :: "ring_buffer_s \<Rightarrow> (int \<times> image_chunk_s option) \<times> ring_buffer_s" where
  "rb_read_body rb =
     (if count rb = 0 then ((- 1, None), rb)
      else ((0, Some (rb_copy_out rb)), rb_count_down (rb_advance_rd rb)))"

section \<open>The calls\<close>

text \<open>
  A call that has to wait for the lock is split where the task is switched out: \<open>None\<close> stands for
  a call that blocked in \<^verbatim>\<open>nxmutex_lock\<close>; \<open>locked_section\<close> then goes on with what
  \<open>nxsem_wait_resume\<close> returned.  The results of lock and unlock are ignored, as in the code.
\<close>

definition locked_section :: "nat \<Rightarrow> (ring_buffer_s \<Rightarrow> 'r \<times> ring_buffer_s) \<Rightarrow> kernel \<times> ring_buffer_s \<Rightarrow>
    'r option \<times> kernel \<times> ring_buffer_s" where
  "locked_section a body s =
     (case s of (k, rb) \<Rightarrow> case body rb of (r, rb') \<Rightarrow> (Some r, snd (nxmutex_unlock a k), rb'))"

definition with_rb_lock :: "nat \<Rightarrow> (ring_buffer_s \<Rightarrow> 'r \<times> ring_buffer_s) \<Rightarrow> kernel \<times> ring_buffer_s \<Rightarrow>
    'r option \<times> kernel \<times> ring_buffer_s" where
  "with_rb_lock a body s =
     (case s of (k, rb) \<Rightarrow>
        case nxmutex_lock a k of
          (Returned _, k') \<Rightarrow> locked_section a body (k', rb)
        | (Blocked, k') \<Rightarrow> (None, k', rb))"

definition rb_init :: "nat \<Rightarrow> kernel \<times> ring_buffer_s \<Rightarrow> kernel \<times> ring_buffer_s" where
  "rb_init a s =
     (nxmutex_init a (fst s),
      \<lparr>slots = replicate (unat RB_DEPTH) zero_chunk, wr_ptr = 0, rd_ptr = 0, count = 0\<rparr>)"

text \<open>The argument of \<open>rb_write\<close> is a pointer, \<open>None\<close> for the null pointer; so is \<open>dst\<close> of \<open>rb_read\<close>.\<close>

definition rb_write :: "nat \<Rightarrow> image_chunk_s option \<Rightarrow> kernel \<times> ring_buffer_s \<Rightarrow>
    int option \<times> kernel \<times> ring_buffer_s" where
  "rb_write a c s =
     (case c of None \<Rightarrow> (Some (- 1), s) | Some c \<Rightarrow> with_rb_lock a (rb_write_body c) s)"

definition rb_read :: "nat \<Rightarrow> bool \<Rightarrow> kernel \<times> ring_buffer_s \<Rightarrow>
    (int \<times> image_chunk_s option) option \<times> kernel \<times> ring_buffer_s" where
  "rb_read a dst s = (if \<not> dst then (Some (- 1, None), s) else with_rb_lock a rb_read_body s)"

definition rb_count :: "nat \<Rightarrow> kernel \<times> ring_buffer_s \<Rightarrow> int option \<times> kernel \<times> ring_buffer_s" where
  "rb_count a = with_rb_lock a (\<lambda>rb. (sint (count rb), rb))"

definition rb_full :: "nat \<Rightarrow> kernel \<times> ring_buffer_s \<Rightarrow> int option \<times> kernel \<times> ring_buffer_s" where
  "rb_full a = with_rb_lock a (\<lambda>rb. (if RB_DEPTH \<le> count rb then 1 else 0, rb))"

definition rb_empty :: "nat \<Rightarrow> kernel \<times> ring_buffer_s \<Rightarrow> int option \<times> kernel \<times> ring_buffer_s" where
  "rb_empty a = with_rb_lock a (\<lambda>rb. (if count rb = 0 then 1 else 0, rb))"

lemmas rb_stmt_defs = rb_copy_in_def rb_copy_out_def rb_advance_wr_def rb_advance_rd_def
  rb_count_up_def rb_count_down_def

section \<open>The ring is a bounded FIFO\<close>

definition rb_inv :: "ring_buffer_s \<Rightarrow> bool" where
  "rb_inv rb \<longleftrightarrow> length (slots rb) = 64 \<and> count rb \<le> RB_DEPTH \<and> wr_ptr rb = rd_ptr rb + count rb"

definition rb_contents :: "ring_buffer_s \<Rightarrow> image_chunk_s list" where
  "rb_contents rb = ring_list (slots rb) (unat (rd_ptr rb)) (unat (count rb))"

lemma unat_RB_DEPTH [simp]: "unat RB_DEPTH = 64"
  by (simp add: RB_DEPTH_def)

lemma depth_le_iff: "RB_DEPTH \<le> x \<longleftrightarrow> 64 \<le> unat x" "x \<le> RB_DEPTH \<longleftrightarrow> unat x \<le> 64"
  by (simp_all add: word_le_nat_alt)

lemma unat_mod_depth: "unat (x mod RB_DEPTH) = unat x mod 64"
  by (simp add: unat_mod)

lemma dvd_depth: "(64::nat) dvd 2 ^ LENGTH(32)"
  by simp

lemma length_rb_contents [simp]: "length (rb_contents rb) = unat (count rb)"
  by (simp add: rb_contents_def)

lemma rb_contents_bound: "rb_inv rb \<Longrightarrow> length (rb_contents rb) \<le> 64"
  by (simp add: rb_inv_def depth_le_iff)

lemma rb_inv_init: "rb_inv (snd (rb_init a s))" "rb_contents (snd (rb_init a s)) = []"
  by (simp_all add: rb_init_def rb_inv_def rb_contents_def)

text \<open>The slot under the write pointer is not occupied while the ring is not full.\<close>

lemma rb_copy_in_contents:
  assumes "rb_inv rb" "unat (count rb) < 64"
  shows "rb_inv (rb_copy_in c rb)" "rb_contents (rb_copy_in c rb) = rb_contents rb"
    "count (rb_copy_in c rb) = count rb"
proof -
  have len: "length (slots rb) = 64" and wr: "unat (wr_ptr rb) mod 64 = (unat (rd_ptr rb) + unat (count rb)) mod 64"
    using assms(1) unat_add_mod_dvd [OF dvd_depth, of "rd_ptr rb" "count rb"] by (simp_all add: rb_inv_def)
  have "unat (wr_ptr rb) mod 64 \<noteq> (unat (rd_ptr rb) + i) mod 64" if "i < unat (count rb)" for i
    using ring_index_inj [of "unat (rd_ptr rb)" i 64 "unat (count rb)"] that assms(2) wr by auto
  then show "rb_contents (rb_copy_in c rb) = rb_contents rb"
    using len by (simp add: rb_contents_def rb_copy_in_def ring_list_def unat_mod_depth)
qed (use assms in \<open>simp_all add: rb_inv_def rb_copy_in_def\<close>)

lemma rb_write_stmts:
  fixes c :: image_chunk_s
  assumes "rb_inv rb" "unat (count rb) < 64"
  defines "rb' \<equiv> rb_count_up (rb_advance_wr (rb_copy_in c rb))"
  shows "rb_inv rb'" "rb_contents rb' = rb_contents rb @ [c]"
proof -
  have cnt: "unat (count rb + 1) = Suc (unat (count rb))"
    by (rule unat_Suc_less [OF assms(2)]) simp
  show "rb_inv rb'"
    using assms(1,2) cnt by (simp add: rb_inv_def rb'_def rb_stmt_defs depth_le_iff)
  have len: "length (slots rb) = 64" and "unat (wr_ptr rb) mod 64 = (unat (rd_ptr rb) + unat (count rb)) mod 64"
    using assms(1) unat_add_mod_dvd [OF dvd_depth, of "rd_ptr rb" "count rb"] by (simp_all add: rb_inv_def)
  then show "rb_contents rb' = rb_contents rb @ [c]"
    using ring_list_snoc [of "unat (count rb)" "slots rb" "unat (wr_ptr rb)" "unat (rd_ptr rb)" c] assms(2)
    by (simp add: rb_contents_def rb'_def rb_stmt_defs cnt unat_mod_depth)
qed

lemma rb_read_stmts:
  assumes "rb_inv rb" "count rb \<noteq> 0"
  defines "rb' \<equiv> rb_count_down (rb_advance_rd rb)"
  shows "rb_inv rb'" "rb_contents rb = rb_copy_out rb # rb_contents rb'"
proof -
  have cnt: "unat (count rb) = Suc (unat (count rb - 1))"
    using assms(2) by (simp add: unat_pred unat_gt_0)
  show "rb_inv rb'"
    using assms(1) cnt by (simp add: rb_inv_def rb'_def rb_stmt_defs depth_le_iff)
  have "length (slots rb) = 64" using assms(1) by (simp add: rb_inv_def)
  moreover have "unat (rd_ptr rb + 1) mod 64 = Suc (unat (rd_ptr rb)) mod 64"
    by (rule unat_Suc_mod_dvd [OF dvd_depth])
  ultimately show "rb_contents rb = rb_copy_out rb # rb_contents rb'"
    using ring_list_cong_pos [of "Suc (unat (rd_ptr rb))" "slots rb" "unat (rd_ptr rb + 1)"]
    by (simp add: rb_contents_def rb'_def rb_stmt_defs cnt ring_list_Suc unat_mod_depth)
qed

text \<open>The two bodies in the vocabulary of the contract.\<close>

definition rb_put :: "image_chunk_s \<Rightarrow> ring_buffer_s \<Rightarrow> bool \<times> ring_buffer_s" where
  "rb_put c rb = (case rb_write_body c rb of (r, rb') \<Rightarrow> (r = 0, rb'))"

definition rb_get :: "ring_buffer_s \<Rightarrow> image_chunk_s option \<times> ring_buffer_s" where
  "rb_get rb = (case rb_read_body rb of ((_, c), rb') \<Rightarrow> (c, rb'))"

interpretation rbq: bounded_fifo rb_put rb_get rb_contents rb_inv "\<lambda>_. 64"
proof (unfold_locales, goal_cases)
  case (1 s)
  then show ?case by (rule rb_contents_bound)
next
  case (2 s x)
  then show ?case
    using rb_write_stmts [of s x] by (simp add: rb_put_def rb_write_body_def depth_le_iff)
next
  case (3 s x)
  then show ?case by (simp add: rb_put_def rb_write_body_def depth_le_iff)
next
  case (4 s x xs)
  then have "count s \<noteq> 0" by (auto dest: arg_cong [of _ _ length])
  with 4 show ?case
    using rb_read_stmts [of s] by (simp add: rb_get_def rb_read_body_def)
next
  case (5 s)
  then have "unat (count s) = 0" by (metis length_rb_contents list.size(3))
  then show ?case by (simp add: rb_get_def rb_read_body_def unsigned_eq_0_iff)
qed

section \<open>Properties\<close>

text \<open>
  C6: The ring refines a bounded queue.  For any sequence of writes and reads, started in any state that satisfies the
  ring invariant, wherever the free-running pointers stand and also when they wrap around, the chunks
  delivered are in order those already in the ring followed by those accepted, the remaining
  ones are in the ring, and there are never more than 64.\<close>

theorem rb_refines_queue:
  assumes "rb_inv rb" "run rb_put rb_get ops rb = (acc, del, rb')"
  shows "rb_contents rb @ acc = del @ rb_contents rb' \<and> rb_inv rb' \<and> length (rb_contents rb') \<le> 64"
  by (rule rbq.run_fifo [OF assms])

text \<open>Pointers about to wrap: the ring is empty and the next chunk goes to slot 63.\<close>

theorem rb_refines_queue_witness:
  "\<exists>rb acc del rb'. rd_ptr rb = - 1 \<and> run rb_put rb_get [Put zero_chunk, Put zero_chunk, Get] rb = (acc, del, rb') \<and>
     acc = del @ rb_contents rb'"
proof -
  define rb where "rb = \<lparr>slots = replicate 64 zero_chunk, wr_ptr = - 1, rd_ptr = - 1, count = 0\<rparr>"
  obtain acc del rb' where r: "run rb_put rb_get [Put zero_chunk, Put zero_chunk, Get] rb = (acc, del, rb')"
    by (metis prod_cases3)
  have "rb_inv rb" "rb_contents rb = []" by (simp_all add: rb_def rb_inv_def rb_contents_def RB_DEPTH_def)
  with rb_refines_queue [OF this(1) r] have "acc = del @ rb_contents rb'" by simp
  moreover have "rd_ptr rb = - 1" by (simp add: rb_def)
  ultimately show ?thesis using r by blast
qed

lemma uncontended:
  assumes "kinv k" "NXSEM_IS_MUTEX (sems k a)" "semval (sems k a) = NXSEM_NO_MHOLDER"
  shows "with_rb_lock a body (k, rb) = (Some (fst (body rb)), k, snd (body rb))"
  using free_lock(1) [OF assms(2,3)] free_lock(2) [OF assms(2,3,1)]
  by (simp add: with_rb_lock_def locked_section_def case_prod_beta)

text \<open>
  C24: With the lock free, each call returns without blocking, leaves the kernel and the lock as they were, and
  its result tells the state of the queue: a write succeeds and appends unless 64 chunks are
  held, a read takes the oldest chunk unless there is none, and the three queries agree with the
  number of chunks held.  A null pointer is refused without taking the lock.\<close>

theorem rb_calls_uncontended:
  assumes "kinv k" "NXSEM_IS_MUTEX (sems k a)" "semval (sems k a) = NXSEM_NO_MHOLDER" "rb_inv rb"
  shows "(\<exists>rb'. rb_write a (Some c) (k, rb) = (Some (if length (rb_contents rb) < 64 then 0 else - 1), k, rb') \<and>
       rb_inv rb' \<and> rb_contents rb' = (if length (rb_contents rb) < 64 then rb_contents rb @ [c] else rb_contents rb)) \<and>
     (\<exists>rb'. rb_read a True (k, rb) =
         (Some (case rb_contents rb of [] \<Rightarrow> (- 1, None) | x # _ \<Rightarrow> (0, Some x)), k, rb') \<and>
       rb_inv rb' \<and> rb_contents rb' = tl (rb_contents rb)) \<and>
     rb_count a (k, rb) = (Some (int (length (rb_contents rb))), k, rb) \<and>
     rb_full a (k, rb) = (Some (if length (rb_contents rb) = 64 then 1 else 0), k, rb) \<and>
     rb_empty a (k, rb) = (Some (if rb_contents rb = [] then 1 else 0), k, rb) \<and>
     rb_write a None (k, rb) = (Some (- 1), k, rb) \<and> rb_read a False (k, rb) = (Some (- 1, None), k, rb)"
proof -
  note u = uncontended [OF assms(1,2,3)]
  have bound: "unat (count rb) \<le> 64" using assms(4) by (simp add: rb_inv_def depth_le_iff)
  have "sint (count rb) = int (unat (count rb))" using bound by (intro sint_small) simp
  moreover have "rb_contents rb = [] \<longleftrightarrow> count rb = 0"
    by (metis length_0_conv length_rb_contents unsigned_eq_0_iff)
  moreover have "(\<exists>rb'. rb_read a True (k, rb) =
         (Some (case rb_contents rb of [] \<Rightarrow> (- 1, None) | x # _ \<Rightarrow> (0, Some x)), k, rb') \<and>
       rb_inv rb' \<and> rb_contents rb' = tl (rb_contents rb))"
    using rb_read_stmts [OF assms(4)] assms(4) calculation(2)
    by (cases "count rb = 0") (simp_all add: rb_read_def u rb_read_body_def)
  moreover have "(\<exists>rb'. rb_write a (Some c) (k, rb) = (Some (if length (rb_contents rb) < 64 then 0 else - 1), k, rb') \<and>
       rb_inv rb' \<and> rb_contents rb' = (if length (rb_contents rb) < 64 then rb_contents rb @ [c] else rb_contents rb))"
    using rb_write_stmts [OF assms(4), of c] assms(4)
    by (simp add: rb_write_def u rb_write_body_def depth_le_iff)
  ultimately show ?thesis
    using bound by (simp add: u rb_count_def rb_full_def rb_empty_def rb_write_def rb_read_def depth_le_iff)
qed

theorem rb_calls_uncontended_witness:
  "\<exists>rb. rb_count 7 (rb_init 7 (demo_kernel, rb)) = (Some 0, rb_init 7 (demo_kernel, rb))"
proof -
  fix rb :: ring_buffer_s
  have init: "rb_init 7 (demo_kernel, rb) = (nxmutex_init 7 demo_kernel, snd (rb_init 7 (demo_kernel, rb)))"
    by (simp add: rb_init_def)
  have "rb_count 7 (nxmutex_init 7 demo_kernel, snd (rb_init 7 (demo_kernel, rb))) =
      (Some 0, nxmutex_init 7 demo_kernel, snd (rb_init 7 (demo_kernel, rb)))"
    using rb_calls_uncontended [OF kinv_mutex_init [OF demo_kinv demo_count(3)] mutex_init_is_mutex _
        rb_inv_init(1) [of 7 "(demo_kernel, rb)"], of 7 zero_chunk] rb_inv_init(2) [of 7 "(demo_kernel, rb)"]
    by (simp add: sems_mutex_init del: length_rb_contents)
  then show ?thesis using init by metis
qed

end
