(* ===== verification/Pipeline.thy ===== *)
theory Pipeline
  imports Ring_Buffer "HOL-Library.Sublist"
begin

text \<open>
  The ring under preemption.  Any number of tasks call \<^verbatim>\<open>rb_write\<close> and \<^verbatim>\<open>rb_read\<close>; a task can be
  preempted between any two statements of the critical sections, and while a chunk is being copied
  into a slot the slot may hold anything.  The lock is the kernel's mutex of \<open>NxMutex\<close>, with the
  scheduler below it.  The calls behave as if each took effect at one moment: what was read is, in
  order, what was written.
\<close>

section \<open>Tasks inside the calls\<close>

text \<open>The next statement of a task that is in \<^verbatim>\<open>rb_write\<close> or \<^verbatim>\<open>rb_read\<close>.\<close>

datatype stage =
    Idle
  | WaitW image_chunk_s | CheckW image_chunk_s | CopyW image_chunk_s | AdvanceW image_chunk_s | CountW image_chunk_s
  | WaitR | CheckR | CopyR | AdvanceR image_chunk_s | CountR image_chunk_s
  | Leave

text \<open>\<open>written\<close> and \<open>got\<close> record the chunks of the calls that took effect, in order.\<close>

record psys =
  lk :: msys
  ring :: ring_buffer_s
  stage_of :: "pid \<Rightarrow> stage"
  written :: "image_chunk_s list"
  got :: "image_chunk_s list"

abbreviation running :: "psys \<Rightarrow> pid" where
  "running S \<equiv> this_task (mk (lk S))"

text \<open>
  Where a call goes when the lock returned.  The code ignores the result of \<^verbatim>\<open>nxmutex_lock\<close>; the
  steps below are those of calls whose lock succeeds or blocks and then succeeds.  The lock of a
  task for which no signal is pending does not fail (\<open>lock_never_fails\<close>).
\<close>

definition enter :: "pid \<Rightarrow> kernel \<Rightarrow> stage \<Rightarrow> psys \<Rightarrow> psys" where
  "enter p k st S = S\<lparr>lk := \<lparr>mk = k, pc = (pc (lk S))(p := Inside)\<rparr>, stage_of := (stage_of S)(p := st)\<rparr>"

definition wait_lock :: "pid \<Rightarrow> kernel \<Rightarrow> stage \<Rightarrow> psys \<Rightarrow> psys" where
  "wait_lock p k st S = S\<lparr>lk := \<lparr>mk = k, pc = (pc (lk S))(p := Locking)\<rparr>, stage_of := (stage_of S)(p := st)\<rparr>"

definition goto :: "pid \<Rightarrow> stage \<Rightarrow> psys \<Rightarrow> psys" where
  "goto p st S = S\<lparr>stage_of := (stage_of S)(p := st)\<rparr>"

inductive pstep :: "nat \<Rightarrow> psys \<Rightarrow> psys \<Rightarrow> bool" for a where
  w_lock: "p = running S \<Longrightarrow> p \<noteq> idle_pid \<Longrightarrow> stage_of S p = Idle \<Longrightarrow>
    nxmutex_lock a (mk (lk S)) = (Returned OK, k') \<Longrightarrow> pstep a S (enter p k' (CheckW c) S)"
| w_block: "p = running S \<Longrightarrow> p \<noteq> idle_pid \<Longrightarrow> stage_of S p = Idle \<Longrightarrow>
    nxmutex_lock a (mk (lk S)) = (Blocked, k') \<Longrightarrow> pstep a S (wait_lock p k' (WaitW c) S)"
| w_resume: "p = running S \<Longrightarrow> stage_of S p = WaitW c \<Longrightarrow>
    nxsem_wait_resume a p (mk (lk S)) = (OK, k') \<Longrightarrow> pstep a S (enter p k' (CheckW c) S)"
| w_check: "p = running S \<Longrightarrow> stage_of S p = CheckW c \<Longrightarrow>
    pstep a S (goto p (if RB_DEPTH \<le> count (ring S) then Leave else CopyW c) S)"
| w_copying: "p = running S \<Longrightarrow> stage_of S p = CopyW c \<Longrightarrow>
    pstep a S (S\<lparr>ring := rb_copy_in partial (ring S)\<rparr>)"
| w_copy: "p = running S \<Longrightarrow> stage_of S p = CopyW c \<Longrightarrow>
    pstep a S (goto p (AdvanceW c) (S\<lparr>ring := rb_copy_in c (ring S)\<rparr>))"
| w_advance: "p = running S \<Longrightarrow> stage_of S p = AdvanceW c \<Longrightarrow>
    pstep a S (goto p (CountW c) (S\<lparr>ring := rb_advance_wr (ring S)\<rparr>))"
| w_count: "p = running S \<Longrightarrow> stage_of S p = CountW c \<Longrightarrow>
    pstep a S (goto p Leave (S\<lparr>ring := rb_count_up (ring S), written := written S @ [c]\<rparr>))"
| r_lock: "p = running S \<Longrightarrow> p \<noteq> idle_pid \<Longrightarrow> stage_of S p = Idle \<Longrightarrow>
    nxmutex_lock a (mk (lk S)) = (Returned OK, k') \<Longrightarrow> pstep a S (enter p k' CheckR S)"
| r_block: "p = running S \<Longrightarrow> p \<noteq> idle_pid \<Longrightarrow> stage_of S p = Idle \<Longrightarrow>
    nxmutex_lock a (mk (lk S)) = (Blocked, k') \<Longrightarrow> pstep a S (wait_lock p k' WaitR S)"
| r_resume: "p = running S \<Longrightarrow> stage_of S p = WaitR \<Longrightarrow>
    nxsem_wait_resume a p (mk (lk S)) = (OK, k') \<Longrightarrow> pstep a S (enter p k' CheckR S)"
| r_check: "p = running S \<Longrightarrow> stage_of S p = CheckR \<Longrightarrow>
    pstep a S (goto p (if count (ring S) = 0 then Leave else CopyR) S)"
| r_copy: "p = running S \<Longrightarrow> stage_of S p = CopyR \<Longrightarrow>
    pstep a S (goto p (AdvanceR (rb_copy_out (ring S))) S)"
| r_advance: "p = running S \<Longrightarrow> stage_of S p = AdvanceR c \<Longrightarrow>
    pstep a S (goto p (CountR c) (S\<lparr>ring := rb_advance_rd (ring S)\<rparr>))"
| r_count: "p = running S \<Longrightarrow> stage_of S p = CountR c \<Longrightarrow>
    pstep a S (goto p Leave (S\<lparr>ring := rb_count_down (ring S), got := got S @ [c]\<rparr>))"
| p_unlock: "p = running S \<Longrightarrow> stage_of S p = Leave \<Longrightarrow> nxmutex_unlock a (mk (lk S)) = (r, k') \<Longrightarrow>
    pstep a S (S\<lparr>lk := \<lparr>mk = k', pc = (pc (lk S))(p := Outside)\<rparr>, stage_of := (stage_of S)(p := Idle)\<rparr>)"
| p_kernel: "mstep a (lk S) M \<Longrightarrow> pc M = pc (lk S) \<Longrightarrow> pstep a S (S\<lparr>lk := M\<rparr>)"

inductive_cases pstepE: "pstep a S S'"

lemma lock_never_fails:
  assumes "NXSEM_IS_MUTEX (sems k a)" "\<not> sigpending (tcbs k (this_task k))"
  shows "fst (nxmutex_lock a k) = Returned OK \<or> fst (nxmutex_lock a k) = Blocked"
  using assms by (auto simp: nxmutex_lock_def nxsem_wait_def nxsem_wait_slow_def Let_def
      split: if_splits option.splits)

section \<open>The invariant\<close>

fun stage_pc :: "stage \<Rightarrow> mpc" where
  "stage_pc Idle = Outside"
| "stage_pc (WaitW _) = Locking"
| "stage_pc WaitR = Locking"
| "stage_pc _ = Inside"

text \<open>
  What holds of the ring while a task is at a stage inside; \<open>q\<close> is the content of the ring as
  the calls that took effect left it.
\<close>

fun ring_at :: "stage \<Rightarrow> ring_buffer_s \<Rightarrow> image_chunk_s list \<Rightarrow> bool" where
  "ring_at (CopyW c) rb q \<longleftrightarrow> rb_inv rb \<and> rb_contents rb = q \<and> unat (count rb) < 64"
| "ring_at (AdvanceW c) rb q \<longleftrightarrow>
     (\<exists>rb0. rb_inv rb0 \<and> rb_contents rb0 = q \<and> unat (count rb0) < 64 \<and> rb = rb_copy_in c rb0)"
| "ring_at (CountW c) rb q \<longleftrightarrow>
     (\<exists>rb0. rb_inv rb0 \<and> rb_contents rb0 = q \<and> unat (count rb0) < 64 \<and> rb = rb_advance_wr (rb_copy_in c rb0))"
| "ring_at CopyR rb q \<longleftrightarrow> rb_inv rb \<and> rb_contents rb = q \<and> count rb \<noteq> 0"
| "ring_at (AdvanceR c) rb q \<longleftrightarrow> rb_inv rb \<and> rb_contents rb = q \<and> count rb \<noteq> 0 \<and> c = rb_copy_out rb"
| "ring_at (CountR c) rb q \<longleftrightarrow>
     (\<exists>rb0. rb_inv rb0 \<and> rb_contents rb0 = q \<and> count rb0 \<noteq> 0 \<and> c = rb_copy_out rb0 \<and> rb = rb_advance_rd rb0)"
| "ring_at _ rb q \<longleftrightarrow> rb_inv rb \<and> rb_contents rb = q"

definition queued :: "psys \<Rightarrow> image_chunk_s list \<Rightarrow> bool" where
  "queued S q \<longleftrightarrow> written S = got S @ q \<and> length q \<le> 64 \<and>
     (\<forall>p. stage_pc (stage_of S p) = Inside \<longrightarrow> ring_at (stage_of S p) (ring S) q) \<and>
     ((\<forall>p. stage_pc (stage_of S p) \<noteq> Inside) \<longrightarrow> rb_inv (ring S) \<and> rb_contents (ring S) = q)"

definition pinv :: "nat \<Rightarrow> psys \<Rightarrow> bool" where
  "pinv a S \<longleftrightarrow> minv a (lk S) \<and> (\<forall>p. pc (lk S) p = stage_pc (stage_of S p)) \<and> (\<exists>q. queued S q)"

lemma ring_at_bound: "ring_at st rb q \<Longrightarrow> length q \<le> 64"
  by (cases st) (auto simp: rb_inv_def depth_le_iff)

lemma pinv_alone:
  assumes "pinv a S" "stage_pc (stage_of S p) = Inside" "stage_pc (stage_of S q) = Inside"
  shows "q = p"
  using assms mtx.exclusive [of a "lk S" q p] by (simp add: pinv_def)

text \<open>A statement inside the critical section: only the ring, the histories and the task's own stage change.\<close>

lemma pinv_inside:
  assumes inv: "pinv a S" and p: "stage_pc (stage_of S p) = Inside" "stage_pc st = Inside"
    and at: "\<And>q. written S = got S @ q \<Longrightarrow> ring_at (stage_of S p) (ring S) q \<Longrightarrow>
      \<exists>q'. written S' = got S' @ q' \<and> ring_at st (ring S') q'"
    and S': "lk S' = lk S" "stage_of S' = (stage_of S)(p := st)"
  shows "pinv a S'"
proof -
  obtain q where "queued S q" using inv by (auto simp: pinv_def)
  then obtain q' where q': "written S' = got S' @ q'" "ring_at st (ring S') q'"
    using at [of q] p(1) by (auto simp: queued_def)
  have alone: "r = p" if "stage_pc (stage_of S' r) = Inside" for r
    using pinv_alone [OF inv p(1), of r] that p S'(2) by (cases "r = p") simp_all
  have "ring_at (stage_of S' r) (ring S') q'" if "stage_pc (stage_of S' r) = Inside" for r
    using alone [OF that] q'(2) S'(2) by simp
  moreover have "stage_pc (stage_of S' p) = Inside" using p S'(2) by simp
  ultimately have "queued S' q'"
    unfolding queued_def using q'(1) ring_at_bound [OF q'(2)] by blast
  then show ?thesis using inv p S' by (auto simp: pinv_def)
qed

lemma pinv_goto:
  assumes "pinv a S" "stage_pc (stage_of S p) = Inside" "stage_pc st = Inside"
    "\<And>q. ring_at (stage_of S p) (ring S) q \<Longrightarrow> ring_at st rb' q"
  shows "pinv a (goto p st (S\<lparr>ring := rb'\<rparr>))"
  by (rule pinv_inside [OF assms(1,2,3)]) (use assms(4) in \<open>auto simp: goto_def\<close>)

text \<open>A task that gets the lock finds the ring at rest.\<close>

lemma pinv_enter:
  assumes inv: "pinv a S" and p: "stage_pc (stage_of S p) \<noteq> Inside"
    and st: "stage_pc st = Inside" "\<And>rb q. rb_inv rb \<Longrightarrow> rb_contents rb = q \<Longrightarrow> ring_at st rb q"
    and step: "mstep a (lk S) \<lparr>mk = k', pc = (pc (lk S))(p := Inside)\<rparr>"
  shows "pinv a (enter p k' st S)"
proof -
  have m: "minv a (lk S)" and pcs: "\<And>q. pc (lk S) q = stage_pc (stage_of S q)"
    using inv by (simp_all add: pinv_def)
  have free: "stage_pc (stage_of S q) \<noteq> Inside" for q
    using mtx.acquired_free [OF m step, of p q] p pcs by simp
  obtain q where "queued S q" using inv by (auto simp: pinv_def)
  with free st have "queued (enter p k' st S) q"
    by (auto simp: queued_def enter_def split: if_splits)
  moreover have "minv a \<lparr>mk = k', pc = (pc (lk S))(p := Inside)\<rparr>" by (rule mstep_minv [OF step m])
  ultimately show ?thesis using st(1) pcs by (auto simp: pinv_def enter_def)
qed

lemma pinv_lock_change:
  assumes "pinv a S" "minv a M" "\<And>q. pc M q = stage_pc (stage_of S' q)" "lk S' = M"
    "ring S' = ring S" "written S' = written S" "got S' = got S"
    "\<And>q. stage_pc (stage_of S' q) = Inside \<longleftrightarrow> stage_pc (stage_of S q) = Inside"
    "\<And>q. stage_pc (stage_of S q) = Inside \<Longrightarrow> stage_of S' q = stage_of S q"
  shows "pinv a S'"
proof -
  obtain q where "queued S q" using assms(1) by (auto simp: pinv_def)
  then have "queued S' q" using assms(5-9) by (simp add: queued_def)
  then show ?thesis using assms(2,3,4) by (auto simp: pinv_def)
qed

lemma pinv_unlock:
  assumes inv: "pinv a S" and p: "p = running S" "stage_of S p = Leave"
    and eq: "nxmutex_unlock a (mk (lk S)) = (r, k')"
  shows "pinv a (S\<lparr>lk := \<lparr>mk = k', pc = (pc (lk S))(p := Outside)\<rparr>, stage_of := (stage_of S)(p := Idle)\<rparr>)"
    (is "pinv a ?S'")
proof -
  have m: "minv a (lk S)" and pcs: "\<And>q. pc (lk S) q = stage_pc (stage_of S q)"
    using inv by (simp_all add: pinv_def)
  have "mstep a (lk S) \<lparr>mk = k', pc = (pc (lk S))(p := Outside)\<rparr>"
    by (rule m_unlock [OF p(1) _ eq]) (simp add: pcs p(2))
  then have "minv a (lk ?S')" using mstep_minv m by simp
  moreover have free: "stage_pc (stage_of ?S' q) \<noteq> Inside" for q
    using mtx.released_free [OF m, of p "lk ?S'" q] pcs p(2) by (auto split: if_splits)
  moreover obtain q where q: "queued S q" using inv by (auto simp: pinv_def)
  then have "ring_at Leave (ring S) q" using p(2) by (metis queued_def stage_pc.simps(12))
  with q free have "queued ?S' q" by (simp add: queued_def)
  ultimately show ?thesis using pcs by (auto simp: pinv_def)
qed

lemma goto_same: "S\<lparr>ring := ring S\<rparr> = S" "stage_of S p = st \<Longrightarrow> goto p st (S\<lparr>ring := rb\<rparr>) = S\<lparr>ring := rb\<rparr>"
  by (cases S, simp) (cases S, auto simp: goto_def)

lemma pinv_wait:
  assumes inv: "pinv a S" and p: "stage_of S p = Idle" "stage_pc st = Locking"
    and step: "mstep a (lk S) \<lparr>mk = k', pc = (pc (lk S))(p := Locking)\<rparr>"
  shows "pinv a (wait_lock p k' st S)"
proof (rule pinv_lock_change [OF inv])
  show "minv a \<lparr>mk = k', pc = (pc (lk S))(p := Locking)\<rparr>"
    using inv by (intro mstep_minv [OF step]) (simp add: pinv_def)
qed (use inv p in \<open>auto simp: pinv_def wait_lock_def split: if_splits\<close>)

text \<open>The statements of a writer and of a reader inside.\<close>

lemma ring_at_writer:
  "ring_at (CheckW c) rb q \<Longrightarrow> ring_at (if RB_DEPTH \<le> count rb then Leave else CopyW c) rb q"
  "ring_at (CopyW c) rb q \<Longrightarrow> ring_at (CopyW c) (rb_copy_in d rb) q"
  "ring_at (CopyW c) rb q \<Longrightarrow> ring_at (AdvanceW c) (rb_copy_in c rb) q"
  "ring_at (AdvanceW c) rb q \<Longrightarrow> ring_at (CountW c) (rb_advance_wr rb) q"
  "ring_at (CountW c) rb q \<Longrightarrow> ring_at Leave (rb_count_up rb) (q @ [c])"
  by (auto simp: depth_le_iff rb_copy_in_contents rb_write_stmts)

lemma ring_at_reader:
  "ring_at CheckR rb q \<Longrightarrow> ring_at (if count rb = 0 then Leave else CopyR) rb q"
  "ring_at CopyR rb q \<Longrightarrow> ring_at (AdvanceR (rb_copy_out rb)) rb q"
  "ring_at (AdvanceR c) rb q \<Longrightarrow> ring_at (CountR c) (rb_advance_rd rb) q"
  "ring_at (CountR c) rb q \<Longrightarrow> \<exists>q'. q = c # q' \<and> ring_at Leave (rb_count_down rb) q'"
  using rb_read_stmts by auto

lemma pstep_pinv:
  assumes "pstep a S S'" "pinv a S"
  shows "pinv a S'"
proof -
  have pcs: "\<And>q. pc (lk S) q = stage_pc (stage_of S q)" using assms(2) by (simp add: pinv_def)
  from assms(1) show ?thesis
  proof cases
    case (w_lock p k' c)
    then show ?thesis
      using pinv_enter [OF assms(2), of p "CheckW c" k'] m_lock_ok [of p "lk S" a k'] pcs [of p] by simp
  next
    case (w_block p k' c)
    then show ?thesis
      using pinv_wait [OF assms(2), of p "WaitW c" k'] m_lock_block [of p "lk S" a k'] pcs [of p] by simp
  next
    case (w_resume p c k')
    then show ?thesis
      using pinv_enter [OF assms(2), of p "CheckW c" k'] m_resume [of p "lk S" a OK k'] pcs [of p] by simp
  next
    case (r_lock p k')
    then show ?thesis
      using pinv_enter [OF assms(2), of p CheckR k'] m_lock_ok [of p "lk S" a k'] pcs [of p] by simp
  next
    case (r_block p k')
    then show ?thesis
      using pinv_wait [OF assms(2), of p WaitR k'] m_lock_block [of p "lk S" a k'] pcs [of p] by simp
  next
    case (r_resume p k')
    then show ?thesis
      using pinv_enter [OF assms(2), of p CheckR k'] m_resume [of p "lk S" a OK k'] pcs [of p] by simp
  next
    case (w_check p c)
    then show ?thesis
      using pinv_goto [OF assms(2), of p _ "ring S"] ring_at_writer(1) [of c "ring S"] by (simp add: goto_same)
  next
    case (w_copying p c d)
    then show ?thesis
      using pinv_goto [OF assms(2), of p "CopyW c" "rb_copy_in d (ring S)"] ring_at_writer(2) [of c "ring S" _ d]
      by (simp add: goto_same del: ring_at.simps)
  next
    case (w_copy p c)
    then show ?thesis
      using pinv_goto [OF assms(2), of p "AdvanceW c" "rb_copy_in c (ring S)"] ring_at_writer(3) [of c "ring S"]
      by (simp del: ring_at.simps)
  next
    case (w_advance p c)
    then show ?thesis
      using pinv_goto [OF assms(2), of p "CountW c" "rb_advance_wr (ring S)"] ring_at_writer(4) [of c "ring S"]
      by (simp del: ring_at.simps)
  next
    case (w_count p c)
    then show ?thesis
      using ring_at_writer(5) [of c "ring S"]
      by (intro pinv_inside [OF assms(2), of p Leave]) (auto simp: goto_def simp del: ring_at.simps)
  next
    case (r_check p)
    then show ?thesis
      using pinv_goto [OF assms(2), of p _ "ring S"] ring_at_reader(1) [of "ring S"] by (simp add: goto_same)
  next
    case (r_copy p)
    then show ?thesis
      using pinv_goto [OF assms(2), of p _ "ring S"] ring_at_reader(2) [of "ring S"]
      by (simp add: goto_same del: ring_at.simps)
  next
    case (r_advance p c)
    then show ?thesis
      using pinv_goto [OF assms(2), of p "CountR c" "rb_advance_rd (ring S)"] ring_at_reader(3) [of c "ring S"]
      by (simp del: ring_at.simps)
  next
    case (r_count p c)
    then show ?thesis
      using ring_at_reader(4) [of c "ring S"]
      by (intro pinv_inside [OF assms(2), of p Leave]) (fastforce simp: goto_def simp del: ring_at.simps)+
  next
    case (p_unlock p r k')
    then show ?thesis using pinv_unlock [OF assms(2), of p r k'] by simp
  next
    case (p_kernel M)
    then show ?thesis
      using mstep_minv [of a "lk S" M] assms(2) pcs
      by (intro pinv_lock_change [OF assms(2), of M]) (auto simp: pinv_def)
  qed
qed

definition pipeline_start :: "nat \<Rightarrow> kernel \<times> ring_buffer_s \<Rightarrow> psys" where
  "pipeline_start a s =
     (case rb_init a s of
        (k', rb) \<Rightarrow> \<lparr>lk = \<lparr>mk = k', pc = (\<lambda>_. Outside)\<rparr>, ring = rb, stage_of = (\<lambda>_. Idle), written = [], got = []\<rparr>)"

lemma pinv_start:
  assumes "kinv k" "waitlist (sems k a) = []"
  shows "pinv a (pipeline_start a (k, rb))"
proof -
  have "queued (pipeline_start a (k, rb)) []"
    using rb_inv_init [of a "(k, rb)"]
    by (simp add: queued_def pipeline_start_def case_prod_beta)
  then show ?thesis
    using minv_mutex_init [OF assms] by (auto simp: pinv_def pipeline_start_def rb_init_def)
qed

lemma psteps_pinv: "(pstep a)\<^sup>*\<^sup>* S S' \<Longrightarrow> pinv a S \<Longrightarrow> pinv a S'"
  by (induction rule: rtranclp_induct) (auto dest: pstep_pinv)



section \<open>A reader before the initialisation\<close>

text \<open>
  Before \<^verbatim>\<open>rb_init\<close> the lock is the zero-initialised static variable: not a mutex but a counting
  semaphore with count 0.
\<close>

definition static_lock :: sem_t where
  "static_lock = \<lparr>semval = 0, flags = 0, waitlist = []\<rparr>"

text \<open>
  C30: A task that reads from the ring before \<^verbatim>\<open>rb_init\<close> has run blocks on the zero-initialised lock,
  and \<^verbatim>\<open>rb_init\<close> then empties the list it waits in: the task is left waiting for a semaphore, in no list of the
  scheduler and in no wait list, so that no post can ever wake it.\<close>

theorem read_before_init_strands:
  assumes "kinv k" "sems k a = static_lock" "this_task k = p" "p \<noteq> idle_pid" "\<not> sigpending (tcbs k p)"
    "rb_read a True (k, rb) = (r, k1, rb1)" "rb_init a (k1, rb1) = (k2, rb2)"
  shows "r = None \<and> task_state (tcbs k2 p) = TSTATE_WAIT_SEM \<and> unlisted k2 p \<and>
    (\<forall>b. p \<notin> set (waitlist (sems k2 b)))"
proof -
  have inv: "sem_inv k" using assms(1) by (simp add: kinv_def)
  have m: "\<not> NXSEM_IS_MUTEX (sems k a)" by (simp add: assms(2) static_lock_def NXSEM_IS_MUTEX_def)
  let ?k0 = "set_semval a (semval (sems k a) - 1) k"
  have w: "nxsem_wait a k = (Blocked, block_on_sem a ?k0)"
    using wait_counting_cases [OF inv m] assms(2,3,5) by (simp add: Let_def static_lock_def semcount_def)
  then have r: "r = None" "k1 = block_on_sem a ?k0"
    using assms(6) by (simp_all add: rb_read_def with_rb_lock_def nxmutex_lock_def)
  have "kinv k1" using kinv_wait [OF assms(1), of a] assms(3,4) w r by simp
  then have k1: "sem_struct k1" "sched_core k1" by (rule kinv_struct)+
  have run: "this_task ?k0 \<noteq> idle_pid" "this_task ?k0 = p" and st0: "sem_struct ?k0"
    using assms(3,4) kinv_struct(1) [OF assms(1)] by simp_all
  have ts: "task_state (tcbs k1 p) = TSTATE_WAIT_SEM"
    using struct_block(3) [OF st0 run(1), of a] run(2) r by simp
  have w1: "p \<in> set (waitlist (sems k1 a))"
    using struct_block(2) [OF st0 run(1), of a] run(2) r by simp
  then have only: "p \<notin> set (waitlist (sems k1 b))" if "b \<noteq> a" for b
    using k1(1) that by (auto simp: sem_struct_def waits_ok_def)
  have k2: "k2 = upd_sem a (\<lambda>_. \<lparr>semval = NXSEM_NO_MHOLDER, flags = SEM_TYPE_MUTEX, waitlist = []\<rparr>) k1"
    using assms(7) by (simp add: rb_init_def mutex_init_eq)
  have "unlisted k1 p" by (rule waiting_unlisted(1) [OF k1(1) w1])
  then show ?thesis using r ts only by (simp add: k2 unlisted_def upd_sem_def)
qed

theorem read_before_init_strands_witness:
  "\<exists>k rb. sems k 7 = static_lock \<and>
     (case rb_read 7 True (k, rb) of (r, s) \<Rightarrow> r = None \<and> unlisted (fst (rb_init 7 s)) 1)"
proof -
  fix rb :: ring_buffer_s
  have z: "sems demo_kernel 7 = static_lock"
    by (simp add: demo_kernel_def static_lock_def)
  obtain r k1 rb1 where 1: "rb_read 7 True (demo_kernel, rb) = (r, k1, rb1)" by (metis prod_cases3)
  obtain k2 rb2 where 2: "rb_init 7 (k1, rb1) = (k2, rb2)" by fastforce
  from read_before_init_strands [OF demo_kinv z demo_count(4) _ demo_count(5) 1 2]
  have "r = None" "unlisted k2 1" by (simp_all add: idle_pid_def)
  with z 1 2 show ?thesis by (intro exI [of _ demo_kernel] exI [of _ rb]) simp
qed

section \<open>A lock that fails\<close>

text \<open>
  C31: The calls ignore the result of \<^verbatim>\<open>nxmutex_lock\<close>.  When a task with a pending signal writes while another
  task is inside, its lock fails with \<^verbatim>\<open>EINTR\<close>, it changes the ring all the same, and its unlock frees the
  mutex that the other task holds.\<close>

theorem write_without_lock:
  assumes "NXSEM_IS_MUTEX (sems k a)" "nxmutex_get_holder a k = Some q" "sigpending (tcbs k (this_task k))"
    "\<not> NXSEM_MBLOCKING (semval (sems k a))" "rb_write a (Some c) (k, rb) = (r, k', rb')"
  shows "fst (nxmutex_lock a k) = Returned (Inl EINTR) \<and> (r, rb') = map_prod Some id (rb_write_body c rb) \<and>
    nxmutex_get_holder a k' = None"
proof -
  have "semval (sems k a) \<noteq> NXSEM_NO_MHOLDER"
    using assms(2) by (metis NO_MHOLDER_free(1) get_holder_of holder_of_simps(4) option.distinct(1))
  then have lock: "nxmutex_lock a k = (Returned (Inl EINTR), k)"
    using assms(1,3) by (simp add: nxmutex_lock_def nxsem_wait_def nxsem_wait_slow_def Let_def)
  have "nxmutex_unlock a k = (OK, set_semval a NXSEM_NO_MHOLDER k)"
    using assms(1,4) by (simp add: nxmutex_unlock_def nxsem_post_def)
  moreover have "holder_of NXSEM_NO_MHOLDER = None" using NO_MHOLDER_free(1) by simp
  ultimately show ?thesis
    using assms(5) lock
    by (auto simp: rb_write_def with_rb_lock_def locked_section_def get_holder_of split: prod.splits)
qed

theorem write_without_lock_witness:
  "\<exists>k rb. nxmutex_get_holder 7 k = Some 2 \<and> this_task k = 1 \<and>
     nxmutex_get_holder 7 (fst (snd (rb_write 7 (Some zero_chunk) (k, rb)))) = None"
proof -
  fix rb :: ring_buffer_s
  define k where "k = upd_tcb 1 (\<lambda>c. c\<lparr>sigpending := True\<rparr>) (demo_held 2)"
  have sel: "sems k = sems (demo_held 2)" "this_task k = 1" "sigpending (tcbs k 1)"
    using demo_held_sel(4) [of 2] by (simp_all add: k_def)
  have h: "nxmutex_get_holder 7 k = Some 2" "\<not> NXSEM_MBLOCKING (semval (sems k 7))"
    using holder_of_simps(2) [of 2] holder_not_blocking [of 2] by (simp_all add: get_holder_of sel demo_held_sel)
  obtain r k' rb' where w: "rb_write 7 (Some zero_chunk) (k, rb) = (r, k', rb')" by (metis prod_cases3)
  show ?thesis
    using write_without_lock [OF _ h(1) _ h(2) w] demo_held_sel(1) [of 2] sel h(1) w
    by (intro exI [of _ k] exI [of _ rb]) simp
qed

end
