(* ===== verification/Camera.thy ===== *)
theory Camera
  imports Ring_Buffer
begin

text \<open>
  The camera application (\<^verbatim>\<open>apps/examples/camera_MSN2/camera_MSN2.c\<close>): the UART protocol with the
  camera board, the SPI transfer of the picture and its division into chunks for the ring.

  The board is the environment.  \<open>uin\<close> lists the outcomes of the successive one-byte reads of the
  non-blocking UART: \<open>Some b\<close> when a byte is there, \<open>None\<close> when the read does not return 1; after
  the list the line is silent.  \<open>spi_stream\<close> gives the byte the board shifts out at each position.
  \<open>slept\<close> adds up the microseconds of the calls of \<^verbatim>\<open>usleep\<close>.  Console output is left out; where a
  \<^verbatim>\<open>printf\<close> reads memory the read is there.
\<close>

section \<open>State\<close>

definition CMD_HANDSHAKE :: u8 where "CMD_HANDSHAKE = 0x01"
definition CMD_CAPTURE :: u8 where "CMD_CAPTURE = 0x02"
definition ACK_BYTE :: u8 where "ACK_BYTE = 0xAA"
definition IMG_BUF_SIZE :: nat where "IMG_BUF_SIZE = 40000"
definition SPI_XFER_SIZE :: nat where "SPI_XFER_SIZE = CHUNK_SIZE"
definition SPI_SYNC_BYTES :: nat where "SPI_SYNC_BYTES = 1024"
definition META_BUF_SIZE :: nat where "META_BUF_SIZE = 128"
definition HANDSHAKE_TRIES :: nat where "HANDSHAKE_TRIES = 5"
definition HANDSHAKE_POLLS :: nat where "HANDSHAKE_POLLS = 50"
definition ACK_POLLS :: nat where "ACK_POLLS = 300"
definition ACK_POLL_US :: nat where "ACK_POLL_US = 10000"
definition SIZE_POLLS :: nat where "SIZE_POLLS = 50"
definition SIZE_POLL_US :: nat where "SIZE_POLL_US = 10000"
definition SPI_CS_DELAY_US :: nat where "SPI_CS_DELAY_US = 25000"

lemmas camera_consts = CMD_HANDSHAKE_def CMD_CAPTURE_def ACK_BYTE_def IMG_BUF_SIZE_def SPI_XFER_SIZE_def
  SPI_SYNC_BYTES_def META_BUF_SIZE_def HANDSHAKE_TRIES_def HANDSHAKE_POLLS_def ACK_POLLS_def
  ACK_POLL_US_def SIZE_POLLS_def SIZE_POLL_US_def SPI_CS_DELAY_US_def CHUNK_SIZE_def

text \<open>\<open>pushed\<close> has the chunks given to \<^verbatim>\<open>rb_push\<close> since \<^verbatim>\<open>rb_init\<close>, in order.\<close>

record cam_s =
  uin :: "u8 option list"
  uout :: "u8 list"
  uart_open :: bool
  slept :: nat
  spi_stream :: "nat \<Rightarrow> u8"
  spi_pos :: nat
  spi_selected :: bool
  image_buf :: "u8 list"
  meta_buf :: "u8 list"
  pushed :: "image_chunk_s list"

section \<open>UART helpers\<close>

fun uart_read :: "cam_s \<Rightarrow> u8 option \<times> cam_s" where
  "uart_read s = (case uin s of [] \<Rightarrow> (None, s) | x # xs \<Rightarrow> (x, s\<lparr>uin := xs\<rparr>))"

definition usleep :: "nat \<Rightarrow> cam_s \<Rightarrow> cam_s" where
  "usleep us s = s\<lparr>slept := slept s + us\<rparr>"

definition uart_write_byte :: "u8 \<Rightarrow> cam_s \<Rightarrow> cam_s" where
  "uart_write_byte v s = s\<lparr>uout := uout s @ [v]\<rparr>"

fun uart_read_byte :: "nat \<Rightarrow> nat \<Rightarrow> cam_s \<Rightarrow> u8 option \<times> cam_s" where
  "uart_read_byte 0 delay_us s = (None, s)"
| "uart_read_byte (Suc retries) delay_us s =
     (case uart_read s of
        (Some v, s') \<Rightarrow> (Some v, s')
      | (None, s') \<Rightarrow> uart_read_byte retries delay_us (if delay_us > 0 then usleep delay_us s' else s'))"

text \<open>
  Whether all bytes came, and the bytes stored in \<^verbatim>\<open>buf\<close>, also those before a timeout; the callers
  put them where their \<^verbatim>\<open>buf\<close> is.
\<close>

fun uart_read_exact :: "nat \<Rightarrow> nat \<Rightarrow> nat \<Rightarrow> cam_s \<Rightarrow> (bool \<times> u8 list) \<times> cam_s" where
  "uart_read_exact 0 retries delay_us s = ((True, []), s)"
| "uart_read_exact (Suc n) retries delay_us s =
     (case uart_read_byte retries delay_us s of
        (None, s') \<Rightarrow> ((False, []), s')
      | (Some v, s') \<Rightarrow>
          (case uart_read_exact n retries delay_us s' of
             ((ok, vs), s'') \<Rightarrow> ((ok, v # vs), s'')))"

text \<open>Reading stops at the first read that does not return 1.\<close>

fun flush_in :: "u8 option list \<Rightarrow> u8 option list" where
  "flush_in (Some _ # xs) = flush_in xs"
| "flush_in (None # xs) = xs"
| "flush_in [] = []"

definition uart_flush :: "cam_s \<Rightarrow> cam_s" where
  "uart_flush s = s\<lparr>uin := flush_in (uin s)\<rparr>"

section \<open>Handshake\<close>

text \<open>The polls of one attempt.\<close>

fun handshake_poll :: "nat \<Rightarrow> cam_s \<Rightarrow> bool \<times> cam_s" where
  "handshake_poll 0 s = (False, s)"
| "handshake_poll (Suc p) s =
     (case uart_read_byte 1 0 s of
        (r, s') \<Rightarrow> if r = Some ACK_BYTE then (True, uart_flush s')
                  else handshake_poll p (usleep 100000 s'))"

fun handshake_tries :: "nat \<Rightarrow> cam_s \<Rightarrow> bool \<times> cam_s" where
  "handshake_tries 0 s = (False, s)"
| "handshake_tries (Suc n) s =
     (case handshake_poll HANDSHAKE_POLLS (uart_write_byte CMD_HANDSHAKE (uart_flush s)) of
        (True, s') \<Rightarrow> (True, s')
      | (False, s') \<Rightarrow> handshake_tries n s')"

definition uart_handshake :: "cam_s \<Rightarrow> int \<times> cam_s" where
  "uart_handshake s = (case handshake_tries HANDSHAKE_TRIES s of (ok, s') \<Rightarrow> (if ok then 0 else - 1, s'))"

section \<open>SPI transfer\<close>

definition SPI_EXCHANGE :: "nat \<Rightarrow> cam_s \<Rightarrow> u8 list \<times> cam_s" where
  "SPI_EXCHANGE n s =
     (map (spi_stream s) [spi_pos s..<spi_pos s + n], s\<lparr>spi_pos := spi_pos s + n\<rparr>)"

function discard_sync :: "nat \<Rightarrow> cam_s \<Rightarrow> cam_s" where
  "discard_sync remaining s =
     (if remaining = 0 then s
      else (let xfer = (if remaining < SPI_XFER_SIZE then remaining else SPI_XFER_SIZE)
            in discard_sync (remaining - xfer) (snd (SPI_EXCHANGE xfer s))))"
  by pat_completeness auto
termination by (relation "measure fst") (auto simp: camera_consts Let_def)

function read_blocks :: "nat \<Rightarrow> nat \<Rightarrow> cam_s \<Rightarrow> cam_s" where
  "read_blocks remaining offset s =
     (if remaining = 0 then s
      else (let xfer = (if remaining < SPI_XFER_SIZE then remaining else SPI_XFER_SIZE);
                (rx, s') = SPI_EXCHANGE xfer s
            in read_blocks (remaining - xfer) (offset + xfer)
                 (s'\<lparr>image_buf := memcpy_at (image_buf s') offset rx\<rparr>)))"
  by pat_completeness auto
termination by (relation "measure fst") (auto simp: camera_consts Let_def)

declare discard_sync.simps [simp del] read_blocks.simps [simp del]

definition spi_read_image :: "u32 \<Rightarrow> cam_s \<Rightarrow> cam_s" where
  "spi_read_image img_size s =
     (let s1 = s\<lparr>spi_selected := True\<rparr>;
          s2 = discard_sync SPI_SYNC_BYTES s1;
          s3 = read_blocks (unat img_size) 0 s2
      in s3\<lparr>spi_selected := False\<rparr>)"

section \<open>Chunks\<close>

text \<open>
  \<^verbatim>\<open>rb_push\<close> repeats \<^verbatim>\<open>rb_write\<close> until it succeeds.  Between two attempts the other tasks run: \<open>env t\<close> is
  what they do to the ring during the \<open>t\<close>th pause.  The loop ends only if they make room.
\<close>

partial_function (option) rb_push ::
    "(nat \<Rightarrow> ring_buffer_s \<Rightarrow> ring_buffer_s) \<Rightarrow> nat \<Rightarrow> image_chunk_s \<Rightarrow> ring_buffer_s \<Rightarrow> ring_buffer_s option" where
  "rb_push env t c rb =
     (case rb_write_body c rb of
        (r, rb') \<Rightarrow> if r = 0 then Some rb' else rb_push env (Suc t) c (env t rb'))"

text \<open>The call of \<^verbatim>\<open>rb_push\<close> in the application.\<close>

definition call_rb_push :: "image_chunk_s \<Rightarrow> cam_s \<Rightarrow> cam_s" where
  "call_rb_push c s = s\<lparr>pushed := pushed s @ [c]\<rparr>"

definition meta_chunk :: "u16 \<Rightarrow> u8 list \<Rightarrow> image_chunk_s" where
  "meta_chunk meta_len meta =
     zero_chunk\<lparr>data := memcpy_at (data zero_chunk) 0 (take (unat meta_len) meta),
       len := meta_len, frame_id := 1, is_last := 0, is_meta := 1\<rparr>"

definition total_chunks :: "u32 \<Rightarrow> u32" where
  "total_chunks img_size = (img_size + of_nat CHUNK_SIZE - 1) div of_nat CHUNK_SIZE"

definition data_chunk :: "u32 \<Rightarrow> u8 list \<Rightarrow> u32 \<Rightarrow> image_chunk_s" where
  "data_chunk img_size img ci =
     (let off = ci * of_nat CHUNK_SIZE;
          rest = img_size - off;
          n = (if of_nat CHUNK_SIZE < rest then of_nat CHUNK_SIZE else rest)
      in zero_chunk\<lparr>data := memcpy_at (data zero_chunk) 0 (take (unat n) (drop (unat off) img)),
           len := ucast n, frame_id := 1,
           is_last := (if ci = total_chunks img_size - 1 then 1 else 0), is_meta := 0\<rparr>)"

fun push_data :: "nat \<Rightarrow> u32 \<Rightarrow> u32 \<Rightarrow> cam_s \<Rightarrow> cam_s" where
  "push_data 0 ci img_size s = s"
| "push_data (Suc n) ci img_size s =
     push_data n (ci + 1) img_size (call_rb_push (data_chunk img_size (image_buf s) ci) s)"

section \<open>The application\<close>

text \<open>\<open>Fault\<close> is a read outside of a buffer, for which C gives no meaning.\<close>

datatype cam_result = Ret int | Fault

definition le32 :: "u8 list \<Rightarrow> u32" where
  "le32 sz = ucast (sz ! 0) OR push_bit 8 (ucast (sz ! 1)) OR push_bit 16 (ucast (sz ! 2))
     OR push_bit 24 (ucast (sz ! 3))"

definition le16 :: "u8 list \<Rightarrow> u16" where
  "le16 ml = ucast (ml ! 0) OR push_bit 8 (ucast (ml ! 1))"

definition close_uart :: "cam_s \<Rightarrow> cam_s" where
  "close_uart s = s\<lparr>uart_open := False\<rparr>"

text \<open>Steps 1 to 5: capture command, acknowledgement, sizes and metadata.\<close>

definition cam_metadata :: "u32 \<Rightarrow> u16 \<Rightarrow> cam_s \<Rightarrow> (u32 \<times> u16) option \<times> cam_s" where
  "cam_metadata img_size meta_len s =
     (case uart_read_exact (unat meta_len) SIZE_POLLS SIZE_POLL_US s of
        ((ok, meta), s') \<Rightarrow>
          (if ok then Some (img_size, meta_len) else None,
           s'\<lparr>meta_buf := memcpy_at (replicate META_BUF_SIZE 0) 0 meta\<rparr>))"

definition cam_capture :: "cam_s \<Rightarrow> (u32 \<times> u16) option \<times> cam_s" where
  "cam_capture s =
     (let s1 = uart_write_byte CMD_CAPTURE (uart_flush s)
      in case uart_read_byte ACK_POLLS ACK_POLL_US s1 of
           (ack, s2) \<Rightarrow>
             if ack \<noteq> Some ACK_BYTE then (None, s2)
             else
               (case uart_read_exact 4 SIZE_POLLS SIZE_POLL_US s2 of
                  ((ok, sz), s3) \<Rightarrow>
                    let img_size = le32 sz
                    in if \<not> ok \<or> img_size = 0 \<or> of_nat IMG_BUF_SIZE < img_size then (None, s3)
                       else
                         (case uart_read_exact 2 SIZE_POLLS SIZE_POLL_US s3 of
                            ((ok, ml), s4) \<Rightarrow>
                              let meta_len = le16 ml
                              in if \<not> ok \<or> meta_len = 0 \<or> of_nat META_BUF_SIZE \<le> meta_len then (None, s4)
                                 else cam_metadata img_size meta_len s4)))"

text \<open>
  The check of the JPEG markers and its messages: whether every byte it reads lies in the buffer.
  The message about a bad trailer reads the last two bytes even when there is only one.
\<close>

definition buf_at :: "u8 list \<Rightarrow> u32 \<Rightarrow> u8 option" where
  "buf_at buf i = (if unat i < length buf then Some (buf ! unat i) else None)"

definition markers_readable :: "u32 \<Rightarrow> u8 list \<Rightarrow> bool" where
  "markers_readable img_size buf \<longleftrightarrow>
     (let trl_ok = (2 \<le> img_size \<and> buf_at buf (img_size - 2) = Some 0xFF \<and>
            buf_at buf (img_size - 1) = Some 0xD9)
      in buf_at buf 0 \<noteq> None \<and> buf_at buf 1 \<noteq> None \<and> buf_at buf 2 \<noteq> None \<and>
         (trl_ok \<or> buf_at buf (img_size - 2) \<noteq> None \<and> buf_at buf (img_size - 1) \<noteq> None))"

definition push_image :: "u32 \<Rightarrow> u16 \<Rightarrow> cam_s \<Rightarrow> cam_s" where
  "push_image img_size meta_len s =
     push_data (unat (total_chunks img_size)) 0 img_size (call_rb_push (meta_chunk meta_len (meta_buf s)) s)"

text \<open>\<open>uart_ok\<close> and \<open>spi_ok\<close> say whether opening the UART and initialising the bus succeed.\<close>

definition camera_MSN2_main :: "bool \<Rightarrow> bool \<Rightarrow> cam_s \<Rightarrow> cam_result \<times> cam_s" where
  "camera_MSN2_main uart_ok spi_ok s0 =
     (let s = s0\<lparr>pushed := []\<rparr>
      in if \<not> uart_ok then (Ret (- 1), s)
         else
           (let s1 = uart_flush (s\<lparr>uart_open := True\<rparr>)
            in if \<not> spi_ok then (Ret (- 1), close_uart s1)
               else
                 (case uart_handshake s1 of
                    (r, s2) \<Rightarrow>
                      if r < 0 then (Ret (- 1), close_uart s2)
                      else
                        (case cam_capture s2 of
                           (None, s3) \<Rightarrow> (Ret (- 1), close_uart s3)
                         | (Some (img_size, meta_len), s3) \<Rightarrow>
                             let s4 = usleep SPI_CS_DELAY_US s3;
                                 s5 = s4\<lparr>image_buf := memcpy_at (image_buf s4) 0 (replicate (unat img_size) 0)\<rparr>;
                                 s6 = spi_read_image img_size s5
                             in if \<not> markers_readable img_size (image_buf s6) then (Fault, s6)
                                else (Ret 0, close_uart (push_image img_size meta_len s6))))))"

section \<open>What the helpers change\<close>

text \<open>The UART helpers leave alone everything but the line and the clock.\<close>

definition cam_rest :: "cam_s \<Rightarrow> bool \<times> (nat \<Rightarrow> u8) \<times> nat \<times> bool \<times> u8 list \<times> u8 list \<times> image_chunk_s list" where
  "cam_rest s = (uart_open s, spi_stream s, spi_pos s, spi_selected s, image_buf s, meta_buf s, pushed s)"

lemma cam_rest_upd [simp]:
  "cam_rest (usleep us s) = cam_rest s" "cam_rest (uart_write_byte v s) = cam_rest s"
  "cam_rest (uart_flush s) = cam_rest s" "cam_rest (snd (uart_read s)) = cam_rest s"
  by (simp_all add: cam_rest_def usleep_def uart_write_byte_def uart_flush_def split: list.split)

lemma cam_rest_read_byte [simp]: "cam_rest (snd (uart_read_byte n us s)) = cam_rest s"
proof (induction n arbitrary: s)
  case (Suc n)
  obtain r s' where rd: "uart_read s = (r, s')" by fastforce
  then have "cam_rest s' = cam_rest s" using cam_rest_upd(4) [of s] by simp
  with rd Suc show ?case by (cases r) (simp_all del: uart_read.simps)
qed simp

lemma cam_rest_read_exact [simp]: "cam_rest (snd (uart_read_exact n r us s)) = cam_rest s"
proof (induction n arbitrary: s)
  case (Suc n)
  obtain v s' where rd: "uart_read_byte r us s = (v, s')" by fastforce
  then have s': "cam_rest s' = cam_rest s" using cam_rest_read_byte [of r us s] by simp
  obtain ok vs s'' where "uart_read_exact n r us s' = ((ok, vs), s'')" by (metis prod.exhaust)
  with rd s' Suc [of s'] show ?case by (cases v) simp_all
qed simp

lemma cam_rest_handshake_poll [simp]: "cam_rest (snd (handshake_poll n s)) = cam_rest s"
proof (induction n arbitrary: s)
  case (Suc n)
  obtain r s' where rd: "uart_read_byte 1 0 s = (r, s')" by fastforce
  then have "cam_rest s' = cam_rest s" using cam_rest_read_byte [of 1 0 s] by simp
  with rd Suc show ?case by (simp del: uart_read_byte.simps)
qed simp

lemma cam_rest_handshake_tries [simp]: "cam_rest (snd (handshake_tries n s)) = cam_rest s"
proof (induction n arbitrary: s)
  case (Suc n)
  obtain ok s' where hp: "handshake_poll HANDSHAKE_POLLS (uart_write_byte CMD_HANDSHAKE (uart_flush s)) = (ok, s')"
    by fastforce
  then have "cam_rest s' = cam_rest s"
    using cam_rest_handshake_poll [of HANDSHAKE_POLLS "uart_write_byte CMD_HANDSHAKE (uart_flush s)"] by simp
  with hp Suc show ?case by (cases ok) simp_all
qed simp

lemma cam_rest_handshake [simp]: "cam_rest (snd (uart_handshake s)) = cam_rest s"
  using cam_rest_handshake_tries [of HANDSHAKE_TRIES s] by (simp add: uart_handshake_def case_prod_beta)

end
