(* ===== verification/Camera_Session.thy ===== *)
theory Camera_Session
  imports Camera
begin

text \<open>
  A session of the camera application with a board that keeps to the protocol
  (\<^verbatim>\<open>README.md\<close>, section OpenMV Protocol): every byte arrives within the polls the application
  allows, the picture follows the synchronisation bytes on the SPI bus, and the chunks that reach
  the ring are the metadata and the picture.
\<close>

section \<open>The board answers in time\<close>

text \<open>Bytes that each come after some empty polls.\<close>

definition paced :: "(nat \<times> u8) list \<Rightarrow> u8 option list" where
  "paced xs = concat (map (\<lambda>(d, v). replicate d None @ [Some v]) xs)"

lemma read_byte_paced:
  assumes "d < n" "uin s = replicate d None @ Some v # rest"
  shows "uart_read_byte n us s = (Some v, s\<lparr>uin := rest, slept := slept s + d * us\<rparr>)"
  using assms
proof (induction n arbitrary: d s)
  case (Suc n)
  show ?case
  proof (cases d)
    case (Suc d')
    with Suc.IH [of d' "(if us > 0 then usleep us else id) (s\<lparr>uin := tl (uin s)\<rparr>)"] Suc.prems
    show ?thesis by (cases "us = 0") (simp_all add: usleep_def algebra_simps)
  qed (use Suc.prems in simp)
qed simp

lemma read_exact_paced:
  assumes "\<forall>(d, v) \<in> set xs. d < r" "uin s = paced xs @ rest"
  shows "uart_read_exact (length xs) r us s =
    ((True, map snd xs), s\<lparr>uin := rest, slept := slept s + us * sum_list (map fst xs)\<rparr>)"
  using assms
proof (induction xs arbitrary: s)
  case (Cons x xs)
  obtain d v where x: "x = (d, v)" by fastforce
  with Cons.prems read_byte_paced [of d r s v "paced xs @ rest" us]
  show ?case
    using Cons.IH [of "s\<lparr>uin := paced xs @ rest, slept := slept s + d * us\<rparr>"]
    by (simp add: paced_def algebra_simps)
qed (simp add: paced_def)

lemma flush_in_noise [simp]: "flush_in (map Some noise @ None # rest) = rest"
  by (induction noise) simp_all

lemma handshake_poll_ack:
  assumes "Some ACK_BYTE \<notin> set ys" "length ys < n" "uin s = ys @ Some ACK_BYTE # rest"
  shows "handshake_poll n s = (True, s\<lparr>uin := flush_in rest, slept := slept s + length ys * 100000\<rparr>)"
  using assms
proof (induction n arbitrary: ys s)
  case (Suc n)
  show ?case
  proof (cases ys)
    case (Cons y ys')
    then have "uart_read_byte 1 0 s = (y, s\<lparr>uin := ys' @ Some ACK_BYTE # rest\<rparr>)"
      using Suc.prems(3) by (cases y) simp_all
    with Cons Suc.IH [of ys' "usleep 100000 (s\<lparr>uin := ys' @ Some ACK_BYTE # rest\<rparr>)"] Suc.prems
    show ?thesis by (auto simp: usleep_def simp del: uart_read_byte.simps)
  qed (use Suc.prems in \<open>simp add: uart_flush_def\<close>)
qed simp

section \<open>The picture arrives in the buffer\<close>

lemma discard_sync_eq: "discard_sync n s = s\<lparr>spi_pos := spi_pos s + n\<rparr>"
proof (induction n s rule: discard_sync.induct)
  case (1 n s)
  show ?case
  proof (cases "n = 0")
    case False
    let ?x = "if n < SPI_XFER_SIZE then n else SPI_XFER_SIZE"
    have "?x \<le> n" by simp
    with False 1 [OF False refl] show ?thesis
      by (subst discard_sync.simps) (simp add: Let_def SPI_EXCHANGE_def)
  qed (simp add: discard_sync.simps)
qed

lemma memcpy_at_append:
  assumes "off + length xs + length ys \<le> length b"
  shows "memcpy_at (memcpy_at b off xs) (off + length xs) ys = memcpy_at b off (xs @ ys)"
proof -
  have "length (take off b) = off" using assms by simp
  then show ?thesis by (simp add: memcpy_at_def ac_simps)
qed

lemma read_blocks_eq:
  assumes "off + n \<le> length (image_buf s)"
  shows "read_blocks n off s = s\<lparr>spi_pos := spi_pos s + n,
    image_buf := memcpy_at (image_buf s) off (map (spi_stream s) [spi_pos s..<spi_pos s + n])\<rparr>"
  using assms
proof (induction n off s rule: read_blocks.induct)
  case (1 n off s)
  show ?case
  proof (cases "n = 0")
    case False
    define x where "x = (if n < SPI_XFER_SIZE then n else SPI_XFER_SIZE)"
    define rx where "rx = map (spi_stream s) [spi_pos s..<spi_pos s + x]"
    define s' where "s' = s\<lparr>spi_pos := spi_pos s + x, image_buf := memcpy_at (image_buf s) off rx\<rparr>"
    have x: "x \<le> n" and rx: "length rx = x" by (simp_all add: x_def rx_def)
    have ex: "SPI_EXCHANGE x s = (rx, s\<lparr>spi_pos := spi_pos s + x\<rparr>)" by (simp add: SPI_EXCHANGE_def rx_def)
    have unf: "read_blocks n off s = read_blocks (n - x) (off + x) s'"
      using False ex by (subst read_blocks.simps) (simp add: x_def [symmetric] Let_def s'_def)
    have "length (image_buf s') = length (image_buf s)" using "1.prems" x rx by (simp add: s'_def)
    then have ih: "read_blocks (n - x) (off + x) s' = s'\<lparr>spi_pos := spi_pos s' + (n - x),
        image_buf := memcpy_at (image_buf s') (off + x)
          (map (spi_stream s') [spi_pos s'..<spi_pos s' + (n - x)])\<rparr>"
      using "1.IH" [OF False x_def ex [symmetric] refl] "1.prems" x by (simp add: s'_def)
    have "rx @ map (spi_stream s) [spi_pos s + x..<spi_pos s + n] = map (spi_stream s) [spi_pos s..<spi_pos s + n]"
      using x upt_add_eq_append [of "spi_pos s" "spi_pos s + x" "n - x"] by (simp add: rx_def)
    with memcpy_at_append [of off rx "map (spi_stream s) [spi_pos s + x..<spi_pos s + n]" "image_buf s"]
      unf ih x rx "1.prems"
    show ?thesis by (simp add: s'_def)
  qed (simp add: read_blocks.simps)
qed

lemma spi_read_image_eq:
  assumes "unat n \<le> length (image_buf s)"
  shows "spi_read_image n s = s\<lparr>spi_selected := False, spi_pos := spi_pos s + SPI_SYNC_BYTES + unat n,
    image_buf := memcpy_at (image_buf s) 0
      (map (spi_stream s) [spi_pos s + SPI_SYNC_BYTES..<spi_pos s + SPI_SYNC_BYTES + unat n])\<rparr>"
  using assms by (simp add: spi_read_image_def discard_sync_eq read_blocks_eq Let_def)

section \<open>Division into chunks\<close>

text \<open>All data chunks of a picture.\<close>

definition image_chunks :: "u32 \<Rightarrow> u8 list \<Rightarrow> image_chunk_s list" where
  "image_chunks img_size img = map (\<lambda>i. data_chunk img_size img (of_nat i)) [0..<unat (total_chunks img_size)]"

lemma push_data_eq:
  "push_data n ci sz s =
     s\<lparr>pushed := pushed s @ map (\<lambda>i. data_chunk sz (image_buf s) (ci + of_nat i)) [0..<n]\<rparr>"
proof (induction n arbitrary: ci s)
  case (Suc n)
  have "map (\<lambda>i. f (ci + of_nat i)) [0..<Suc n] = f ci # map (\<lambda>i. f (ci + 1 + of_nat i)) [0..<n]"
    for f :: "u32 \<Rightarrow> image_chunk_s"
    by (subst upt_conv_Cons) (simp_all add: map_Suc_upt [symmetric] algebra_simps del: upt_Suc)
  then show ?case by (simp add: Suc call_rb_push_def del: upt_Suc)
qed simp

lemma push_image_eq:
  "push_image sz ml s = s\<lparr>pushed := pushed s @ meta_chunk ml (meta_buf s) # image_chunks sz (image_buf s)\<rparr>"
  by (simp add: push_image_def push_data_eq image_chunks_def call_rb_push_def)

lemma unat_total_chunks:
  assumes "unat sz \<le> IMG_BUF_SIZE"
  shows "unat (total_chunks sz) = (unat sz + 255) div 256"
proof -
  have "unat (255 + sz) = 255 + unat sz"
    using assms unat_add_no_wrap [of 255 sz] by (simp add: camera_consts)
  moreover have "total_chunks sz = (255 + sz) div 256" by (simp add: total_chunks_def camera_consts)
  moreover have "unat (256 :: u32) = 256" by simp
  ultimately show ?thesis by (simp only: unat_div add.commute)
qed

lemma data_chunk_fields:
  assumes sz: "unat sz \<le> IMG_BUF_SIZE" "unat sz \<le> length img" and i: "i < unat (total_chunks sz)"
  defines "c \<equiv> data_chunk sz img (of_nat i)"
  shows "payload c = take (min 256 (unat sz - i * 256)) (drop (i * 256) img)"
    "length (data c) = 256" "unat (len c) = min 256 (unat sz - i * 256)" "0 < unat (len c)"
    "is_meta c = 0" "is_last c = (if Suc i = unat (total_chunks sz) then 1 else 0)" "frame_id c = 1"
proof -
  have tot: "unat (total_chunks sz) = (unat sz + 255) div 256" by (rule unat_total_chunks [OF sz(1)])
  with i have lt: "i * 256 < unat sz" "i < 157" using sz(1) by (simp_all add: camera_consts)
  have ui: "unat (of_nat i :: u32) = i" using lt by (simp add: unat_of_nat)
  have off: "unat (of_nat i * 256 :: u32) = i * 256" using lt by (simp add: unat_word_ariths unat_of_nat)
  have rest: "unat (sz - of_nat i * 256) = unat sz - i * 256"
    using lt off by (simp add: unat_sub_le)
  define n where "n = (if 256 < sz - of_nat i * 256 then 256 else sz - of_nat i * 256)"
  have n: "unat n = min 256 (unat sz - i * 256)"
    using rest by (simp add: n_def word_less_nat_alt min_def)
  have un: "unat (ucast n :: u16) = unat n"
    using n by (simp add: unsigned_ucast_eq take_bit_nat_eq_self)
  have last: "of_nat i = total_chunks sz - 1 \<longleftrightarrow> Suc i = unat (total_chunks sz)"
    using i ui unat_pred [of "total_chunks sz"] by (auto simp: word_unat_eq_iff)
  have c: "c = zero_chunk\<lparr>data := memcpy_at (data zero_chunk) 0 (take (unat n) (drop (i * 256) img)),
      len := ucast n, frame_id := 1, is_last := (if Suc i = unat (total_chunks sz) then 1 else 0), is_meta := 0\<rparr>"
    unfolding c_def data_chunk_def Let_def using off last by (simp add: n_def camera_consts)
  have lt2: "length (take (unat n) (drop (i * 256) img)) = unat n" using n sz(2) lt by simp
  then show "payload c = take (min 256 (unat sz - i * 256)) (drop (i * 256) img)"
    using n un by (simp add: c payload_def memcpy_at_def)
  show "length (data c) = 256" using n lt2 by (simp add: c zero_chunk_def camera_consts)
  show "unat (len c) = min 256 (unat sz - i * 256)" "0 < unat (len c)" using n un lt by (simp_all add: c)
  show "is_meta c = 0" "is_last c = (if Suc i = unat (total_chunks sz) then 1 else 0)" "frame_id c = 1"
    by (simp_all add: c)
qed

lemma concat_slices:
  "concat (map (\<lambda>i. take (min 256 (n - i * 256)) (drop (i * 256) xs)) [0..<k]) = take (min n (k * 256)) xs"
proof (induction k)
  case (Suc k)
  have "take (min n (k * 256)) xs @ take (min 256 (n - k * 256)) (drop (k * 256) xs) = take (min n (Suc k * 256)) xs"
  proof (cases "k * 256 \<le> n")
    case True
    then have "min n (Suc k * 256) = k * 256 + min 256 (n - k * 256)" "min n (k * 256) = k * 256" by auto
    then show ?thesis by (simp only: take_add)
  qed simp
  with Suc show ?case by simp
qed simp

lemma image_chunks_payload:
  assumes "unat sz \<le> IMG_BUF_SIZE" "unat sz \<le> length img"
  shows "concat (map payload (image_chunks sz img)) = take (unat sz) img"
proof -
  have "map payload (image_chunks sz img) =
      map (\<lambda>i. take (min 256 (unat sz - i * 256)) (drop (i * 256) img)) [0..<unat (total_chunks sz)]"
    using data_chunk_fields(1) [OF assms] by (simp add: image_chunks_def comp_def)
  moreover have "min (unat sz) (unat (total_chunks sz) * 256) = unat sz"
    using unat_total_chunks [OF assms(1)] by simp
  ultimately show ?thesis by (simp add: concat_slices)
qed

section \<open>A complete exchange\<close>

text \<open>The little-endian bytes that the board sends for the two sizes.\<close>

definition bytes32 :: "u32 \<Rightarrow> u8 list" where
  "bytes32 n = [ucast n, ucast (drop_bit 8 n), ucast (drop_bit 16 n), ucast (drop_bit 24 n)]"

definition bytes16 :: "u16 \<Rightarrow> u8 list" where
  "bytes16 n = [ucast n, ucast (drop_bit 8 n)]"

lemma le32_bytes32 [simp]: "le32 (bytes32 n) = n"
proof (rule bit_word_eqI)
  fix i assume "i < LENGTH(32)"
  then have "i < 8 \<or> (8 \<le> i \<and> i < 16) \<or> (16 \<le> i \<and> i < 24) \<or> (24 \<le> i \<and> i < 32)" by auto
  then show "bit (le32 (bytes32 n)) i = bit n i"
    by (elim disjE conjE) (simp_all add: le32_def bytes32_def bit_or_iff bit_push_bit_iff bit_unsigned_iff bit_drop_bit_eq
      less_diff_conv2 conj_commute)
qed

lemma le16_bytes16 [simp]: "le16 (bytes16 n) = n"
proof (rule bit_word_eqI)
  fix i assume "i < LENGTH(16)"
  then have "i < 8 \<or> (8 \<le> i \<and> i < 16)" by auto
  then show "bit (le16 (bytes16 n)) i = bit n i"
    by (elim disjE conjE) (simp_all add: le16_def bytes16_def bit_or_iff bit_push_bit_iff bit_unsigned_iff bit_drop_bit_eq
      less_diff_conv2 conj_commute)
qed

lemma length_bytes [simp]: "length (bytes32 n) = 4" "length (bytes16 m) = 2"
  by (simp_all add: bytes32_def bytes16_def)

text \<open>
  What the board sends after the capture command: stale bytes up to an empty read, the
  acknowledgement after \<open>d\<close> empty polls, the sizes and the metadata with their delays.
\<close>

definition board_reply :: "u8 list \<Rightarrow> nat \<Rightarrow> (nat \<times> u8) list \<Rightarrow> (nat \<times> u8) list \<Rightarrow> (nat \<times> u8) list \<Rightarrow> u8 option list" where
  "board_reply noise d sz ml meta =
     map Some noise @ None # replicate d None @ Some ACK_BYTE # paced sz @ paced ml @ paced meta"

definition in_time :: "(nat \<times> u8) list \<Rightarrow> bool" where
  "in_time xs \<longleftrightarrow> (\<forall>(d, v) \<in> set xs. d < SIZE_POLLS)"

lemma cam_capture_ok:
  assumes u: "uin s = board_reply noise d sz ml meta @ rest" and d: "d < ACK_POLLS"
    and t: "in_time sz" "in_time ml" "in_time meta"
    and b: "map snd sz = bytes32 n" "map snd ml = bytes16 m" "length meta = unat m"
    and n: "0 < unat n" "unat n \<le> IMG_BUF_SIZE" and m: "0 < unat m" "unat m < META_BUF_SIZE"
  obtains t' where "cam_capture s = (Some (n, m), s\<lparr>uin := rest, uout := uout s @ [CMD_CAPTURE], slept := t',
    meta_buf := memcpy_at (replicate META_BUF_SIZE 0) 0 (map snd meta)\<rparr>)"
proof -
  have len: "length sz = 4" "length ml = 2"
    using b(1,2) by (metis length_map length_bytes)+
  define s1 where "s1 = uart_write_byte CMD_CAPTURE (uart_flush s)"
  define t2 where "t2 = slept s + d * ACK_POLL_US"
  define t3 where "t3 = t2 + SIZE_POLL_US * sum_list (map fst sz)"
  define t4 where "t4 = t3 + SIZE_POLL_US * sum_list (map fst ml)"
  have s1: "s1 = s\<lparr>uin := replicate d None @ Some ACK_BYTE # paced sz @ paced ml @ paced meta @ rest,
      uout := uout s @ [CMD_CAPTURE]\<rparr>"
    using u flush_in_noise [of noise] by (simp add: s1_def uart_write_byte_def uart_flush_def board_reply_def)
  have r1: "uart_read_byte ACK_POLLS ACK_POLL_US s1 = (Some ACK_BYTE, s1\<lparr>uin := paced sz @ paced ml @ paced meta @ rest, slept := t2\<rparr>)"
    using read_byte_paced [OF d, of s1] by (simp add: s1 t2_def)
  have r2: "uart_read_exact 4 SIZE_POLLS SIZE_POLL_US (s1\<lparr>uin := paced sz @ paced ml @ paced meta @ rest, slept := t2\<rparr>) =
      ((True, bytes32 n), s1\<lparr>uin := paced ml @ paced meta @ rest, slept := t3\<rparr>)"
    using read_exact_paced [of sz SIZE_POLLS "s1\<lparr>uin := paced sz @ paced ml @ paced meta @ rest, slept := t2\<rparr>"] t(1) len b(1)
    by (simp add: in_time_def t3_def)
  have r3: "uart_read_exact 2 SIZE_POLLS SIZE_POLL_US (s1\<lparr>uin := paced ml @ paced meta @ rest, slept := t3\<rparr>) =
      ((True, bytes16 m), s1\<lparr>uin := paced meta @ rest, slept := t4\<rparr>)"
    using read_exact_paced [of ml SIZE_POLLS "s1\<lparr>uin := paced ml @ paced meta @ rest, slept := t3\<rparr>"] t(2) len b(2)
    by (simp add: in_time_def t4_def)
  have r4: "uart_read_exact (unat m) SIZE_POLLS SIZE_POLL_US (s1\<lparr>uin := paced meta @ rest, slept := t4\<rparr>) =
      ((True, map snd meta), s1\<lparr>uin := rest, slept := t4 + SIZE_POLL_US * sum_list (map fst meta)\<rparr>)"
    using read_exact_paced [of meta SIZE_POLLS "s1\<lparr>uin := paced meta @ rest, slept := t4\<rparr>" rest] t(3) b(3)
    by (simp add: in_time_def)
  have c: "n \<noteq> 0" "\<not> of_nat IMG_BUF_SIZE < n" "m \<noteq> 0" "\<not> of_nat META_BUF_SIZE \<le> m"
    using n m by (auto simp: camera_consts word_less_nat_alt word_le_nat_alt)
  show thesis
    by (rule that [of "t4 + SIZE_POLL_US * sum_list (map fst meta)"])
      (simp add: cam_capture_def cam_metadata_def s1_def [symmetric] Let_def r1 r2 r3 r4 c, simp add: s1)
qed

section \<open>The application as a whole\<close>

lemma markers_readable_iff:
  assumes "length buf = IMG_BUF_SIZE" "0 < unat n" "unat n \<le> IMG_BUF_SIZE"
  shows "markers_readable n buf \<longleftrightarrow> n \<noteq> 1"
proof (cases "n = 1")
  case True
  have "unat (- 1 :: u32) = 4294967295" by (simp add: unsigned_minus_1_eq_mask mask_eq_exp_minus_1)
  with True show ?thesis using assms by (simp add: markers_readable_def buf_at_def camera_consts)
next
  case False
  then have "unat n \<noteq> 1" by (simp add: word_unat_eq_iff)
  with assms(2) have "2 \<le> unat n" by linarith
  then have "unat (n - 2) = unat n - 2" "unat (n - 1) = unat n - 1" by (simp_all add: unat_sub_le)
  moreover have "unat n - 2 < 40000" "unat n - 1 < 40000" using assms(2,3) by (simp_all add: camera_consts)
  ultimately show ?thesis using False assms by (simp add: markers_readable_def buf_at_def camera_consts)
qed

text \<open>The whole session seen from the application: the reads before and during the handshake, then the reply.\<close>

definition board_session :: "u8 list \<Rightarrow> u8 list \<Rightarrow> u8 option list \<Rightarrow> u8 list \<Rightarrow> u8 option list \<Rightarrow> u8 option list" where
  "board_session n1 n2 polls n3 reply =
     map Some n1 @ None # map Some n2 @ None # polls @ Some ACK_BYTE # map Some n3 @ None # reply"

lemma handshake_ok:
  assumes "uin s = map Some n2 @ None # polls @ Some ACK_BYTE # map Some n3 @ None # reply"
    "Some ACK_BYTE \<notin> set polls" "length polls < HANDSHAKE_POLLS"
  shows "uart_handshake s = (0, s\<lparr>uin := reply, uout := uout s @ [CMD_HANDSHAKE],
    slept := slept s + length polls * 100000\<rparr>)"
proof -
  have T: "HANDSHAKE_TRIES = Suc 4" by (simp add: camera_consts)
  let ?s = "s\<lparr>uin := polls @ Some ACK_BYTE # map Some n3 @ None # reply, uout := uout s @ [CMD_HANDSHAKE]\<rparr>"
  have "uart_write_byte CMD_HANDSHAKE (uart_flush s) = ?s"
    using assms(1) by (simp add: uart_write_byte_def uart_flush_def)
  then show ?thesis
    unfolding uart_handshake_def T handshake_tries.simps
    using handshake_poll_ack [of polls HANDSHAKE_POLLS ?s] assms(2,3) by simp
qed

text \<open>A session in which the board keeps to the protocol, and the picture it sends on the SPI bus.\<close>

definition good_session :: "cam_s \<Rightarrow> u32 \<Rightarrow> u8 list \<Rightarrow> bool" where
  "good_session s n meta \<longleftrightarrow>
     (\<exists>n1 n2 polls n3 noise d sz ml mt m rest.
        uin s = board_session n1 n2 polls n3 (board_reply noise d sz ml mt @ rest) \<and>
        Some ACK_BYTE \<notin> set polls \<and> length polls < HANDSHAKE_POLLS \<and> d < ACK_POLLS \<and>
        in_time sz \<and> in_time ml \<and> in_time mt \<and>
        map snd sz = bytes32 n \<and> map snd ml = bytes16 m \<and> map snd mt = meta \<and> length meta = unat m \<and>
        0 < unat m \<and> unat m < META_BUF_SIZE)"

lemma good_sessionI:
  assumes "uin s = board_session n1 n2 polls n3 (board_reply noise d sz ml mt @ rest)"
    "Some ACK_BYTE \<notin> set polls" "length polls < HANDSHAKE_POLLS" "d < ACK_POLLS"
    "in_time sz" "in_time ml" "in_time mt"
    "map snd sz = bytes32 n" "map snd ml = bytes16 m" "map snd mt = meta" "length meta = unat m"
    "0 < unat m" "unat m < META_BUF_SIZE"
  shows "good_session s n meta"
  unfolding good_session_def using assms by blast

definition spi_picture :: "cam_s \<Rightarrow> u32 \<Rightarrow> u8 list" where
  "spi_picture s n = map (spi_stream s) [spi_pos s + SPI_SYNC_BYTES..<spi_pos s + SPI_SYNC_BYTES + unat n]"

lemma length_spi_picture [simp]: "length (spi_picture s n) = unat n"
  by (simp add: spi_picture_def)

lemma camera_session:
  assumes g: "good_session s n meta" and buf: "length (image_buf s) = IMG_BUF_SIZE"
    and n: "0 < unat n" "unat n \<le> IMG_BUF_SIZE"
  obtains s' m where
    "camera_MSN2_main True True s =
       (if n = 1 then (Fault, s') else (Ret 0, close_uart (push_image n m s')))"
    "pushed s' = []" "uout s' = uout s @ [CMD_HANDSHAKE, CMD_CAPTURE]" "\<not> spi_selected s'"
    "image_buf s' = memcpy_at (image_buf s) 0 (spi_picture s n)" "unat m = length meta"
    "length meta < META_BUF_SIZE" "meta_buf s' = memcpy_at (replicate META_BUF_SIZE 0) 0 meta"
proof -
  from g obtain n1 n2 polls n3 noise d sz ml mt m rest where
    u: "uin s = board_session n1 n2 polls n3 (board_reply noise d sz ml mt @ rest)"
    and p: "Some ACK_BYTE \<notin> set polls" "length polls < HANDSHAKE_POLLS" and d: "d < ACK_POLLS"
    and t: "in_time sz" "in_time ml" "in_time mt"
    and b: "map snd sz = bytes32 n" "map snd ml = bytes16 m" "map snd mt = meta" "length meta = unat m"
    and m: "0 < unat m" "unat m < META_BUF_SIZE"
    unfolding good_session_def by blast
  define s1 where "s1 = uart_flush (s\<lparr>pushed := [], uart_open := True\<rparr>)"
  define s2 where "s2 = s1\<lparr>uin := board_reply noise d sz ml mt @ rest, uout := uout s @ [CMD_HANDSHAKE],
    slept := slept s + length polls * 100000\<rparr>"
  have s1: "s1 = s\<lparr>pushed := [], uart_open := True, uin := map Some n2 @ None # polls @ Some ACK_BYTE #
      map Some n3 @ None # board_reply noise d sz ml mt @ rest\<rparr>"
    using u by (simp add: s1_def uart_flush_def board_session_def)
  have hs: "uart_handshake s1 = (0, s2)"
    using handshake_ok [of s1 n2 polls n3] p by (simp add: s1 s2_def)
  have u2: "uin s2 = board_reply noise d sz ml mt @ rest" by (simp add: s2_def)
  have lm: "length mt = unat m" using b(3,4) by (metis length_map)
  obtain t' where cap: "cam_capture s2 = (Some (n, m), s2\<lparr>uin := rest, uout := uout s2 @ [CMD_CAPTURE],
      slept := t', meta_buf := memcpy_at (replicate META_BUF_SIZE 0) 0 meta\<rparr>)"
    using cam_capture_ok [OF u2 d t b(1,2) lm n m] b(3) by metis
  define s5 where "s5 = usleep SPI_CS_DELAY_US (s2\<lparr>uin := rest, uout := uout s2 @ [CMD_CAPTURE], slept := t',
    meta_buf := memcpy_at (replicate META_BUF_SIZE 0) 0 meta\<rparr>)"
  define s6 where "s6 = spi_read_image n (s5\<lparr>image_buf := memcpy_at (image_buf s5) 0 (replicate (unat n) 0)\<rparr>)"
  have s5: "image_buf s5 = image_buf s" "spi_pos s5 = spi_pos s" "spi_stream s5 = spi_stream s" "pushed s5 = []"
      "uout s5 = uout s @ [CMD_HANDSHAKE, CMD_CAPTURE]" "meta_buf s5 = memcpy_at (replicate META_BUF_SIZE 0) 0 meta"
    by (simp_all add: s5_def s2_def s1 usleep_def)
  have s6: "s6 = s5\<lparr>spi_selected := False, spi_pos := spi_pos s5 + SPI_SYNC_BYTES + unat n,
      image_buf := memcpy_at (memcpy_at (image_buf s) 0 (replicate (unat n) 0)) 0 (spi_picture s n)\<rparr>"
    using buf n(2) by (simp add: s6_def spi_read_image_eq s5 spi_picture_def)
  have img: "image_buf s6 = memcpy_at (image_buf s) 0 (spi_picture s n)"
    by (simp add: s6 memcpy_at_def)
  have len: "length (image_buf s6) = IMG_BUF_SIZE" using img buf n by simp
  have "camera_MSN2_main True True s =
      (if n = 1 then (Fault, s6) else (Ret 0, close_uart (push_image n m s6)))"
    unfolding camera_MSN2_main_def Let_def s1_def [symmetric]
    using hs cap markers_readable_iff [OF len n]
    by (cases "n = 1") (simp_all add: s5_def [symmetric] s6_def)
  then show thesis
    by (rule that) (use s5 b(4) m(2) img in \<open>simp_all add: s6\<close>)
qed

lemma meta_chunk_payload:
  assumes "unat m = length meta" "length meta < META_BUF_SIZE"
  shows "payload (meta_chunk m (memcpy_at (replicate META_BUF_SIZE 0) 0 meta)) = meta"
  using assms by (simp add: payload_def meta_chunk_def memcpy_at_def)

lemma is_last_image_chunks:
  assumes "0 < unat n" "unat n \<le> IMG_BUF_SIZE" "unat n \<le> length img"
  shows "map is_last (image_chunks n img) = replicate ((unat n - 1) div 256) 0 @ [1]"
proof -
  let ?k = "(unat n - 1) div 256"
  have tot: "unat (total_chunks n) = Suc ?k"
    using unat_total_chunks [OF assms(2)] assms(1) by (cases "unat n") (simp_all add: add.commute)
  have "map is_last (image_chunks n img) = map (\<lambda>i. if Suc i = unat (total_chunks n) then 1 else 0) [0..<unat (total_chunks n)]"
    using data_chunk_fields(6) [OF assms(2,3)] by (simp add: image_chunks_def comp_def)
  moreover have "map (\<lambda>i. if i = k then 1 else 0 :: u8) [0..<k] = replicate k 0" for k
    by (rule nth_equalityI) simp_all
  ultimately show ?thesis by (simp add: tot)
qed

lemma camera_result:
  assumes "good_session s n meta" "length (image_buf s) = IMG_BUF_SIZE" "2 \<le> unat n" "unat n \<le> IMG_BUF_SIZE"
    "camera_MSN2_main True True s = (r, s')"
  shows "r = Ret 0 \<and> uout s' = uout s @ [CMD_HANDSHAKE, CMD_CAPTURE] \<and> \<not> uart_open s' \<and> \<not> spi_selected s' \<and>
    (\<exists>mc dcs. pushed s' = mc # dcs \<and> is_meta mc = 1 \<and> payload mc = meta \<and>
       (\<forall>c \<in> set dcs. is_meta c = 0 \<and> length (data c) = CHUNK_SIZE \<and> 0 < unat (len c) \<and> unat (len c) \<le> CHUNK_SIZE) \<and>
       concat (map payload dcs) = spi_picture s n \<and>
       map is_last dcs = replicate ((unat n - 1) div CHUNK_SIZE) 0 @ [1])"
proof -
  have n: "0 < unat n" "n \<noteq> 1" using assms(3) by auto
  obtain s6 m where main: "camera_MSN2_main True True s =
       (if n = 1 then (Fault, s6) else (Ret 0, close_uart (push_image n m s6)))"
    and s6: "pushed s6 = []" "uout s6 = uout s @ [CMD_HANDSHAKE, CMD_CAPTURE]" "\<not> spi_selected s6"
    and img: "image_buf s6 = memcpy_at (image_buf s) 0 (spi_picture s n)"
    and m: "unat m = length meta" "length meta < META_BUF_SIZE"
    and mb: "meta_buf s6 = memcpy_at (replicate META_BUF_SIZE 0) 0 meta"
    using camera_session [OF assms(1,2) n(1) assms(4)] by metis
  have len: "unat n \<le> length (image_buf s6)" using img assms(2,4) by simp
  have s': "r = Ret 0" "s' = close_uart (push_image n m s6)" using main n assms(5) by simp_all
  let ?dcs = "image_chunks n (image_buf s6)"
  have "is_meta c = 0 \<and> length (data c) = CHUNK_SIZE \<and> 0 < unat (len c) \<and> unat (len c) \<le> CHUNK_SIZE"
    if "c \<in> set ?dcs" for c
    using that data_chunk_fields [OF assms(4) len] by (auto simp: image_chunks_def CHUNK_SIZE_def)
  moreover have "concat (map payload ?dcs) = spi_picture s n"
    using image_chunks_payload [OF assms(4) len] img by (simp add: memcpy_at_def)
  moreover have "map is_last ?dcs = replicate ((unat n - 1) div CHUNK_SIZE) 0 @ [1]"
    using is_last_image_chunks [OF n(1) assms(4) len] by (simp add: CHUNK_SIZE_def)
  moreover have "payload (meta_chunk m (meta_buf s6)) = meta" using meta_chunk_payload [OF m] mb by simp
  ultimately show ?thesis using s' s6 by (simp add: push_image_eq close_uart_def meta_chunk_def)
qed

text \<open>
  C7: When the board keeps to the protocol, with any delays the polling tolerates and any stale bytes before its
  answers, the application succeeds: it sends one handshake and one capture command, closes the
  UART, releases the bus, and hands the ring first a metadata chunk with the board's metadata and
  then data chunks that together are exactly the picture on the SPI bus, only the last of them
  marked as last.  The picture has at least two bytes and fits the buffer.\<close>

theorem camera_delivers_picture:
  assumes "good_session s n meta" "length (image_buf s) = IMG_BUF_SIZE" "2 \<le> unat n" "unat n \<le> IMG_BUF_SIZE"
    "camera_MSN2_main True True s = (r, s')"
  shows "r = Ret 0 \<and> uout s' = uout s @ [CMD_HANDSHAKE, CMD_CAPTURE] \<and> \<not> uart_open s' \<and> \<not> spi_selected s' \<and>
    (\<exists>mc dcs. pushed s' = mc # dcs \<and> is_meta mc = 1 \<and> payload mc = meta \<and>
       (\<forall>c \<in> set dcs. is_meta c = 0 \<and> length (data c) = CHUNK_SIZE \<and> 0 < unat (len c) \<and> unat (len c) \<le> CHUNK_SIZE) \<and>
       concat (map payload dcs) = spi_picture s n \<and>
       map is_last dcs = replicate ((unat n - 1) div CHUNK_SIZE) 0 @ [1])"
  by (rule camera_result [OF assms])

text \<open>A session with a three-byte picture.\<close>

definition demo_cam :: "u32 \<Rightarrow> cam_s" where
  "demo_cam n = \<lparr>uin = board_session [] [7] [None] [] (board_reply [] 2 (map (Pair 1) (bytes32 n))
      (map (Pair 0) (bytes16 1)) [(0, 65)] @ []),
    uout = [], uart_open = False, slept = 0, spi_stream = (\<lambda>i. if i = 1025 then 0xD8 else 0xFF), spi_pos = 0, spi_selected = False,
    image_buf = replicate IMG_BUF_SIZE 0, meta_buf = replicate META_BUF_SIZE 0, pushed = []\<rparr>"

lemma demo_session: "good_session (demo_cam n) n [65]"
proof -
  have "in_time (map (Pair 1) (bytes32 n))" "in_time (map (Pair 0) (bytes16 1))" "in_time [(0, 65)]"
    by (auto simp: in_time_def camera_consts)
  then show ?thesis
    by (rule good_sessionI [of "demo_cam n" "[]" "[7]" "[None]" "[]" "[]" 2 "map (Pair 1) (bytes32 n)"
          "map (Pair 0) (bytes16 1)" "[(0, 65)]" "[]" n 1, rotated 4])
      (simp_all add: demo_cam_def camera_consts comp_def)
qed

theorem camera_delivers_picture_witness:
  "\<exists>s' mc dcs. camera_MSN2_main True True (demo_cam 3) = (Ret 0, s') \<and> pushed s' = mc # dcs \<and>
     payload mc = [65] \<and> concat (map payload dcs) = [0xFF, 0xD8, 0xFF]"
proof -
  obtain r s' where main: "camera_MSN2_main True True (demo_cam 3) = (r, s')" by fastforce
  have "spi_picture (demo_cam 3) 3 = [0xFF, 0xD8, 0xFF]"
    by (simp add: spi_picture_def demo_cam_def camera_consts)
  moreover have "length (image_buf (demo_cam 3)) = IMG_BUF_SIZE" by (simp add: demo_cam_def)
  ultimately show ?thesis
    using camera_delivers_picture [OF demo_session [of 3] _ _ _ main] main by (auto simp: camera_consts)
qed

text \<open>
  C29: A picture of one byte, which the size check accepts, makes the application read outside of its buffer:
  the message about the missing trailer reads the byte at index 2^32 - 1.\<close>

theorem camera_one_byte_picture_faults:
  assumes "good_session s 1 meta" "length (image_buf s) = IMG_BUF_SIZE"
  shows "fst (camera_MSN2_main True True s) = Fault"
  by (rule camera_session [OF assms]) (simp_all add: camera_consts)

theorem camera_one_byte_picture_faults_witness:
  "fst (camera_MSN2_main True True (demo_cam 1)) = Fault"
  using camera_one_byte_picture_faults [OF demo_session [of 1]] by (simp add: demo_cam_def)

end
