(* ===== verification/Camera_Bounds.thy ===== *)
theory Camera_Bounds
  imports Camera_Session
begin

text \<open>
  What holds of the camera application whatever the board does: nothing reaches the ring unless
  the run succeeds, the UART is closed on every return, the time spent waiting is bounded, and
  feeding a chunk to the ring ends exactly if the consumer makes room.
\<close>

section \<open>Whatever the board does\<close>

lemma cam_rest_sel:
  assumes "cam_rest s = cam_rest s'"
  shows "pushed s = pushed s'" "uart_open s = uart_open s'" "image_buf s = image_buf s'"
  using assms by (simp_all add: cam_rest_def)

lemma cam_capture_frame:
  "pushed (snd (cam_capture s)) = pushed s \<and> uart_open (snd (cam_capture s)) = uart_open s \<and>
   image_buf (snd (cam_capture s)) = image_buf s"
proof -
  have rb: "cam_rest s' = cam_rest s" if "uart_read_byte n us s = (r, s')" for n us r s s'
    using cam_rest_read_byte [of n us s] that by simp
  have re: "cam_rest s' = cam_rest s" if "uart_read_exact n m us s = (r, s')" for n m us r s s'
    using cam_rest_read_exact [of n m us s] that by simp
  have md: "pushed (snd (cam_metadata n m s)) = pushed s \<and> uart_open (snd (cam_metadata n m s)) = uart_open s \<and>
      image_buf (snd (cam_metadata n m s)) = image_buf s" for n m s
    using cam_rest_sel [OF cam_rest_read_exact [of "unat m" SIZE_POLLS SIZE_POLL_US s]]
    by (simp add: cam_metadata_def case_prod_beta)
  obtain a2 s2 where s2: "uart_read_byte ACK_POLLS ACK_POLL_US (uart_write_byte CMD_CAPTURE (uart_flush s)) = (a2, s2)"
    by fastforce
  obtain o3 b3 s3 where s3: "uart_read_exact 4 SIZE_POLLS SIZE_POLL_US s2 = ((o3, b3), s3)" by (metis prod.exhaust)
  obtain o4 b4 s4 where s4: "uart_read_exact 2 SIZE_POLLS SIZE_POLL_US s3 = ((o4, b4), s4)" by (metis prod.exhaust)
  have e: "cam_rest s2 = cam_rest s" "cam_rest s3 = cam_rest s" "cam_rest s4 = cam_rest s"
    using rb [OF s2] re [OF s3] re [OF s4] by simp_all
  show ?thesis
    using cam_rest_sel [OF e(1)] cam_rest_sel [OF e(2)] cam_rest_sel [OF e(3)] md [of "le32 b3" "le16 b4" s4]
    by (simp add: cam_capture_def s2 s3 s4 Let_def)
qed

text \<open>
  C23: Whatever the board sends, an application run that fails has put nothing into the ring, so the consumer never sees
  part of a picture, and a run that returns has closed the UART it opened.\<close>

theorem camera_failure_pushes_nothing:
  assumes "\<not> uart_open s" "camera_MSN2_main uart_ok spi_ok s = (r, s')"
  shows "(r \<noteq> Ret 0 \<longrightarrow> pushed s' = []) \<and> (r \<noteq> Fault \<longrightarrow> \<not> uart_open s')"
proof -
  define s1 where "s1 = uart_flush (s\<lparr>pushed := [], uart_open := True\<rparr>)"
  obtain h s2 where s2: "uart_handshake s1 = (h, s2)" by fastforce
  obtain c s3 where s3: "cam_capture s2 = (c, s3)" by fastforce
  have "pushed s1 = []" by (simp add: s1_def uart_flush_def)
  moreover have "pushed s2 = pushed s1"
    using cam_rest_sel(1) [OF cam_rest_handshake [of s1]] s2 by simp
  ultimately have p: "pushed s1 = []" "pushed s2 = []" "pushed s3 = []"
    using cam_capture_frame [of s2] s3 by simp_all
  have sp: "pushed (spi_read_image n (t\<lparr>image_buf := b\<rparr>)) = pushed t" for n b t
  proof -
    have "pushed (read_blocks k off t) = pushed t" for k off t
    proof (induction k off t rule: read_blocks.induct)
      case (1 k off t)
      then show ?case by (subst read_blocks.simps) (simp add: Let_def SPI_EXCHANGE_def)
    qed
    then show ?thesis by (simp add: spi_read_image_def discard_sync_eq Let_def)
  qed
  show ?thesis
    using assms p s2 s3 sp
    by (auto simp: camera_MSN2_main_def Let_def s1_def [symmetric] close_uart_def usleep_def
        split: if_splits option.splits)
qed

theorem camera_failure_pushes_nothing_witness:
  "\<exists>r s'. camera_MSN2_main True False (demo_cam 3) = (r, s') \<and> r = Ret (- 1) \<and> pushed s' = [] \<and> \<not> uart_open s'"
proof -
  obtain r s' where main: "camera_MSN2_main True False (demo_cam 3) = (r, s')" by fastforce
  then have "r = Ret (- 1)" by (simp add: camera_MSN2_main_def Let_def)
  with main camera_failure_pushes_nothing [OF _ main] show ?thesis by (simp add: demo_cam_def)
qed

section \<open>Waiting is bounded\<close>

lemma slept_read_byte: "slept (snd (uart_read_byte n us s)) \<le> slept s + n * us"
proof (induction n arbitrary: s)
  case (Suc n)
  obtain r s' where rd: "uart_read s = (r, s')" by fastforce
  then have s': "slept s' = slept s" by (auto split: list.splits)
  show ?case
    using Suc [of s'] Suc [of "usleep us s'"] rd s'
    by (cases r; cases "us = 0") (simp_all add: usleep_def del: uart_read.simps)
qed simp

lemma slept_read_exact: "slept (snd (uart_read_exact n r us s)) \<le> slept s + n * (r * us)"
proof (induction n arbitrary: s)
  case (Suc n)
  obtain v s' where rd: "uart_read_byte r us s = (v, s')" by fastforce
  then have "slept s' \<le> slept s + r * us" using slept_read_byte [of r us s] by simp
  moreover obtain ok vs s'' where "uart_read_exact n r us s' = ((ok, vs), s'')" by (metis prod.exhaust)
  ultimately show ?case using rd Suc [of s'] by (cases v) simp_all
qed simp

lemma slept_handshake_poll: "slept (snd (handshake_poll n s)) \<le> slept s + n * 100000"
proof (induction n arbitrary: s)
  case (Suc n)
  obtain r s' where rd: "uart_read_byte 1 0 s = (r, s')" by fastforce
  then have "slept s' \<le> slept s" using slept_read_byte [of 1 0 s] by simp
  with rd Suc [of "usleep 100000 s'"] show ?case
    by (simp add: uart_flush_def usleep_def del: uart_read_byte.simps)
qed simp

lemma slept_handshake_tries: "slept (snd (handshake_tries n s)) \<le> slept s + n * (HANDSHAKE_POLLS * 100000)"
proof (induction n arbitrary: s)
  case (Suc n)
  obtain ok s' where hp: "handshake_poll HANDSHAKE_POLLS (uart_write_byte CMD_HANDSHAKE (uart_flush s)) = (ok, s')"
    by fastforce
  then have "slept s' \<le> slept s + HANDSHAKE_POLLS * 100000"
    using slept_handshake_poll [of HANDSHAKE_POLLS "uart_write_byte CMD_HANDSHAKE (uart_flush s)"]
    by (simp add: uart_write_byte_def uart_flush_def)
  with hp Suc [of s'] show ?case by (cases ok) simp_all
qed simp

lemma slept_handshake: "slept (snd (uart_handshake s)) \<le> slept s + 25000000"
  using slept_handshake_tries [of HANDSHAKE_TRIES s]
  by (simp add: uart_handshake_def case_prod_beta camera_consts)

lemma slept_capture: "slept (snd (cam_capture s)) \<le> slept s + 69500000"
proof -
  define s1 where "s1 = uart_write_byte CMD_CAPTURE (uart_flush s)"
  obtain a2 s2 where s2: "uart_read_byte ACK_POLLS ACK_POLL_US s1 = (a2, s2)" by fastforce
  obtain o3 b3 s3 where s3: "uart_read_exact 4 SIZE_POLLS SIZE_POLL_US s2 = ((o3, b3), s3)" by (metis prod.exhaust)
  obtain o4 b4 s4 where s4: "uart_read_exact 2 SIZE_POLLS SIZE_POLL_US s3 = ((o4, b4), s4)" by (metis prod.exhaust)
  have "slept s1 = slept s" by (simp add: s1_def uart_write_byte_def uart_flush_def)
  then have e2: "slept s2 \<le> slept s + 3000000"
    using slept_read_byte [of ACK_POLLS ACK_POLL_US s1] s2 by (simp add: camera_consts)
  then have e3: "slept s3 \<le> slept s + 5000000"
    using slept_read_exact [of 4 SIZE_POLLS SIZE_POLL_US s2] s3 by (simp add: camera_consts)
  then have e4: "slept s4 \<le> slept s + 6000000"
    using slept_read_exact [of 2 SIZE_POLLS SIZE_POLL_US s3] s4 by (simp add: camera_consts)
  have "slept (snd (cam_metadata (le32 b3) m s4)) \<le> slept s + 69500000" if "\<not> of_nat META_BUF_SIZE \<le> m" for m
  proof -
    have "unat m \<le> 127" using that by (simp add: camera_consts word_le_nat_alt)
    moreover have "slept (snd (cam_metadata (le32 b3) m s4)) =
        slept (snd (uart_read_exact (unat m) SIZE_POLLS SIZE_POLL_US s4))"
      by (simp add: cam_metadata_def case_prod_beta)
    ultimately show ?thesis
      using e4 slept_read_exact [of "unat m" SIZE_POLLS SIZE_POLL_US s4] by (simp add: camera_consts)
  qed
  with e2 e3 e4 show ?thesis
    by (simp add: cam_capture_def s1_def [symmetric] s2 s3 s4 Let_def)
qed

text \<open>
  C27: Up to the point where it feeds the ring, the application spends at most 94.525 seconds asleep, whatever the board
  does: 25 s for the handshake, 3 s for the acknowledgement, half a second for each of the six size
  bytes and of at most 127 metadata bytes, and the 25 ms before the transfer.\<close>

theorem camera_sleep_bound:
  "slept (snd (camera_MSN2_main uart_ok spi_ok s)) \<le> slept s + 94525000"
proof -
  define s1 where "s1 = uart_flush (s\<lparr>pushed := [], uart_open := True\<rparr>)"
  obtain h s2 where s2: "uart_handshake s1 = (h, s2)" by fastforce
  obtain c s3 where s3: "cam_capture s2 = (c, s3)" by fastforce
  have "slept s1 = slept s" by (simp add: s1_def uart_flush_def)
  then have b: "slept s2 \<le> slept s + 25000000" "slept s3 \<le> slept s + 94500000"
    using slept_handshake [of s1] slept_capture [of s2] s2 s3 by simp_all
  have rb: "slept (read_blocks k off t) = slept t" for k off t
  proof (induction k off t rule: read_blocks.induct)
    case (1 k off t)
    then show ?case by (subst read_blocks.simps) (simp add: Let_def SPI_EXCHANGE_def)
  qed
  have sp: "slept (spi_read_image n (t\<lparr>image_buf := x\<rparr>)) = slept t" for n t x
    by (simp add: spi_read_image_def discard_sync_eq Let_def rb)
  have us: "slept (usleep SPI_CS_DELAY_US s3) = slept s3 + 25000" by (simp add: usleep_def camera_consts)
  show ?thesis
    using b by (auto simp: camera_MSN2_main_def Let_def s1_def [symmetric] s2 s3 close_uart_def push_image_eq sp us
        \<open>slept s1 = slept s\<close> split: option.split)
qed

text \<open>With a silent board the handshake gives up after five commands and 25 seconds.\<close>

lemma handshake_poll_silent: "uin s = [] \<Longrightarrow> handshake_poll n s = (False, s\<lparr>slept := slept s + n * 100000\<rparr>)"
  by (induction n arbitrary: s) (simp_all add: usleep_def)

lemma handshake_tries_silent:
  "uin s = [] \<Longrightarrow> handshake_tries n s =
     (False, s\<lparr>uout := uout s @ replicate n CMD_HANDSHAKE, slept := slept s + n * 5000000\<rparr>)"
  by (induction n arbitrary: s)
    (simp_all add: uart_write_byte_def uart_flush_def handshake_poll_silent HANDSHAKE_POLLS_def
      replicate_append_same [symmetric])

text \<open>
  When the board stays silent the application fails after exactly five handshake commands and 25 seconds
  of polling, without having touched the ring.\<close>

theorem camera_silent_board:
  assumes "uin s = []" "camera_MSN2_main True True s = (r, s')"
  shows "r = Ret (- 1) \<and> uout s' = uout s @ replicate HANDSHAKE_TRIES CMD_HANDSHAKE \<and>
    slept s' = slept s + 25000000 \<and> pushed s' = []"
  using assms
  by (auto simp: camera_MSN2_main_def Let_def uart_handshake_def handshake_tries_silent uart_flush_def
      close_uart_def HANDSHAKE_TRIES_def)

theorem camera_silent_board_witness:
  "fst (camera_MSN2_main True True ((demo_cam 3)\<lparr>uin := []\<rparr>)) = Ret (- 1)"
  using camera_silent_board [of "(demo_cam 3)\<lparr>uin := []\<rparr>"] by (metis fst_conv prod.exhaust cam_s.select_convs(1)
      cam_s.surjective cam_s.update_convs(1))

section \<open>Feeding the ring\<close>

text \<open>The ring after \<open>n\<close> further pauses in which the application could not write.\<close>

fun paused :: "(nat \<Rightarrow> ring_buffer_s \<Rightarrow> ring_buffer_s) \<Rightarrow> nat \<Rightarrow> nat \<Rightarrow> ring_buffer_s \<Rightarrow> ring_buffer_s" where
  "paused env t 0 rb = rb"
| "paused env t (Suc n) rb = paused env (Suc t) n (env t rb)"

lemma rb_write_body_cases:
  "rb_write_body c rb = (if count rb < RB_DEPTH then (0, rb_count_up (rb_advance_wr (rb_copy_in c rb))) else (- 1, rb))"
  by (simp add: rb_write_body_def not_less)

lemma rb_push_ends:
  assumes "count (paused env t n rb) < RB_DEPTH"
  shows "\<exists>rb'. rb_push env t c rb = Some rb'"
  using assms
proof (induction n arbitrary: t rb)
  case 0
  then show ?case by (subst rb_push.simps) (simp add: rb_write_body_cases)
next
  case (Suc n)
  then show ?case by (subst rb_push.simps) (simp add: rb_write_body_cases)
qed

lemma rb_push_result:
  assumes "rb_push env t c rb = Some rb'"
  shows "\<exists>n. count (paused env t n rb) < RB_DEPTH \<and>
    rb' = rb_count_up (rb_advance_wr (rb_copy_in c (paused env t n rb)))"
proof -
  define P where "P = (\<lambda>env t c rb rb'. \<exists>n. count (paused env t n rb) < RB_DEPTH \<and>
    rb' = rb_count_up (rb_advance_wr (rb_copy_in c (paused env t n rb))))"
  have "P env t c rb rb'"
  proof (rule rb_push.raw_induct [of P, OF _ assms])
    fix self env t c rb rb'
    assume ih: "\<And>env t c rb rb'. self env t c rb = Some rb' \<Longrightarrow> P env t c rb rb'"
      and eq: "(case rb_write_body c rb of
        (r, rb') \<Rightarrow> if r = 0 then Some rb' else self env (Suc t) c (env t rb')) = Some rb'"
    show "P env t c rb rb'"
    proof (cases "count rb < RB_DEPTH")
      case True
      with eq show ?thesis unfolding P_def by (intro exI [of _ 0]) (simp add: rb_write_body_cases)
    next
      case False
      with eq have "self env (Suc t) c (env t rb) = Some rb'" by (simp add: rb_write_body_cases)
      from ih [OF this] obtain n where "count (paused env (Suc t) n (env t rb)) < RB_DEPTH"
          "rb' = rb_count_up (rb_advance_wr (rb_copy_in c (paused env (Suc t) n (env t rb))))"
        unfolding P_def by blast
      then show ?thesis unfolding P_def by (intro exI [of _ "Suc n"]) simp
    qed
  qed
  then show ?thesis by (simp add: P_def)
qed

lemma paused_inv: "(\<And>t rb. rb_inv rb \<Longrightarrow> rb_inv (env t rb)) \<Longrightarrow> rb_inv rb \<Longrightarrow> rb_inv (paused env t n rb)"
  by (induction n arbitrary: t rb) simp_all

text \<open>
  C21: Feeding a chunk to the ring returns exactly if the other tasks at some time leave a free slot, and then the
  chunk is the newest one in the ring, behind all that the ring held at that time.\<close>

theorem rb_push_returns_iff_room:
  assumes "\<And>t rb. rb_inv rb \<Longrightarrow> rb_inv (env t rb)" "rb_inv rb"
  shows "((\<exists>rb'. rb_push env t c rb = Some rb') \<longleftrightarrow> (\<exists>n. count (paused env t n rb) < RB_DEPTH)) \<and>
    (\<forall>rb'. rb_push env t c rb = Some rb' \<longrightarrow>
       rb_inv rb' \<and> (\<exists>n. rb_contents rb' = rb_contents (paused env t n rb) @ [c]))"
proof -
  have "rb_inv rb' \<and> (\<exists>n. rb_contents rb' = rb_contents (paused env t n rb) @ [c])"
    if push: "rb_push env t c rb = Some rb'" for rb'
  proof -
    obtain n where n: "count (paused env t n rb) < RB_DEPTH"
        "rb' = rb_count_up (rb_advance_wr (rb_copy_in c (paused env t n rb)))"
      using rb_push_result [OF push] by blast
    have "rb_inv (paused env t n rb)" using paused_inv [OF assms] .
    then show ?thesis
      using rb_write_stmts [of "paused env t n rb" c] n by (auto simp: word_less_nat_alt)
  qed
  moreover have "(\<exists>rb'. rb_push env t c rb = Some rb') \<longleftrightarrow> (\<exists>n. count (paused env t n rb) < RB_DEPTH)"
    by (auto intro: rb_push_ends dest: rb_push_result)
  ultimately show ?thesis by simp
qed

definition demo_ring :: ring_buffer_s where
  "demo_ring = \<lparr>slots = replicate 64 zero_chunk, wr_ptr = 64, rd_ptr = 0, count = 64\<rparr>"

text \<open>A full ring from which another task takes a chunk during each pause.\<close>

theorem rb_push_returns_iff_room_witness:
  "\<exists>rb'. rb_push (\<lambda>_ rb. snd (rb_get rb)) 0 zero_chunk demo_ring = Some rb' \<and> rb_inv rb'"
proof -
  have inv: "rb_inv (snd (rb_get rb))" if "rb_inv rb" for rb
    using rbq.get_cases [OF that] that by (metis snd_conv)
  have full: "rb_inv demo_ring" by (simp add: rb_inv_def demo_ring_def RB_DEPTH_def)
  have "count (paused (\<lambda>_ rb. snd (rb_get rb)) 0 1 demo_ring) < RB_DEPTH"
    by (simp add: demo_ring_def rb_get_def rb_read_body_def rb_stmt_defs RB_DEPTH_def)
  then show ?thesis
    using rb_push_returns_iff_room [of "\<lambda>_ rb. snd (rb_get rb)" demo_ring 0 zero_chunk] inv full by blast
qed

end
