(* ===== verification/Hello.thy ===== *)
theory Hello
  imports Ring_Buffer "HOL-Library.Sublist"
begin

text \<open>
  The display application (\<^verbatim>\<open>apps/examples/hello/hello_main.c\<close>): it polls the ring, skips
  metadata and prints the picture as hexadecimal digits.  The model takes the outcomes of its
  successive calls of \<^verbatim>\<open>rb_read\<close>, \<open>None\<close> for an empty ring, and gives what it has printed and
  whether it goes on polling, has finished, or has read behind the end of a chunk.
\<close>

datatype hello_status = Polling | Finished | Faulted

definition hex_digit :: "nat \<Rightarrow> char" where
  "hex_digit n = (''0123456789ABCDEF'' ! n)"

text \<open>\<^verbatim>\<open>printf("%02X", b)\<close>.\<close>

definition print_02X :: "u8 \<Rightarrow> string" where
  "print_02X b = [hex_digit (unat b div 16), hex_digit (unat b mod 16)]"

fun hello_main :: "image_chunk_s option list \<Rightarrow> string \<times> hello_status" where
  "hello_main [] = ([], Polling)"
| "hello_main (None # rs) = hello_main rs"
| "hello_main (Some chunk # rs) =
     (if is_meta chunk \<noteq> 0 then hello_main rs
      else if length (data chunk) < unat (len chunk) then ([], Faulted)
      else
        (let text = concat (map print_02X (take (unat (len chunk)) (data chunk)))
         in if is_last chunk \<noteq> 0 then (text @ [CHR 0x0A], Finished)
            else (case hello_main rs of (text', st) \<Rightarrow> (text @ text', st))))"

section \<open>Reading back the digits\<close>

text \<open>What the host does with the output: two digits make a byte.\<close>

definition digit_value :: "char \<Rightarrow> nat option" where
  "digit_value c = map_of (zip ''0123456789ABCDEF'' [0..<16]) c"

fun unhexlify :: "string \<Rightarrow> u8 list option" where
  "unhexlify [] = Some []"
| "unhexlify [c] = None"
| "unhexlify (c # d # cs) =
     (case (digit_value c, digit_value d, unhexlify cs) of
        (Some x, Some y, Some bs) \<Rightarrow> Some (of_nat (16 * x + y) # bs)
      | _ \<Rightarrow> None)"

lemma digit_value_hex_digit:
  assumes "n < 16"
  shows "digit_value (hex_digit n) = Some n"
proof -
  have "\<forall>n \<in> set [0..<16]. digit_value (hex_digit n) = Some n"
    by code_simp
  with assms show ?thesis by simp
qed

lemma unhexlify_print: "unhexlify (concat (map print_02X bs)) = Some bs"
proof (induction bs)
  case (Cons b bs)
  have "unat b < 2 ^ LENGTH(8)" by (rule unsigned_less)
  then have "unat b div 16 < 16" by simp
  moreover have "of_nat (16 * (unat b div 16) + unat b mod 16) = b" by (simp only: mult_div_mod_eq) simp
  ultimately show ?case using Cons by (simp add: print_02X_def digit_value_hex_digit)
qed simp

section \<open>What is printed\<close>

text \<open>The chunks that were read, in order.\<close>

definition chunks_read :: "image_chunk_s option list \<Rightarrow> image_chunk_s list" where
  "chunks_read rs = List.map_filter id rs"

lemma chunks_read_simps [simp]:
  "chunks_read [] = []" "chunks_read (None # rs) = chunks_read rs" "chunks_read (Some c # rs) = c # chunks_read rs"
  by (simp_all add: chunks_read_def map_filter_simps)

lemma chunks_read_all [simp]: "chunks_read (map Some cs) = cs"
  by (induction cs) simp_all

lemma hello_polls: "hello_main rs = hello_main (map Some (chunks_read rs))"
  by (induction rs rule: hello_main.induct) (auto simp: Let_def)

text \<open>A chunk that the display accepts as part of the picture, not the last one.\<close>

definition inner_chunk :: "image_chunk_s \<Rightarrow> bool" where
  "inner_chunk c \<longleftrightarrow> is_meta c = 0 \<and> is_last c = 0 \<and> unat (len c) \<le> length (data c)"

lemma hello_inner:
  assumes "\<forall>c \<in> set cs. inner_chunk c"
  shows "hello_main (map Some cs @ rs) =
    (concat (map print_02X (concat (map payload cs))) @ fst (hello_main rs), snd (hello_main rs))"
  using assms by (induction cs) (auto simp: inner_chunk_def payload_def case_prod_beta)

text \<open>What a producer puts into the ring for one picture: metadata, then the data chunks, the last one marked.\<close>

definition picture_chunks :: "image_chunk_s list \<Rightarrow> u8 list \<Rightarrow> bool" where
  "picture_chunks cs img \<longleftrightarrow>
     (\<exists>mc dcs c. cs = mc # dcs @ [c] \<and> is_meta mc \<noteq> 0 \<and> (\<forall>d \<in> set dcs. inner_chunk d) \<and>
        is_meta c = 0 \<and> is_last c \<noteq> 0 \<and> unat (len c) \<le> length (data c) \<and> concat (map payload (dcs @ [c])) = img)"

definition picture_text :: "u8 list \<Rightarrow> string" where
  "picture_text img = concat (map print_02X img) @ [CHR 0x0A]"

lemma hello_picture:
  assumes "picture_chunks cs img" "prefix (chunks_read rs) cs" "hello_main rs = (out, st)"
  shows "prefix out (picture_text img) \<and> st = (if chunks_read rs = cs then Finished else Polling) \<and>
    (st = Finished \<longrightarrow> out = picture_text img \<and> unhexlify (butlast out) = Some img)"
proof -
  from assms(1) obtain mc dcs c where cs: "cs = mc # dcs @ [c]" and mc: "is_meta mc \<noteq> 0"
    and inner: "\<forall>d \<in> set dcs. inner_chunk d"
    and c: "is_meta c = 0" "is_last c \<noteq> 0" "unat (len c) \<le> length (data c)"
    and img: "concat (map payload (dcs @ [c])) = img"
    unfolding picture_chunks_def by blast
  have out: "(out, st) = hello_main (map Some (chunks_read rs))" using hello_polls [of rs] assms(3) by simp
  show ?thesis
  proof (cases "chunks_read rs = cs")
    case True
    have "hello_main (map Some cs) = (picture_text img, Finished)"
      using hello_inner [OF inner, of "[Some c]"] mc c by (simp add: cs picture_text_def payload_def img [symmetric])
    with True out show ?thesis by (simp add: picture_text_def unhexlify_print)
  next
    case False
    then have "prefix (chunks_read rs) (mc # dcs)"
      using assms(2) cs by (metis append_Cons prefix_snoc)
    then consider "chunks_read rs = []" | ds es where "chunks_read rs = mc # ds" "dcs = ds @ es"
      by (cases "chunks_read rs") (auto simp: prefix_def)
    then show ?thesis
    proof cases
      case (2 ds es)
      with hello_inner [of ds "[]"] inner mc out
      have "(out, st) = (concat (map print_02X (concat (map payload ds))), Polling)" by simp
      moreover have "img = concat (map payload ds) @ concat (map payload (es @ [c]))" using img 2(2) by simp
      ultimately show ?thesis using False by (simp add: picture_text_def)
    qed (use out False in simp)
  qed
qed

text \<open>
  C16: When the chunks the display has read so far are an initial part of those of a picture, however often it found the
  ring empty in between, it has printed an initial part of the picture's hexadecimal digits and no read went
  beyond a chunk; it has finished exactly when it has read them all, and then the digits decode to the picture.\<close>

theorem hello_prints_picture:
  assumes "picture_chunks cs img" "prefix (chunks_read rs) cs" "hello_main rs = (out, st)"
  shows "prefix out (picture_text img) \<and> st = (if chunks_read rs = cs then Finished else Polling) \<and>
    (st = Finished \<longrightarrow> out = picture_text img \<and> unhexlify (butlast out) = Some img)"
  by (rule hello_picture [OF assms])

definition demo_chunks :: "image_chunk_s list" where
  "demo_chunks = [zero_chunk\<lparr>is_meta := 1\<rparr>, zero_chunk\<lparr>data := replicate 256 0xFF, len := 1\<rparr>,
     zero_chunk\<lparr>data := replicate 256 0xD9, len := 1, is_last := 1\<rparr>]"

lemma demo_picture: "picture_chunks demo_chunks [0xFF, 0xD9]"
  unfolding picture_chunks_def demo_chunks_def
  by (intro exI [of _ "zero_chunk\<lparr>is_meta := 1\<rparr>"] exI [of _ "[zero_chunk\<lparr>data := replicate 256 0xFF, len := 1\<rparr>]"]
      exI [of _ "zero_chunk\<lparr>data := replicate 256 0xD9, len := 1, is_last := 1\<rparr>"])
    (simp add: inner_chunk_def zero_chunk_def payload_def)

theorem hello_prints_picture_witness:
  "snd (hello_main [None, Some (demo_chunks ! 0), Some (demo_chunks ! 1), None, Some (demo_chunks ! 2)]) = Finished"
proof -
  let ?rs = "[None, Some (demo_chunks ! 0), Some (demo_chunks ! 1), None, Some (demo_chunks ! 2)]"
  have "chunks_read ?rs = demo_chunks" by (simp add: demo_chunks_def)
  then show ?thesis
    using hello_prints_picture [OF demo_picture, of ?rs "fst (hello_main ?rs)" "snd (hello_main ?rs)"] by simp
qed

end
