(* ===== verification/Launcher.thy ===== *)
theory Launcher
  imports NxSem
begin

text \<open>
  Creating tasks (\<^verbatim>\<open>nuttx/sched/task/task_create.c\<close>, \<^verbatim>\<open>task_init.c\<close>) and the launcher that starts the
  camera and the display (\<^verbatim>\<open>apps/examples/camera_launcher/launcher.c\<close>).  The steps of the creation
  that allocate memory or set up the task group, its environment, files, stack and arguments
  have no effect on the scheduler; a record has their outcomes.
\<close>

section \<open>Creating a task\<close>

record create_env =
  c_tcb :: bool
  c_group :: "errno option"
  c_environ :: "errno option"
  c_files :: "errno option"
  c_stack :: "errno option"
  c_pids :: "bool list"
  c_tls :: "errno option"
  c_args :: "errno option"

text \<open>The outcome of the steps up to the first that fails.\<close>

fun first_error :: "errno option list \<Rightarrow> errno option" where
  "first_error [] = None"
| "first_error (None # es) = first_error es"
| "first_error (Some e # es) = Some e"

text \<open>
  \<^verbatim>\<open>nxtask_init\<close>.  On failure \<^verbatim>\<open>errout_with_group\<close> frees the stack and leaves the group; it undoes
  nothing of \<^verbatim>\<open>nxtask_setup_scheduler\<close>.
\<close>

definition nxtask_init :: "create_env \<Rightarrow> int \<Rightarrow> kernel \<Rightarrow> (pid res) option \<times> kernel" where
  "nxtask_init ce priority k =
     (case first_error [c_group ce, c_environ ce, c_files ce, c_stack ce] of
        Some e \<Rightarrow> (Some (Inl e), k)
      | None \<Rightarrow>
          (case nxthread_setup_scheduler priority (c_pids ce) k of
             (Some (Inr p), k1) \<Rightarrow>
               (case first_error [c_tls ce, c_args ce] of
                  Some e \<Rightarrow> (Some (Inl e), k1)
                | None \<Rightarrow> (Some (Inr p), k1))
           | (r, k1) \<Rightarrow> (r, k1)))"

definition nxthread_create :: "create_env \<Rightarrow> int \<Rightarrow> kernel \<Rightarrow> (pid res) option \<times> kernel" where
  "nxthread_create ce priority k =
     (if \<not> c_tcb ce then (Some (Inl ENOMEM), k)
      else
        (case nxtask_init ce priority k of
           (Some (Inr p), k1) \<Rightarrow> (Some (Inr p), nxtask_activate p k1)
         | (r, k1) \<Rightarrow> (r, k1)))"

text \<open>\<^verbatim>\<open>task_create\<close>: the pid, or -1; \<open>None\<close> as for \<open>nxtask_assign_pid\<close> when the outcomes of its allocations run out.\<close>

definition task_create :: "create_env \<Rightarrow> int \<Rightarrow> kernel \<Rightarrow> int option \<times> kernel" where
  "task_create ce priority k =
     (case nxthread_create ce priority k of
        (r, k') \<Rightarrow> (map_option (\<lambda>r. case r of Inl _ \<Rightarrow> - 1 | Inr p \<Rightarrow> int p) r, k'))"

section \<open>The launcher\<close>

definition launcher_main :: "create_env \<Rightarrow> create_env \<Rightarrow> kernel \<Rightarrow> (int \<times> int option \<times> int option) \<times> kernel" where
  "launcher_main ce_cam ce_hello k =
     (case task_create ce_cam 100 k of
        (cam_pid, k1) \<Rightarrow>
          case task_create ce_hello 100 k1 of
            (hello_pid, k2) \<Rightarrow> ((0, cam_pid, hello_pid), k2))"

section \<open>A creation that succeeds\<close>

definition plenty :: "create_env \<Rightarrow> bool" where
  "plenty ce \<longleftrightarrow> c_tcb ce \<and> c_group ce = None \<and> c_environ ce = None \<and> c_files ce = None \<and> c_stack ce = None \<and>
     c_tls ce = None \<and> c_args ce = None \<and> (\<exists>m. c_pids ce = [True, m])"

text \<open>What a successful creation of a task of priority 100 changes for the scheduler when it need not preempt.\<close>

definition created :: "pid \<Rightarrow> kernel \<Rightarrow> kernel \<Rightarrow> bool" where
  "created p k k' \<longleftrightarrow> sched_inv k' \<and> pid_inv k' \<and> 1 \<le> p \<and> nxsched_get_tcb k p = None \<and> p \<notin> set (g_readytorun k) \<and>
     (\<forall>q. nxsched_get_tcb k' q = (if q = p then Some p else nxsched_get_tcb k q)) \<and>
     (\<forall>q. prio k' q = (if q = p then 100 else prio k q)) \<and>
     (\<forall>q. q \<noteq> p \<longrightarrow> lockcount (tcbs k' q) = lockcount (tcbs k q)) \<and>
     this_task k' = this_task k \<and> length (g_pidhash k') \<le> 2 * length (g_pidhash k) \<and>
     g_readytorun k' = takeWhile (\<lambda>n. 100 \<le> prio k n) (g_readytorun k) @ p #
       dropWhile (\<lambda>n. 100 \<le> prio k n) (g_readytorun k)"

lemma assign_pid_grows:
  assumes "nxtask_assign_pid [True, m] k = (Some (Inr p), k')"
  shows "length (g_pidhash k') \<le> 2 * length (g_pidhash k)"
  using assms by (cases m) (auto split: option.splits)

lemma create_succeeds:
  assumes inv: "sched_inv k" "pid_inv k" and small: "length (g_pidhash k) \<le> 2 ^ 29"
    and ce: "plenty ce" and run: "\<not> nxsched_islocked_tcb k (this_task k)" "100 \<le> prio k (this_task k)"
  obtains p k' where "nxthread_create ce 100 k = (Some (Inr p), k')" "created p k k'"
proof -
  obtain m where m: "c_pids ce = [True, m]" using ce by (auto simp: plenty_def)
  have ok: "tab_ok (g_pidhash k)" "g_lastpid k < 2 ^ 31" using inv(2) by (simp_all add: pid_inv_def)
  obtain p k1 where a: "nxtask_assign_pid [True, m] k = (Some (Inr p), k1)" and added: "pid_added p k k1"
    using assign_pid_added [OF ok(1) _ ok(2), of m] small by auto
  define k2 where "k2 = snd (nxthread_setup_scheduler 100 [True, m] k)"
  define k' where "k' = nxtask_activate p k2"
  have k1: "k1 = k\<lparr>g_pidhash := g_pidhash k1, g_lastpid := p\<rparr>" and p1: "1 \<le> p" and fresh: "nxsched_get_tcb k p = None"
    using added by (simp_all add: pid_added_def)
  have k2: "k2 = k1\<lparr>tcbs := (tcbs k1)(p := new_tcb 100), g_inactivetasks := p # g_inactivetasks k1\<rparr>"
    by (simp add: k2_def nxthread_setup_scheduler_def a del: nxtask_assign_pid.simps)
  have sel: "tcbs k2 = (tcbs k)(p := new_tcb 100)" "g_readytorun k2 = g_readytorun k"
      "g_pendingtasks k2 = g_pendingtasks k" "g_pidhash k2 = g_pidhash k1"
    unfolding k2 by (subst k1; simp)+
  have "sched_step k k2"
    unfolding k2_def by (rule step_create) (use small in simp_all)
  then have inv2: "sched_inv k2" "pid_inv k2" using sched_step_inv inv by blast+
  have "task_state (tcbs k2 p) = TSTATE_TASK_INACTIVE" by (simp add: sel new_tcb_def)
  then have "sched_step k2 k'" unfolding k'_def by (rule step_activate)
  then have inv': "sched_inv k'" "pid_inv k'" using sched_step_inv inv2 by blast+
  have core: "sched_core k" using inv(1) by (simp add: sched_inv_def)
  have notlive: "p \<notin> live k" using inv(2) fresh by (auto simp: pid_inv_def)
  then have np: "p \<notin> set (g_readytorun k)"
    using live_listed(1) [OF core] by (auto simp: runnable_def)
  define k3 where "k3 = nxsched_remove_blocked p k2"
  have k3: "tcbs k3 = (tcbs k)(p := (new_tcb 100)\<lparr>waitobj := None, task_state := TSTATE_TASK_INVALID\<rparr>)"
      "g_readytorun k3 = g_readytorun k" "g_pidhash k3 = g_pidhash k1"
    by (simp_all add: k3_def nxsched_remove_blocked_def Let_def sel upd_tcb_def new_tcb_def fun_eq_iff)
  have t: "this_task k3 = this_task k" "this_task k \<noteq> p"
    using this_task_in [OF core] np by (auto simp: this_task_def k3)
  have pr: "prio k3 q = (if q = p then 100 else prio k q)" for q by (simp add: prio_def k3 new_tcb_def)
  have l3: "\<not> nxsched_islocked_tcb k3 (this_task k3)" using run t by (simp add: nxsched_islocked_tcb_def k3)
  have ne: "g_readytorun k \<noteq> []" using core by (simp add: sched_core_def)
  have nohead: "\<not> fst (nxsched_add_prioritized k3 p (g_readytorun k))"
    using run(2) ne pr t by (cases "g_readytorun k") (auto simp: nxsched_add_prioritized_def this_task_def Let_def)
  define l where "l = snd (nxsched_add_prioritized k3 p (g_readytorun k))"
  have kk: "k' = set_state p TSTATE_TASK_READYTORUN (k3\<lparr>g_readytorun := l\<rparr>)"
    using l3 nohead by (simp add: k'_def nxtask_activate_def k3_def [symmetric] nxsched_add_readytorun_def
        Let_def case_prod_beta k3 l_def)
  have lt: "l = takeWhile (\<lambda>n. 100 \<le> prio k n) (g_readytorun k) @ p # dropWhile (\<lambda>n. 100 \<le> prio k n) (g_readytorun k)"
  proof -
    have e: "\<And>n. n \<in> set (g_readytorun k) \<Longrightarrow> (prio k3 p \<le> prio k3 n) = (100 \<le> prio k n)"
      using np pr by (metis (full_types))
    have "takeWhile (\<lambda>n. prio k3 p \<le> prio k3 n) (g_readytorun k) = takeWhile (\<lambda>n. 100 \<le> prio k n) (g_readytorun k)"
      by (rule takeWhile_cong [OF refl e])
    moreover have "dropWhile (\<lambda>n. prio k3 p \<le> prio k3 n) (g_readytorun k) = dropWhile (\<lambda>n. 100 \<le> prio k n) (g_readytorun k)"
      by (rule dropWhile_cong [OF refl e])
    ultimately show ?thesis unfolding l_def add_prioritized_snd by simp
  qed
  have "this_task k' = this_task k"
    using run(2) ne by (cases "g_readytorun k") (auto simp: kk lt this_task_def set_state_def upd_tcb_def)
  moreover have "prio k' q = (if q = p then 100 else prio k q)"
      "q \<noteq> p \<Longrightarrow> lockcount (tcbs k' q) = lockcount (tcbs k q)" for q
    by (simp_all add: kk k3 set_state_def upd_tcb_def prio_def new_tcb_def)
  moreover have gp: "g_pidhash k' = g_pidhash k1" "g_readytorun k' = l"
    by (simp_all add: kk k3 set_state_def upd_tcb_def)
  moreover have "nxsched_get_tcb k' = nxsched_get_tcb k1" by (rule get_tcb_cong [OF gp(1)])
  ultimately have "created p k k'"
    using inv' p1 fresh np lt assign_pid_grows [OF a] added
    unfolding created_def pid_added_def by simp
  moreover have "nxthread_create ce 100 k = (Some (Inr p), k')"
    using ce m a by (simp add: nxthread_create_def nxtask_init_def plenty_def nxthread_setup_scheduler_def
        k'_def k2 del: nxtask_assign_pid.simps)
  ultimately show thesis using that by blast
qed

lemma created_split:
  assumes "created p k k'" "sched_core k"
  obtains as bs where "g_readytorun k = as @ bs" "g_readytorun k' = as @ p # bs"
    "\<forall>n \<in> set as. 100 \<le> prio k n" "\<forall>n \<in> set bs. prio k n < 100"
proof -
  let ?as = "takeWhile (\<lambda>n. 100 \<le> prio k n) (g_readytorun k)"
  let ?bs = "dropWhile (\<lambda>n. 100 \<le> prio k n) (g_readytorun k)"
  have "prio k n < 100" if n: "n \<in> set ?bs" for n
  proof -
    obtain b cs where bs: "?bs = b # cs" using n by (cases ?bs) auto
    then have b: "prio k b < 100" by (simp add: dropWhile_eq_Cons_conv not_le)
    have "by_prio k (?as @ ?bs)" using assms(2) by (simp add: sched_core_def)
    then have "by_prio k (b # cs)" unfolding bs by_prio_append by simp
    with b n bs show ?thesis by (auto intro: le_less_trans)
  qed
  then show thesis
    using assms(1) by (intro that [of ?as ?bs]) (auto simp: created_def dest: set_takeWhileD)
qed

section \<open>Properties\<close>

text \<open>
  C20: When memory suffices, the launcher, running with at least the priority of the tasks it starts and
  without locking the scheduler, creates two new tasks with fresh pids and priority 100, goes on running and
  returns 0; the camera is in front of the display in the ready-to-run list, behind all ready tasks
  of its priority, and the scheduler and pid invariants hold.\<close>

theorem launcher_starts_both:
  assumes "sched_inv k" "pid_inv k" "length (g_pidhash k) \<le> 2 ^ 28" "plenty ce1" "plenty ce2"
    "\<not> nxsched_islocked_tcb k (this_task k)" "100 \<le> prio k (this_task k)" "launcher_main ce1 ce2 k = (r, k')"
  shows "sched_inv k' \<and> pid_inv k' \<and> this_task k' = this_task k \<and>
    (\<exists>p q as bs. r = (0, Some (int p), Some (int q)) \<and> p \<noteq> q \<and>
       nxsched_get_tcb k p = None \<and> nxsched_get_tcb k q = None \<and> prio k' p = 100 \<and> prio k' q = 100 \<and>
       g_readytorun k' = as @ p # q # bs \<and> g_readytorun k = as @ bs \<and>
       (\<forall>n \<in> set as. 100 \<le> prio k n) \<and> (\<forall>n \<in> set bs. prio k n < 100))"
proof -
  have small: "length (g_pidhash k) \<le> 2 ^ 29" using assms(3) by simp
  obtain p k1 where c1: "nxthread_create ce1 100 k = (Some (Inr p), k1)" and p: "created p k k1"
    by (rule create_succeeds [OF assms(1,2) small assms(4,6,7)])
  have core: "sched_core k" using assms(1) by (simp add: sched_inv_def)
  have tp: "this_task k \<noteq> p" using this_task_in [OF core] p by (auto simp: created_def)
  have inv1: "sched_inv k1" "pid_inv k1" and small1: "length (g_pidhash k1) \<le> 2 ^ 29"
      and run1: "\<not> nxsched_islocked_tcb k1 (this_task k1)" "100 \<le> prio k1 (this_task k1)"
    using p assms(3,6,7) tp by (simp_all add: created_def nxsched_islocked_tcb_def)
  obtain q k2 where c2: "nxthread_create ce2 100 k1 = (Some (Inr q), k2)" and q: "created q k1 k2"
    by (rule create_succeeds [OF inv1 small1 assms(5) run1])
  have main: "r = (0, Some (int p), Some (int q))" "k' = k2"
    using assms(8) c1 c2 by (simp_all add: launcher_main_def task_create_def)
  obtain as bs where r0: "g_readytorun k = as @ bs" and r1: "g_readytorun k1 = as @ p # bs"
    and as: "\<forall>n \<in> set as. 100 \<le> prio k n" and bs: "\<forall>n \<in> set bs. prio k n < 100"
    using created_split [OF p core] by blast
  have pr: "prio k1 p = 100" "\<And>n. n \<in> set (as @ bs) \<Longrightarrow> prio k1 n = prio k n"
    using p r0 by (auto simp: created_def)
  have "takeWhile (\<lambda>n. 100 \<le> prio k1 n) (as @ p # bs) = as @ [p]" "dropWhile (\<lambda>n. 100 \<le> prio k1 n) (as @ p # bs) = bs"
    using as bs pr by (cases bs; auto simp: takeWhile_append2 dropWhile_append2 not_le)+
  then have r2: "g_readytorun k2 = as @ p # q # bs" using q by (simp add: created_def r1)
  have fresh: "nxsched_get_tcb k p = None" "nxsched_get_tcb k q = None" "p \<noteq> q"
    using p q by (auto simp: created_def split: if_splits)
  have "sched_inv k2" "pid_inv k2" "this_task k2 = this_task k" "prio k2 p = 100" "prio k2 q = 100"
    using p q fresh(3) by (simp_all add: created_def)
  then show ?thesis using main fresh r0 r2 as bs by blast
qed

definition demo_env :: create_env where
  "demo_env = \<lparr>c_tcb = True, c_group = None, c_environ = None, c_files = None, c_stack = None,
     c_pids = [True, True], c_tls = None, c_args = None\<rparr>"

lemma demo_running: "\<not> nxsched_islocked_tcb demo_kernel (this_task demo_kernel)" "prio demo_kernel (this_task demo_kernel) = 100"
  "length (g_pidhash demo_kernel) = 4"
  by (simp_all add: demo_kernel_def nxsched_islocked_tcb_def this_task_def demo_tcb_def prio_def)

theorem launcher_starts_both_witness:
  "\<exists>p q r. g_readytorun (snd (launcher_main demo_env demo_env demo_kernel)) = [1, 2, p, q, 0] \<and>
     fst (launcher_main demo_env demo_env demo_kernel) = (0, r) \<and> p \<noteq> q"
proof -
  obtain r k' where m: "launcher_main demo_env demo_env demo_kernel = (r, k')" by fastforce
  have plenty: "plenty demo_env" by (auto simp: plenty_def demo_env_def)
  obtain p q as bs where *: "r = (0, Some (int p), Some (int q))" "p \<noteq> q" "g_readytorun k' = as @ p # q # bs"
      "g_readytorun demo_kernel = as @ bs" "\<forall>n \<in> set as. 100 \<le> prio demo_kernel n"
      "\<forall>n \<in> set bs. prio demo_kernel n < 100"
    using launcher_starts_both [OF demo_inv demo_pid_inv _ plenty plenty demo_running(1) _ m] demo_running(2,3) by auto
  have "as @ bs = [1, 2, 0]" using *(4) by (simp add: demo_kernel_def)
  moreover have "100 \<le> prio demo_kernel 1" "100 \<le> prio demo_kernel 2" "prio demo_kernel 0 < 100"
    by (simp_all add: demo_kernel_def prio_def demo_tcb_def)
  ultimately have "as = [1, 2]" "bs = [0]"
    using *(5,6) by (auto simp: append_eq_Cons_conv not_less [symmetric])
  then show ?thesis using * m by simp
qed



end
