(* ===== verification/Circbuf.thy ===== *)
theory Circbuf
  imports Fifo
begin

text \<open>
  The circular byte buffer of the C library (\<^verbatim>\<open>nuttx/libs/libc/misc/lib_circbuf.c\<close>) on which the
  sensor driver keeps the samples of a topic.  Head and tail are free-running 32-bit counters that
  are reduced modulo the size on each access; that is right as long as the counters do not wrap
  around or the size divides 2^32 (\<open>wrap_safe\<close>).
\<close>

section \<open>Operations\<close>

text \<open>\<open>base\<close> is \<open>None\<close> for the null pointer; otherwise the bytes it points to.\<close>

record circbuf_s =
  base :: "u8 list option"
  size :: u32
  head :: u32
  tail :: u32
  external :: bool

definition mem_of :: "circbuf_s \<Rightarrow> u8 list" where
  "mem_of c = (case base c of None \<Rightarrow> [] | Some m \<Rightarrow> m)"

text \<open>The memory for an internal buffer: what \<^verbatim>\<open>lib_malloc\<close> returns, \<open>None\<close> when it fails.\<close>

definition circbuf_init :: "u8 list option \<Rightarrow> u32 \<Rightarrow> u8 list option \<Rightarrow> circbuf_s \<Rightarrow> unit res \<times> circbuf_s" where
  "circbuf_init ext bytes alloc c =
     (let c1 = c\<lparr>external := ext \<noteq> None\<rparr>
      in if ext = None \<and> bytes \<noteq> 0 \<and> alloc = None then (Inl ENOMEM, c1)
         else (OK, c1\<lparr>base := (if ext = None \<and> bytes \<noteq> 0 then alloc else ext), size := bytes, head := 0, tail := 0\<rparr>))"

definition circbuf_reset :: "circbuf_s \<Rightarrow> circbuf_s" where
  "circbuf_reset c = c\<lparr>head := 0, tail := 0\<rparr>"

definition circbuf_uninit :: "circbuf_s \<Rightarrow> circbuf_s" where
  "circbuf_uninit c = \<lparr>base = None, size = 0, head = 0, tail = 0, external = False\<rparr>"

definition circbuf_size :: "circbuf_s \<Rightarrow> u32" where
  "circbuf_size c = size c"

definition circbuf_used :: "circbuf_s \<Rightarrow> u32" where
  "circbuf_used c = head c - tail c"

definition circbuf_space :: "circbuf_s \<Rightarrow> u32" where
  "circbuf_space c = circbuf_size c - circbuf_used c"

definition circbuf_is_init :: "circbuf_s \<Rightarrow> bool" where
  "circbuf_is_init c \<longleftrightarrow> base c \<noteq> None"

definition circbuf_is_empty :: "circbuf_s \<Rightarrow> bool" where
  "circbuf_is_empty c \<longleftrightarrow> circbuf_used c = 0"

definition circbuf_is_full :: "circbuf_s \<Rightarrow> bool" where
  "circbuf_is_full c \<longleftrightarrow> circbuf_space c = 0"

text \<open>The two copies out of the ring; the result is what is stored at \<^verbatim>\<open>dst\<close>, its length the value returned.\<close>

definition circbuf_peekat :: "circbuf_s \<Rightarrow> u32 \<Rightarrow> u32 \<Rightarrow> u8 list" where
  "circbuf_peekat c pos bytes =
     (if size c = 0 then []
      else
        (let pos = (if head c - tail c < head c - pos then tail c else pos);
             len = head c - pos;
             off = pos mod size c;
             bytes = (if len < bytes then len else bytes);
             len = (if bytes < size c - off then bytes else size c - off)
         in take (unat len) (drop (unat off) (mem_of c)) @ take (unat (bytes - len)) (mem_of c)))"

definition circbuf_peek :: "circbuf_s \<Rightarrow> u32 \<Rightarrow> u8 list" where
  "circbuf_peek c bytes = circbuf_peekat c (tail c) bytes"

definition circbuf_read :: "circbuf_s \<Rightarrow> u32 \<Rightarrow> u8 list \<times> circbuf_s" where
  "circbuf_read c bytes =
     (let dst = circbuf_peek c bytes in (dst, c\<lparr>tail := tail c + of_nat (length dst)\<rparr>))"

definition circbuf_skip :: "circbuf_s \<Rightarrow> u32 \<Rightarrow> u32 \<times> circbuf_s" where
  "circbuf_skip c bytes =
     (let bytes = (if circbuf_used c < bytes then circbuf_used c else bytes)
      in (bytes, c\<lparr>tail := tail c + bytes\<rparr>))"

text \<open>The two copies into the ring.\<close>

definition ring_write :: "'a list \<Rightarrow> nat \<Rightarrow> 'a list \<Rightarrow> 'a list" where
  "ring_write mem off src =
     (let n = min (length src) (length mem - off)
      in memcpy_at (memcpy_at mem off (take n src)) 0 (drop n src))"

definition circbuf_write :: "circbuf_s \<Rightarrow> u8 list \<Rightarrow> u32 \<times> circbuf_s" where
  "circbuf_write c src =
     (if size c = 0 then (0, c)
      else
        (let bytes = of_nat (length src);
             off = head c mod size c;
             bytes = (if circbuf_space c < bytes then circbuf_space c else bytes)
         in (bytes, c\<lparr>base := Some (ring_write (mem_of c) (unat off) (take (unat bytes) src)),
                       head := head c + bytes\<rparr>)))"

definition circbuf_overwrite :: "circbuf_s \<Rightarrow> u8 list \<Rightarrow> u32 \<times> circbuf_s" where
  "circbuf_overwrite c src =
     (if size c = 0 then (0, c)
      else
        (let bytes0 = of_nat (length src);
             skip = (if size c < bytes0 then bytes0 - size c else 0);
             bytes = (if size c < bytes0 then size c else bytes0);
             src = drop (unat skip) src;
             overwrite = (if circbuf_space c < bytes then bytes - circbuf_space c + skip else 0);
             off = (head c + skip) mod size c
         in (overwrite, c\<lparr>base := Some (ring_write (mem_of c) (unat off) src),
                           head := head c + skip + bytes, tail := tail c + overwrite\<rparr>)))"

definition circbuf_resize :: "u8 list option \<Rightarrow> u32 \<Rightarrow> circbuf_s \<Rightarrow> unit res \<times> circbuf_s" where
  "circbuf_resize alloc bytes c =
     (if bytes = size c then (OK, c)
      else if bytes = 0 then (OK, c\<lparr>base := None, size := 0, head := 0, tail := 0\<rparr>)
      else
        (case alloc of
           None \<Rightarrow> (Inl ENOMEM, c)
         | Some tmp \<Rightarrow>
             (let used = circbuf_used c;
                  c1 = (if bytes < used then snd (circbuf_skip c (used - bytes)) else c);
                  len = (if bytes < used then bytes else used);
                  (dst, c2) = circbuf_read c1 len
              in (OK, c2\<lparr>base := Some (memcpy_at tmp 0 dst), size := bytes, head := len, tail := 0\<rparr>))))"

text \<open>A pointer into the buffer is its offset; the second result is \<^verbatim>\<open>*size\<close>.\<close>

definition circbuf_get_writeptr :: "circbuf_s \<Rightarrow> u32 \<times> u32" where
  "circbuf_get_writeptr c =
     (let sz = circbuf_space c; off = head c mod size c
      in (off, if size c < off + sz then size c - off else sz))"

definition circbuf_get_readptr :: "circbuf_s \<Rightarrow> u32 \<times> u32" where
  "circbuf_get_readptr c =
     (let sz = circbuf_used c; off = tail c mod size c
      in (off, if size c < off + sz then size c - off else sz))"

definition circbuf_writecommit :: "circbuf_s \<Rightarrow> u32 \<Rightarrow> circbuf_s" where
  "circbuf_writecommit c writtensize = c\<lparr>head := head c + writtensize\<rparr>"

definition circbuf_readcommit :: "circbuf_s \<Rightarrow> u32 \<Rightarrow> circbuf_s" where
  "circbuf_readcommit c readsize = c\<lparr>tail := tail c + readsize\<rparr>"

section \<open>Blocks in a ring\<close>

lemma length_ring_write [simp]:
  "length src \<le> length mem \<Longrightarrow> off \<le> length mem \<Longrightarrow> length (ring_write mem off src) = length mem"
  by (simp add: ring_write_def Let_def min_def)

lemma nth_ring_write:
  assumes "length src \<le> length mem" "off < length mem" "j < length mem"
  shows "ring_write mem off src ! j =
    (if off \<le> j \<and> j < off + length src then src ! (j - off)
     else if j + length mem < off + length src then src ! (j + length mem - off)
     else mem ! j)"
  using assms by (auto simp: ring_write_def Let_def nth_memcpy_at min_def add.commute)

lemma mod_wrap:
  assumes "0 < L" "i \<le> (L::nat)"
  shows "(p + i) mod L = (if p mod L + i < L then p mod L + i else p mod L + i - L)"
proof -
  have a: "p mod L < L" using assms(1) by simp
  have "(p + i) mod L = (p mod L + i) mod L" by (simp add: mod_add_left_eq)
  also have "\<dots> = (if p mod L + i < L then p mod L + i else p mod L + i - L)"
    using a assms(2) le_mod_geq [of L "p mod L + i"] by (cases "p mod L + i < L") simp_all
  finally show ?thesis .
qed

lemma ring_write_in:
  assumes "length src \<le> length mem" "i < length src"
  shows "ring_write mem (p mod length mem) src ! ((p + i) mod length mem) = src ! i"
proof -
  have L: "0 < length mem" using assms by linarith
  define off where "off = p mod length mem"
  have off: "off < length mem" using L by (simp add: off_def)
  have j: "(p + i) mod length mem = (if off + i < length mem then off + i else off + i - length mem)"
    using assms L unfolding off_def by (intro mod_wrap) simp_all
  show ?thesis
    using assms off unfolding j off_def [symmetric] by (subst nth_ring_write) auto
qed

lemma ring_write_out:
  assumes "length src + n \<le> length mem" "i < n" "p mod length mem = (q + n) mod length mem"
  shows "ring_write mem (p mod length mem) src ! ((q + i) mod length mem) = mem ! ((q + i) mod length mem)"
proof -
  have L: "0 < length mem" using assms by linarith
  define a where "a = q mod length mem"
  have a: "a < length mem" using L by (simp add: a_def)
  have j: "(q + i) mod length mem = (if a + i < length mem then a + i else a + i - length mem)"
    using assms L unfolding a_def by (intro mod_wrap) simp_all
  have off: "p mod length mem = (if a + n < length mem then a + n else a + n - length mem)"
    unfolding assms(3) a_def using assms L by (intro mod_wrap) simp_all
  show ?thesis
    using assms(1,2) a unfolding j off by (subst nth_ring_write) auto
qed

text \<open>Writing a block behind the newest element appends it.\<close>

lemma ring_list_write:
  assumes "length src + n \<le> length mem" "p mod length mem = (q + n) mod length mem"
  shows "ring_list (ring_write mem (p mod length mem) src) q (n + length src) = ring_list mem q n @ src"
proof (cases "length mem = 0")
  case False
  then have L: "p mod length mem \<le> length mem" by simp
  then have len: "length (ring_write mem (p mod length mem) src) = length mem" using assms(1) by simp
  show ?thesis
  proof (rule nth_equalityI)
    fix i
    assume "i < length (ring_list (ring_write mem (p mod length mem) src) q (n + length src))"
    then have i: "i < n + length src" by simp
    show "ring_list (ring_write mem (p mod length mem) src) q (n + length src) ! i = (ring_list mem q n @ src) ! i"
    proof (cases "i < n")
      case True
      then show ?thesis
        using ring_write_out [OF assms(1) True assms(2)] i by (simp add: nth_ring_list len nth_append)
    next
      case False
      then obtain j where j: "i = n + j" "j < length src" using i by (metis add_less_cancel_left le_Suc_ex not_le)
      have "(p + j) mod length mem = (q + i) mod length mem"
        using assms(2) j(1) by (metis add.assoc mod_add_left_eq)
      then show ?thesis
        using ring_write_in [of src mem j p] assms(1) j i by (simp add: nth_ring_list len nth_append)
    qed
  qed simp
qed (use assms in simp)

text \<open>Reading a block takes the oldest elements.\<close>

lemma ring_list_drop: "m \<le> n \<Longrightarrow> drop m (ring_list mem q n) = ring_list mem (q + m) (n - m)"
  by (rule nth_equalityI) (simp_all add: nth_ring_list add.assoc)

lemma ring_list_take: "m \<le> n \<Longrightarrow> take m (ring_list mem q n) = ring_list mem q m"
  by (rule nth_equalityI) (simp_all add: nth_ring_list)

lemma ring_list_blocks:
  assumes "m \<le> length mem" "0 < length mem"
  shows "ring_list mem q m =
    take (min m (length mem - q mod length mem)) (drop (q mod length mem) mem) @
    take (m - min m (length mem - q mod length mem)) mem"
proof -
  define a where "a = q mod length mem"
  have a: "a < length mem" using assms(2) by (simp add: a_def)
  have j: "(q + i) mod length mem = (if a + i < length mem then a + i else a + i - length mem)" if "i < m" for i
    using assms that unfolding a_def by (intro mod_wrap) simp_all
  have "ring_list mem q m = take (min m (length mem - a)) (drop a mem) @ take (m - min m (length mem - a)) mem"
    using assms a by (intro nth_equalityI) (auto simp: nth_ring_list j nth_append min_def add.commute [of a])
  then show ?thesis by (simp add: a_def)
qed

section \<open>The buffer as a queue of bytes\<close>

definition circ_contents :: "circbuf_s \<Rightarrow> u8 list" where
  "circ_contents c = ring_list (mem_of c) (unat (tail c)) (unat (head c - tail c))"

text \<open>The counters can advance by \<open>n\<close> bytes without the reduction modulo the size going wrong.\<close>

definition wrap_safe :: "circbuf_s \<Rightarrow> nat \<Rightarrow> bool" where
  "wrap_safe c n \<longleftrightarrow> unat (size c) dvd 2 ^ 32 \<or> unat (tail c) + unat (head c - tail c) + n < 2 ^ 32"

definition circ_ok :: "circbuf_s \<Rightarrow> bool" where
  "circ_ok c \<longleftrightarrow> base c \<noteq> None \<and> length (mem_of c) = unat (size c) \<and> size c \<noteq> 0 \<and>
     head c - tail c \<le> size c \<and> wrap_safe c 0"

lemma length_circ_contents [simp]: "length (circ_contents c) = unat (head c - tail c)"
  by (simp add: circ_contents_def)

lemma circ_okD:
  assumes "circ_ok c"
  shows "length (mem_of c) = unat (size c)" "0 < unat (size c)" "unat (head c - tail c) \<le> unat (size c)"
    "unat (circbuf_space c) = unat (size c) - unat (head c - tail c)"
  using assms by (simp_all add: circ_ok_def word_le_nat_alt unat_gt_0 circbuf_space_def circbuf_size_def
      circbuf_used_def unat_sub_le)

text \<open>The head is where the newest byte ends, modulo the size.\<close>

lemma head_mod:
  assumes "circ_ok c"
  shows "unat (head c) mod unat (size c) = (unat (tail c) + unat (head c - tail c)) mod unat (size c)"
proof (cases "unat (size c) dvd 2 ^ 32")
  case True
  then show ?thesis using unat_add_mod_dvd [of "unat (size c)" "tail c" "head c - tail c"] by simp
next
  case False
  then have "unat (tail c) + unat (head c - tail c) < 2 ^ LENGTH(32)"
    using assms by (simp add: circ_ok_def wrap_safe_def)
  then show ?thesis using unat_add_no_wrap [of "tail c" "head c - tail c"] by simp
qed

text \<open>The tail advances over \<open>n\<close> bytes that are in the buffer.\<close>

lemma advance_tail:
  assumes ok: "circ_ok c" and n: "n \<le> unat (head c - tail c)"
  defines "c' \<equiv> c\<lparr>tail := tail c + of_nat n\<rparr>"
  shows "circ_ok c'" "circ_contents c' = drop n (circ_contents c)" "unat (head c' - tail c') = unat (head c - tail c) - n"
proof -
  have un: "unat (of_nat n :: u32) = n"
    using n le_less_trans [OF n unsigned_less [of "head c - tail c"]] by (simp add: unat_of_nat)
  have eq: "head c - (tail c + of_nat n) = (head c - tail c) - of_nat n" by simp
  show used: "unat (head c' - tail c') = unat (head c - tail c) - n"
    using n un by (simp add: c'_def eq unat_sub_le)
  have pos: "unat (tail c') mod unat (size c) = (unat (tail c) + n) mod unat (size c) \<and>
      (unat (size c) dvd 2 ^ 32 \<or> unat (tail c') = unat (tail c) + n)"
  proof (cases "unat (size c) dvd 2 ^ 32")
    case True
    then show ?thesis using unat_add_mod_dvd [of "unat (size c)" "tail c" "of_nat n"] un by (simp add: c'_def)
  next
    case False
    then have "unat (tail c) + n < 2 ^ LENGTH(32)" using ok n by (simp add: circ_ok_def wrap_safe_def)
    then show ?thesis using unat_add_no_wrap [of "tail c" "of_nat n"] un by (simp add: c'_def)
  qed
  have mem: "mem_of c' = mem_of c" "size c' = size c" "base c' = base c" by (simp_all add: c'_def mem_of_def)
  have "wrap_safe c' 0" using pos ok used n by (auto simp: wrap_safe_def circ_ok_def mem)
  then show "circ_ok c'" using ok used by (auto simp: circ_ok_def mem word_le_nat_alt)
  have "circ_contents c' = ring_list (mem_of c) (unat (tail c')) (unat (head c - tail c) - n)"
    by (simp only: circ_contents_def mem used)
  also have "\<dots> = ring_list (mem_of c) (unat (tail c) + n) (unat (head c - tail c) - n)"
    using pos circ_okD(1) [OF ok] by (intro ring_list_cong_pos) simp
  finally show "circ_contents c' = drop n (circ_contents c)"
    using n by (simp add: circ_contents_def ring_list_drop)
qed

text \<open>The head advances over a block written behind it.\<close>

lemma advance_head:
  assumes ok: "circ_ok c" and n: "unat (head c - tail c) + length src \<le> unat (size c)" and safe: "wrap_safe c (length src)"
  defines "c' \<equiv> c\<lparr>base := Some (ring_write (mem_of c) (unat (head c mod size c)) src), head := head c + of_nat (length src)\<rparr>"
  shows "circ_ok c'" "circ_contents c' = circ_contents c @ src"
proof -
  let ?u = "unat (head c - tail c)"
  have len: "length (mem_of c) = unat (size c)" and pos: "0 < unat (size c)" by (rule circ_okD [OF ok])+
  have small: "?u + length src < 2 ^ LENGTH(32)" using le_less_trans [OF n unsigned_less [of "size c"]] by simp
  then have un: "unat (of_nat (length src) :: u32) = length src" by (simp add: unat_of_nat)
  have eq: "head c + of_nat (length src) - tail c = (head c - tail c) + of_nat (length src)" by simp
  have used: "unat (head c' - tail c') = ?u + length src"
    using small un by (simp add: c'_def eq unat_add_no_wrap)
  have off: "unat (head c mod size c) = unat (head c) mod length (mem_of c)" by (simp add: len unat_mod)
  have mem: "mem_of c' = ring_write (mem_of c) (unat (head c) mod length (mem_of c)) src" "size c' = size c"
      "tail c' = tail c" "base c' \<noteq> None"
    by (simp_all add: c'_def mem_of_def off)
  have "length (mem_of c') = unat (size c)"
    using n len pos by (simp add: mem)
  moreover have "wrap_safe c' 0" using safe used by (auto simp: wrap_safe_def mem)
  ultimately show "circ_ok c'" using ok used n by (simp add: circ_ok_def mem word_le_nat_alt)
  have "circ_contents c' = ring_list (ring_write (mem_of c) (unat (head c) mod length (mem_of c)) src) (unat (tail c)) (?u + length src)"
    by (simp only: circ_contents_def used) (simp only: mem)
  also have "\<dots> = ring_list (mem_of c) (unat (tail c)) ?u @ src"
    using n head_mod [OF ok] by (intro ring_list_write) (simp_all add: len)
  finally show "circ_contents c' = circ_contents c @ src" by (simp add: circ_contents_def)
qed

section \<open>What the operations do to the queue\<close>

lemma if_less_min: "unat (if x < y then x else y) = min (unat x) (unat y)" "unat (if y < x then x else y) = max (unat x) (unat y)"
  by (auto simp: word_less_nat_alt)

text \<open>A position between tail and head is read from there, any other from the tail.\<close>

lemma peekat_contents:
  assumes ok: "circ_ok c" and i: "i \<le> unat (head c - tail c)"
  shows "circbuf_peekat c (tail c + of_nat i) bytes = take (unat bytes) (drop i (circ_contents c))"
proof -
  let ?c' = "c\<lparr>tail := tail c + of_nat i\<rparr>"
  have ok': "circ_ok ?c'" and con: "circ_contents ?c' = drop i (circ_contents c)"
    and used: "unat (head c - (tail c + of_nat i)) = unat (head c - tail c) - i"
    using advance_tail [OF ok i] by simp_all
  define pos where "pos = tail c + of_nat i"
  define m where "m = min (unat bytes) (unat (head c - pos))"
  have m: "unat (if head c - pos < bytes then head c - pos else bytes) = m"
    by (simp only: if_less_min m_def min.commute)
  have sz: "size c \<noteq> 0" and len: "length (mem_of c) = unat (size c)" "0 < unat (size c)"
    using ok circ_okD [OF ok] by (simp_all add: circ_ok_def)
  have mle: "m \<le> unat (size c)" using circ_okD(3) [OF ok'] by (simp add: m_def pos_def)
  have off: "unat (pos mod size c) = unat pos mod length (mem_of c)" by (simp add: len unat_mod)
  then have "pos mod size c \<le> size c" using len by (simp add: word_le_nat_alt)
  then have rest: "unat (size c - pos mod size c) = length (mem_of c) - unat pos mod length (mem_of c)"
    using off len by (simp add: unat_sub_le word_le_nat_alt)
  have noclamp: "\<not> head c - tail c < head c - pos"
    using used by (simp add: pos_def word_less_nat_alt)
  define b where "b = (if head c - pos < bytes then head c - pos else bytes)"
  define l where "l = (if b < size c - pos mod size c then b else size c - pos mod size c)"
  have ub: "unat b = m" using m by (simp add: b_def)
  have ul: "unat l = min m (length (mem_of c) - unat pos mod length (mem_of c))"
    using ub rest by (simp only: l_def if_less_min)
  have "l \<le> b" using ul ub by (simp add: word_le_nat_alt)
  then have ubl: "unat (b - l) = m - unat l" using ub by (simp add: unat_sub_le word_le_nat_alt)
  have "circbuf_peekat c pos bytes = take (unat l) (drop (unat (pos mod size c)) (mem_of c)) @ take (unat (b - l)) (mem_of c)"
    unfolding circbuf_peekat_def Let_def if_not_P [OF sz] if_not_P [OF noclamp] b_def [symmetric] l_def [symmetric]
    by (rule refl)
  also have "\<dots> = take (unat l) (drop (unat pos mod length (mem_of c)) (mem_of c)) @ take (m - unat l) (mem_of c)"
    by (simp only: ubl off)
  also have "\<dots> = ring_list (mem_of c) (unat pos) m"
    using ring_list_blocks [of m "mem_of c" "unat pos"] mle len ul by simp
  also have "\<dots> = take m (circ_contents ?c')"
    by (simp add: circ_contents_def m_def pos_def ring_list_take mem_of_def)
  finally show ?thesis
    using used by (simp add: pos_def m_def con take_all_iff min_def)
qed

lemma read_contents:
  assumes ok: "circ_ok c"
  shows "fst (circbuf_read c bytes) = take (unat bytes) (circ_contents c)"
    "circ_contents (snd (circbuf_read c bytes)) = drop (unat bytes) (circ_contents c)"
    "circ_ok (snd (circbuf_read c bytes))" "size (snd (circbuf_read c bytes)) = size c"
proof -
  have pk: "circbuf_peek c bytes = take (unat bytes) (circ_contents c)"
    using peekat_contents [OF ok, of 0 bytes] by (simp add: circbuf_peek_def)
  let ?n = "min (unat bytes) (unat (head c - tail c))"
  have r: "circbuf_read c bytes = (take (unat bytes) (circ_contents c), c\<lparr>tail := tail c + of_nat ?n\<rparr>)"
    by (simp add: circbuf_read_def pk Let_def min.commute)
  show "fst (circbuf_read c bytes) = take (unat bytes) (circ_contents c)"
      "size (snd (circbuf_read c bytes)) = size c" by (simp_all add: r)
  have "drop ?n (circ_contents c) = drop (unat bytes) (circ_contents c)" by (simp add: min_def)
  then show "circ_contents (snd (circbuf_read c bytes)) = drop (unat bytes) (circ_contents c)"
      "circ_ok (snd (circbuf_read c bytes))"
    using advance_tail [OF ok, of ?n] by (simp_all add: r)
qed

lemma skip_contents:
  assumes ok: "circ_ok c"
  shows "unat (fst (circbuf_skip c bytes)) = min (unat bytes) (length (circ_contents c))"
    "circ_contents (snd (circbuf_skip c bytes)) = drop (unat bytes) (circ_contents c)"
    "circ_ok (snd (circbuf_skip c bytes))" "size (snd (circbuf_skip c bytes)) = size c"
proof -
  define b where "b = (if circbuf_used c < bytes then circbuf_used c else bytes)"
  have b: "unat b = min (unat bytes) (unat (head c - tail c))"
    by (simp only: b_def if_less_min circbuf_used_def min.commute)
  have s: "circbuf_skip c bytes = (b, c\<lparr>tail := tail c + of_nat (unat b)\<rparr>)"
    by (simp add: circbuf_skip_def b_def Let_def)
  show "unat (fst (circbuf_skip c bytes)) = min (unat bytes) (length (circ_contents c))" by (simp add: s b)
  have "drop (unat b) (circ_contents c) = drop (unat bytes) (circ_contents c)" by (simp add: b min_def)
  then show "circ_contents (snd (circbuf_skip c bytes)) = drop (unat bytes) (circ_contents c)"
      "circ_ok (snd (circbuf_skip c bytes))" "size (snd (circbuf_skip c bytes)) = size c"
    using advance_tail [OF ok, of "unat b"] b by (simp_all add: s)
qed

lemma write_contents:
  assumes ok: "circ_ok c" and len: "length src < 2 ^ 32"
  defines "n \<equiv> min (length src) (unat (size c) - length (circ_contents c))"
  assumes safe: "wrap_safe c n"
  shows "unat (fst (circbuf_write c src)) = n"
    "circ_contents (snd (circbuf_write c src)) = circ_contents c @ take n src"
    "circ_ok (snd (circbuf_write c src))" "size (snd (circbuf_write c src)) = size c"
proof -
  define b where "b = (if circbuf_space c < of_nat (length src) then circbuf_space c else of_nat (length src))"
  have b: "unat b = n"
    using len circ_okD(4) [OF ok] by (simp only: b_def if_less_min) (simp add: n_def unat_of_nat min.commute)
  have sz: "size c \<noteq> 0" using ok by (simp add: circ_ok_def)
  have nb: "length (take n src) = n" by (simp add: n_def)
  have w: "circbuf_write c src = (b, c\<lparr>base := Some (ring_write (mem_of c) (unat (head c mod size c)) (take n src)),
      head := head c + of_nat (length (take n src))\<rparr>)"
    using sz b nb by (simp add: circbuf_write_def Let_def b_def [symmetric] flip: b)
  have "unat (head c - tail c) + length (take n src) \<le> unat (size c)"
    using circ_okD(3) [OF ok] by (simp add: n_def)
  from advance_head [OF ok this] safe nb
  show "unat (fst (circbuf_write c src)) = n"
    "circ_contents (snd (circbuf_write c src)) = circ_contents c @ take n src"
    "circ_ok (snd (circbuf_write c src))" "size (snd (circbuf_write c src)) = size c"
    using b by (simp_all add: w)
qed

lemma resize_contents:
  assumes ok: "circ_ok c" and n: "bytes \<noteq> 0" "bytes \<noteq> size c" and alloc: "length tmp = unat bytes"
  defines "c' \<equiv> snd (circbuf_resize (Some tmp) bytes c)"
  shows "fst (circbuf_resize (Some tmp) bytes c) = OK" "circ_ok c'" "size c' = bytes"
    "circ_contents c' = drop (length (circ_contents c) - unat bytes) (circ_contents c)"
proof -
  let ?used = "circbuf_used c"
  define len where "len = (if bytes < ?used then bytes else ?used)"
  define c1 where "c1 = (if bytes < ?used then snd (circbuf_skip c (?used - bytes)) else c)"
  obtain dst c2 where r: "circbuf_read c1 len = (dst, c2)" by fastforce
  have ul: "unat len = min (unat bytes) (length (circ_contents c))"
    by (simp only: len_def if_less_min circbuf_used_def length_circ_contents)
  have "unat (?used - bytes) = length (circ_contents c) - unat bytes" if "bytes < ?used"
    using that by (simp add: circbuf_used_def unat_sub_le word_less_nat_alt)
  then have c1: "circ_ok c1" "circ_contents c1 = drop (length (circ_contents c) - unat bytes) (circ_contents c)"
    using ok skip_contents [OF ok, of "?used - bytes"]
    by (auto simp: c1_def word_less_nat_alt circbuf_used_def)
  have dst: "dst = drop (length (circ_contents c) - unat bytes) (circ_contents c)"
    using read_contents(1) [OF c1(1), of len] r ul by (simp add: c1(2) min_def)
  have c': "circbuf_resize (Some tmp) bytes c =
      (OK, c2\<lparr>base := Some (memcpy_at tmp 0 dst), size := bytes, head := len, tail := 0\<rparr>)"
    using n r by (simp add: circbuf_resize_def Let_def c1_def [symmetric] len_def [symmetric])
  then show "fst (circbuf_resize (Some tmp) bytes c) = OK" "size c' = bytes" by (simp_all add: c'_def)
  have ld: "length dst = unat len" using ul by (simp add: dst)
  have lb: "unat len \<le> unat bytes" using ul by simp
  have mem: "mem_of c' = memcpy_at tmp 0 dst" by (simp add: c'_def c' mem_of_def)
  show "circ_ok c'"
    using n(1) alloc ld lb unsigned_less [of len, where 'a = nat]
    by (simp add: circ_ok_def mem wrap_safe_def word_le_nat_alt) (simp add: c'_def c' word_le_nat_alt)
  have "circ_contents c' = ring_list (memcpy_at tmp 0 dst) 0 (unat len)"
    by (simp add: circ_contents_def mem) (simp add: c'_def c')
  also have "\<dots> = take (unat len) (memcpy_at tmp 0 dst)"
    using alloc ld lb by (intro nth_equalityI) (simp_all add: nth_ring_list)
  also have "\<dots> = dst" using ld by (simp add: memcpy_at_def)
  finally show "circ_contents c' = drop (length (circ_contents c) - unat bytes) (circ_contents c)"
    by (simp add: dst)
qed

text \<open>Overwriting drops the oldest bytes when the new ones fit into the buffer \<dots>\<close>

lemma overwrite_fits:
  assumes ok: "circ_ok c" and len: "length src \<le> unat (size c)" and safe: "wrap_safe c (length src)"
  defines "d \<equiv> length (circ_contents c) + length src - unat (size c)"
  defines "c' \<equiv> snd (circbuf_overwrite c src)"
  shows "unat (fst (circbuf_overwrite c src)) = d" "circ_ok c'" "size c' = size c"
    "circ_contents c' = drop d (circ_contents c @ src)"
proof -
  have small: "length src < 2 ^ 32" using le_less_trans [OF len unsigned_less [of "size c"]] by simp
  then have un: "unat (of_nat (length src) :: u32) = length src" by (simp add: unat_of_nat)
  have nskip: "\<not> size c < of_nat (length src)" using len un by (simp add: word_less_nat_alt)
  have sz: "size c \<noteq> 0" using ok by (simp add: circ_ok_def)
  define ov where "ov = (if circbuf_space c < of_nat (length src) then of_nat (length src) - circbuf_space c else 0)"
  have uov: "unat ov = d"
    using un circ_okD(3,4) [OF ok] by (auto simp: ov_def d_def word_less_nat_alt unat_sub_le)
  have dle: "d \<le> unat (head c - tail c)" using len by (simp add: d_def)
  define c1 where "c1 = c\<lparr>tail := tail c + of_nat d\<rparr>"
  have c1: "circ_ok c1" "circ_contents c1 = drop d (circ_contents c)"
      "unat (head c1 - tail c1) = unat (head c - tail c) - d" "size c1 = size c" "mem_of c1 = mem_of c" "head c1 = head c"
    using advance_tail [OF ok dle] by (simp_all add: c1_def mem_of_def)
  have "wrap_safe c1 (length src)"
  proof (cases "unat (size c) dvd 2 ^ 32")
    case False
    then have "unat (tail c) + unat (head c - tail c) + length src < 2 ^ 32" using safe by (simp add: wrap_safe_def)
    moreover from this have "unat (tail c + of_nat d) = unat (tail c) + d"
      using dle unat_add_no_wrap [of "tail c" ov] uov by simp (metis of_nat_unat ucast_id)
    ultimately show ?thesis using c1(3) dle by (simp add: wrap_safe_def) (simp add: c1_def)
  qed (simp add: wrap_safe_def c1)
  moreover have "unat (head c1 - tail c1) + length src \<le> unat (size c1)"
    using c1(3,4) len circ_okD(3) [OF ok] by (simp add: d_def)
  ultimately have w: "circ_ok (c1\<lparr>base := Some (ring_write (mem_of c1) (unat (head c1 mod size c1)) src), head := head c1 + of_nat (length src)\<rparr>)"
    "circ_contents (c1\<lparr>base := Some (ring_write (mem_of c1) (unat (head c1 mod size c1)) src), head := head c1 + of_nat (length src)\<rparr>) = circ_contents c1 @ src"
    using advance_head [OF c1(1)] by blast+
  have ovd: "ov = of_nat d" using uov by (metis of_nat_unat ucast_id)
  have o: "circbuf_overwrite c src = (ov, c1\<lparr>base := Some (ring_write (mem_of c1) (unat (head c1 mod size c1)) src), head := head c1 + of_nat (length src)\<rparr>)"
    using sz nskip by (simp add: circbuf_overwrite_def Let_def c1) (simp add: c1_def ov_def flip: ovd)
  show "unat (fst (circbuf_overwrite c src)) = d" by (simp add: o uov)
  show "circ_ok c'" "size c' = size c" using w(1) by (simp_all add: c'_def o c1)
  show "circ_contents c' = drop d (circ_contents c @ src)" using w(2) dle by (simp add: c'_def o c1)
qed

text \<open>\<dots> and everything, with the beginning of the new bytes, when they do not and the buffer is not empty.\<close>

lemma overwrite_replaces:
  assumes ok: "circ_ok c" and big: "unat (size c) < length src" and small: "length src < 2 ^ 32"
    and used: "circ_contents c \<noteq> []" and safe: "wrap_safe c (length src)"
  defines "d \<equiv> length (circ_contents c) + length src - unat (size c)"
  defines "c' \<equiv> snd (circbuf_overwrite c src)"
  shows "fst (circbuf_overwrite c src) = of_nat d" "circ_ok c'" "size c' = size c"
    "circ_contents c' = drop d (circ_contents c @ src)"
proof -
  let ?u = "unat (head c - tail c)" and ?skip = "of_nat (length src) - size c"
  have un: "unat (of_nat (length src) :: u32) = length src" using small by (simp add: unat_of_nat)
  have skip: "size c < of_nat (length src)" using big un by (simp add: word_less_nat_alt)
  have us: "unat ?skip = length src - unat (size c)" using big un by (simp add: unat_sub_le)
  have sz: "size c \<noteq> 0" using ok by (simp add: circ_ok_def)
  have u0: "0 < ?u" using used by (metis length_circ_contents length_greater_0_conv)
  then have sp: "circbuf_space c < size c" using circ_okD(3,4) [OF ok] by (simp add: word_less_nat_alt)
  have ov: "size c - circbuf_space c + ?skip = (head c - tail c) + ?skip"
    by (simp add: circbuf_space_def circbuf_size_def circbuf_used_def)
  define c1 where "c1 = c\<lparr>head := head c + ?skip, tail := head c + ?skip\<rparr>"
  define src' where "src' = drop (unat ?skip) src"
  have src': "length src' = unat (size c)" using us big by (simp add: src'_def)
  have t1: "unat (size c) dvd 2 ^ 32 \<or> unat (head c + ?skip) + unat (size c) < 2 ^ 32"
  proof (cases "unat (size c) dvd 2 ^ 32")
    case False
    then have lim: "unat (tail c) + ?u + length src < 2 ^ LENGTH(32)" using safe by (simp add: wrap_safe_def)
    have "unat (tail c + (head c - tail c)) = unat (tail c) + ?u" using lim by (intro unat_add_no_wrap) simp
    then have "unat (head c) = unat (tail c) + ?u" by simp
    then have "unat (head c + ?skip) = unat (tail c) + ?u + (length src - unat (size c))"
      using lim us by (subst unat_add_no_wrap) simp_all
    then show ?thesis using lim big by simp
  qed simp
  then have c1: "circ_ok c1" "circ_contents c1 = []" "wrap_safe c1 (length src')"
    using ok src' by (auto simp: circ_ok_def wrap_safe_def circ_contents_def c1_def mem_of_def)
  have c1_sel: "size c1 = size c" "mem_of c1 = mem_of c" "head c1 = head c + ?skip" "head c1 - tail c1 = 0"
    by (simp_all add: c1_def mem_of_def)
  have n1: "unat (head c1 - tail c1) + length src' \<le> unat (size c1)" using src' c1_sel by simp
  have w: "circ_ok (c1\<lparr>base := Some (ring_write (mem_of c1) (unat (head c1 mod size c1)) src'), head := head c1 + of_nat (length src')\<rparr>)"
    "circ_contents (c1\<lparr>base := Some (ring_write (mem_of c1) (unat (head c1 mod size c1)) src'), head := head c1 + of_nat (length src')\<rparr>) = circ_contents c1 @ src'"
    using advance_head [OF c1(1) _ c1(3)] n1 by blast+
  have o: "circbuf_overwrite c src = ((head c - tail c) + ?skip,
      c1\<lparr>base := Some (ring_write (mem_of c1) (unat (head c1 mod size c1)) src'), head := head c1 + of_nat (length src')\<rparr>)"
    using sz skip sp ov src' by (simp add: circbuf_overwrite_def Let_def c1_sel) (simp add: c1_def src'_def)
  have "(head c - tail c) + ?skip = of_nat ?u + (of_nat (length src) - of_nat (unat (size c)))" by simp
  also have "\<dots> = of_nat d" using big by (simp add: d_def of_nat_diff del: word_of_nat_eq_iff)
  finally show "fst (circbuf_overwrite c src) = of_nat d" by (simp add: o)
  show "circ_ok c'" "size c' = size c" using w(1) by (simp_all add: c'_def o c1_sel)
  have "drop d (circ_contents c @ src) = src'" using big by (simp add: d_def src'_def us)
  then show "circ_contents c' = drop d (circ_contents c @ src)" using w(2) c1(2) by (simp add: c'_def o)
qed

text \<open>The pointers for copying in place: what is stored at the write pointer and committed is appended,
  and what is found at the read pointer is the oldest part of the contents.\<close>

lemma writeptr_commit:
  assumes ok: "circ_ok c" and safe: "wrap_safe c (length src)" and sz: "unat (size c) \<le> 2 ^ 31"
    and n: "length src \<le> unat (snd (circbuf_get_writeptr c))"
  defines "c' \<equiv> circbuf_writecommit (c\<lparr>base := Some (memcpy_at (mem_of c) (unat (fst (circbuf_get_writeptr c))) src)\<rparr>)
    (of_nat (length src))"
  shows "circ_ok c'" "circ_contents c' = circ_contents c @ src"
proof -
  let ?off = "head c mod size c"
  have off: "unat ?off < unat (size c)" using circ_okD(2) [OF ok] by (simp add: unat_mod)
  have sp: "unat (circbuf_space c) \<le> unat (size c)" using circ_okD(4) [OF ok] by simp
  have "unat (?off + circbuf_space c) = unat ?off + unat (circbuf_space c)"
    using off sp sz by (intro unat_add_no_wrap) simp
  moreover have "unat (size c - ?off) = unat (size c) - unat ?off" using off by (simp add: unat_sub_le)
  ultimately have fit: "length src \<le> unat (size c) - unat ?off" "length src \<le> unat (circbuf_space c)"
    using n off sp by (auto simp: circbuf_get_writeptr_def Let_def word_less_nat_alt split: if_splits)
  then have "ring_write (mem_of c) (unat ?off) src = memcpy_at (mem_of c) (unat ?off) src"
    using off circ_okD(1) [OF ok] by (simp add: ring_write_def memcpy_at_def)
  moreover have "unat (head c - tail c) + length src \<le> unat (size c)"
    using fit(2) circ_okD(3,4) [OF ok] by simp
  ultimately show "circ_ok c'" "circ_contents c' = circ_contents c @ src"
    using advance_head [OF ok _ safe]
    by (simp_all add: c'_def circbuf_writecommit_def circbuf_get_writeptr_def Let_def)
qed

lemma readptr_commit:
  assumes ok: "circ_ok c" and sz: "unat (size c) \<le> 2 ^ 31" and n: "n \<le> unat (snd (circbuf_get_readptr c))"
  shows "take n (drop (unat (fst (circbuf_get_readptr c))) (mem_of c)) = take n (circ_contents c)"
    "circ_contents (circbuf_readcommit c (of_nat n)) = drop n (circ_contents c)"
proof -
  let ?off = "tail c mod size c" and ?used = "head c - tail c"
  have off: "unat ?off < unat (size c)" using circ_okD(2) [OF ok] by (simp add: unat_mod)
  have "unat (?off + ?used) = unat ?off + unat ?used"
    using off circ_okD(3) [OF ok] sz by (intro unat_add_no_wrap) simp
  moreover have "unat (size c - ?off) = unat (size c) - unat ?off" using off by (simp add: unat_sub_le)
  ultimately have fit: "n \<le> unat (size c) - unat ?off" "n \<le> unat ?used"
    using n off by (auto simp: circbuf_get_readptr_def circbuf_used_def Let_def word_less_nat_alt split: if_splits)
  have "take n (circ_contents c) = ring_list (mem_of c) (unat (tail c)) n"
    using fit(2) by (simp add: circ_contents_def ring_list_take)
  also have "\<dots> = take n (drop (unat ?off) (mem_of c))"
    using fit circ_okD [OF ok] by (subst ring_list_blocks) (simp_all add: unat_mod min_absorb1)
  finally show "take n (drop (unat (fst (circbuf_get_readptr c))) (mem_of c)) = take n (circ_contents c)"
    by (simp add: circbuf_get_readptr_def Let_def)
  show "circ_contents (circbuf_readcommit c (of_nat n)) = drop n (circ_contents c)"
    using advance_tail [OF ok fit(2)] by (simp add: circbuf_readcommit_def)
qed

section \<open>The contract of the buffer\<close>

text \<open>
  Abstractly the buffer is its capacity and the queue of its bytes.  \<open>Resize\<close> carries the memory that
  is allocated for the new size.
\<close>

datatype circ_op = Write "u8 list" | Overwrite "u8 list" | Read u32 | Skip u32 | Resize "u8 list" | Reset

datatype circ_out = Count nat | Bytes "u8 list"

fun circ_step :: "circ_op \<Rightarrow> circbuf_s \<Rightarrow> circ_out \<times> circbuf_s" where
  "circ_step (Write src) c = (let (n, c') = circbuf_write c src in (Count (unat n), c'))"
| "circ_step (Overwrite src) c = (let (n, c') = circbuf_overwrite c src in (Count (unat n), c'))"
| "circ_step (Read n) c = (let (dst, c') = circbuf_read c n in (Bytes dst, c'))"
| "circ_step (Skip n) c = (let (m, c') = circbuf_skip c n in (Count (unat m), c'))"
| "circ_step (Resize tmp) c = (Count 0, snd (circbuf_resize (Some tmp) (of_nat (length tmp)) c))"
| "circ_step Reset c = (Count 0, circbuf_reset c)"

fun queue_step :: "circ_op \<Rightarrow> nat \<times> u8 list \<Rightarrow> circ_out \<times> nat \<times> u8 list" where
  "queue_step (Write src) (N, q) =
     (let n = min (length src) (N - length q) in (Count n, N, q @ take n src))"
| "queue_step (Overwrite src) (N, q) =
     (let d = length q + length src - N in (Count d, N, drop d (q @ src)))"
| "queue_step (Read n) (N, q) = (Bytes (take (unat n) q), N, drop (unat n) q)"
| "queue_step (Skip n) (N, q) = (Count (min (unat n) (length q)), N, drop (unat n) q)"
| "queue_step (Resize tmp) (N, q) = (Count 0, length tmp, drop (length q - length tmp) q)"
| "queue_step Reset (N, q) = (Count 0, N, [])"

text \<open>
  What the caller must ensure: sizes that divide 2^32, blocks whose length is a \<^verbatim>\<open>size_t\<close>, and no
  overwriting of an empty buffer with more bytes than it can hold.
\<close>

fun op_ok :: "circ_op \<Rightarrow> nat \<times> u8 list \<Rightarrow> bool" where
  "op_ok (Write src) _ \<longleftrightarrow> length src < 2 ^ 32"
| "op_ok (Overwrite src) (N, q) \<longleftrightarrow> length q + length src < 2 ^ 32 \<and> (length src \<le> N \<or> q \<noteq> [])"
| "op_ok (Resize tmp) _ \<longleftrightarrow> length tmp dvd 2 ^ 32 \<and> length tmp < 2 ^ 32"
| "op_ok _ _ \<longleftrightarrow> True"

fun circ_run :: "circ_op list \<Rightarrow> circbuf_s \<Rightarrow> circ_out list \<times> circbuf_s" where
  "circ_run [] c = ([], c)"
| "circ_run (p # ps) c = (let (out, c1) = circ_step p c; (outs, c2) = circ_run ps c1 in (out # outs, c2))"

fun queue_run :: "circ_op list \<Rightarrow> nat \<times> u8 list \<Rightarrow> circ_out list \<times> nat \<times> u8 list" where
  "queue_run [] a = ([], a)"
| "queue_run (p # ps) a = (let (out, a1) = queue_step p a; (outs, a2) = queue_run ps a1 in (out # outs, a2))"

fun ops_ok :: "circ_op list \<Rightarrow> nat \<times> u8 list \<Rightarrow> bool" where
  "ops_ok [] a \<longleftrightarrow> True"
| "ops_ok (p # ps) a \<longleftrightarrow> op_ok p a \<and> ops_ok ps (snd (queue_step p a))"

definition circ_abs :: "circbuf_s \<Rightarrow> nat \<times> u8 list" where
  "circ_abs c = (unat (size c), circ_contents c)"

definition circ_inv :: "circbuf_s \<Rightarrow> bool" where
  "circ_inv c \<longleftrightarrow> circ_ok c \<and> unat (size c) dvd 2 ^ 32"

lemma circ_invD:
  assumes "circ_inv c"
  shows "circ_ok c" "wrap_safe c n" "unat (size c) dvd 2 ^ 32" "length (circ_contents c) \<le> unat (size c)"
  using assms circ_okD(3) [of c] by (simp_all add: circ_inv_def wrap_safe_def)

lemma overwrite_contents:
  assumes inv: "circ_inv c" and ok: "op_ok (Overwrite src) (circ_abs c)"
  defines "d \<equiv> length (circ_contents c) + length src - unat (size c)"
  shows "unat (fst (circbuf_overwrite c src)) = d" "circ_inv (snd (circbuf_overwrite c src))"
    "circ_abs (snd (circbuf_overwrite c src)) = (unat (size c), drop d (circ_contents c @ src))"
proof -
  have "unat (fst (circbuf_overwrite c src)) = d \<and> circ_inv (snd (circbuf_overwrite c src)) \<and>
    circ_abs (snd (circbuf_overwrite c src)) = (unat (size c), drop d (circ_contents c @ src))"
  proof (cases "length src \<le> unat (size c)")
    case True
    from overwrite_fits [OF circ_invD(1) [OF inv] True circ_invD(2) [OF inv]] inv show ?thesis
      by (simp add: circ_inv_def circ_abs_def d_def)
  next
    case False
    then have h: "unat (size c) < length src" "length src < 2 ^ 32" "circ_contents c \<noteq> []" "d < 2 ^ LENGTH(32)"
      using ok by (auto simp: circ_abs_def d_def)
    from overwrite_replaces [OF circ_invD(1) [OF inv] h(1-3) circ_invD(2) [OF inv]] inv h(4) show ?thesis
      by (simp add: circ_inv_def circ_abs_def d_def unat_of_nat)
  qed
  then show "unat (fst (circbuf_overwrite c src)) = d" "circ_inv (snd (circbuf_overwrite c src))"
    "circ_abs (snd (circbuf_overwrite c src)) = (unat (size c), drop d (circ_contents c @ src))" by blast+
qed

lemma resize_step:
  assumes inv: "circ_inv c" and ok: "op_ok (Resize tmp) (circ_abs c)"
  defines "c' \<equiv> snd (circbuf_resize (Some tmp) (of_nat (length tmp)) c)"
  shows "circ_inv c' \<and> circ_abs c' = (length tmp, drop (length (circ_contents c) - length tmp) (circ_contents c))"
proof -
  have len: "unat (of_nat (length tmp) :: u32) = length tmp" "0 < length tmp"
    using ok by (auto simp: unat_of_nat circ_abs_def dvd_def)
  then have nz: "(of_nat (length tmp) :: u32) \<noteq> 0" by (metis less_numeral_extra(3) unat_0)
  show ?thesis
  proof (cases "of_nat (length tmp) = size c")
    case True
    then have "length tmp = unat (size c)" "c' = c" using len by (auto simp: c'_def circbuf_resize_def)
    then show ?thesis using inv circ_invD(4) [OF inv] by (simp add: circ_abs_def)
  next
    case False
    from resize_contents [OF circ_invD(1) [OF inv] nz False len(1) [symmetric]] len ok show ?thesis
      by (simp add: c'_def circ_inv_def circ_abs_def)
  qed
qed

lemma circ_step_refines:
  assumes inv: "circ_inv c" and ok: "op_ok p (circ_abs c)"
  shows "circ_inv (snd (circ_step p c)) \<and> fst (circ_step p c) = fst (queue_step p (circ_abs c)) \<and>
    circ_abs (snd (circ_step p c)) = snd (queue_step p (circ_abs c))"
proof (cases p)
  case (Write src)
  then have "length src < 2 ^ 32" using ok by simp
  from write_contents [OF circ_invD(1) [OF inv] this circ_invD(2) [OF inv]] Write inv show ?thesis
    by (simp add: circ_abs_def circ_inv_def Let_def case_prod_beta)
next
  case (Overwrite src)
  with overwrite_contents [OF inv, of src] ok show ?thesis
    by (simp add: Let_def case_prod_beta) (simp add: circ_abs_def Let_def)
next
  case (Read n)
  with read_contents [OF circ_invD(1) [OF inv], of n] inv show ?thesis
    by (simp add: circ_abs_def circ_inv_def case_prod_beta)
next
  case (Skip n)
  with skip_contents [OF circ_invD(1) [OF inv], of n] inv show ?thesis
    by (simp add: circ_abs_def circ_inv_def case_prod_beta)
next
  case (Resize tmp)
  with resize_step [OF inv, of tmp] ok show ?thesis by (simp add: circ_abs_def)
next
  case Reset
  then show ?thesis using inv
    by (auto simp: circ_abs_def circ_inv_def circbuf_reset_def circ_ok_def mem_of_def wrap_safe_def circ_contents_def)
qed

section \<open>Single bytes: the contract of a bounded queue\<close>

definition circ_put :: "u8 \<Rightarrow> circbuf_s \<Rightarrow> bool \<times> circbuf_s" where
  "circ_put b c = (let (n, c') = circbuf_write c [b] in (n = 1, c'))"

definition circ_get :: "circbuf_s \<Rightarrow> u8 option \<times> circbuf_s" where
  "circ_get c = (let (dst, c') = circbuf_read c 1 in (case dst of [] \<Rightarrow> None | b # _ \<Rightarrow> Some b, c'))"

lemma ring_write_Nil [simp]: "ring_write mem off [] = mem"
  by (simp add: ring_write_def memcpy_at_def)

lemma circ_put_ok:
  assumes inv: "circ_inv c" and room: "length (circ_contents c) < unat (size c)"
  shows "fst (circ_put b c) \<and> circ_inv (snd (circ_put b c)) \<and>
    circ_contents (snd (circ_put b c)) = circ_contents c @ [b] \<and> unat (size (snd (circ_put b c))) = unat (size c)"
proof -
  have n: "min (length [b]) (unat (size c) - length (circ_contents c)) = 1" using room by simp
  from write_contents [OF circ_invD(1) [OF inv] _ circ_invD(2) [OF inv], of "[b]"]
  have w: "unat (fst (circbuf_write c [b])) = 1" "circ_contents (snd (circbuf_write c [b])) = circ_contents c @ [b]"
    "circ_ok (snd (circbuf_write c [b]))" "size (snd (circbuf_write c [b])) = size c"
    unfolding n by simp_all
  then have "fst (circbuf_write c [b]) = 1" by (metis unat_1 word_unat_eq_iff)
  with w inv show ?thesis by (simp add: circ_put_def case_prod_beta circ_inv_def)
qed

lemma circ_put_full:
  assumes inv: "circ_inv c" and full: "length (circ_contents c) = unat (size c)"
  shows "circ_put b c = (False, c)"
proof -
  have "unat (circbuf_space c) = 0" using circ_okD(4) [OF circ_invD(1) [OF inv]] full by simp
  then have sp: "circbuf_space c = 0" by (simp add: unat_eq_zero)
  obtain m where m: "base c = Some m" using inv by (auto simp: circ_inv_def circ_ok_def)
  have "c\<lparr>base := Some m, head := head c\<rparr> = c" using m by (cases c) simp
  then show ?thesis
    using inv m by (simp add: circ_put_def circbuf_write_def sp mem_of_def circ_inv_def circ_ok_def)
qed

interpretation cbq: bounded_fifo circ_put circ_get circ_contents circ_inv "\<lambda>c. unat (size c)"
proof (unfold_locales, goal_cases)
  case (1 c)
  then show ?case by (rule circ_invD(4))
next
  case (2 c b)
  then show ?case by (rule circ_put_ok)
next
  case (3 c b)
  then show ?case by (rule circ_put_full)
next
  case (4 c b bs)
  then show ?case
    using read_contents [OF circ_invD(1) [OF 4(1)], of 1] by (simp add: circ_get_def case_prod_beta circ_inv_def)
next
  case (5 c)
  have pk: "circbuf_peek c 1 = []"
    using peekat_contents [OF circ_invD(1) [OF 5(1)], of 0 1] 5(2) by (simp add: circbuf_peek_def)
  show ?case by (cases c) (use pk in \<open>simp add: circ_get_def circbuf_read_def\<close>)
qed

section \<open>Properties\<close>

text \<open>A buffer of four bytes as \<open>circbuf_init\<close> leaves it.\<close>

definition demo_circ :: circbuf_s where
  "demo_circ = snd (circbuf_init None 4 (Some [0, 0, 0, 0]) \<lparr>base = None, size = 0, head = 0, tail = 0, external = False\<rparr>)"

lemma demo_circ_inv: "circ_inv demo_circ" "circ_abs demo_circ = (4, [])"
  by (simp_all add: demo_circ_def circbuf_init_def circ_inv_def circ_ok_def wrap_safe_def circ_abs_def
      circ_contents_def mem_of_def ring_list_def)

lemma circ_run_refines:
  assumes "circ_inv c" "ops_ok ops (circ_abs c)"
  shows "circ_inv (snd (circ_run ops c)) \<and> fst (circ_run ops c) = fst (queue_run ops (circ_abs c)) \<and>
    circ_abs (snd (circ_run ops c)) = snd (queue_run ops (circ_abs c))"
  using assms
proof (induction ops arbitrary: c)
  case (Cons p ps)
  have "op_ok p (circ_abs c)" using Cons.prems(2) by simp
  from circ_step_refines [OF Cons.prems(1) this]
  have s: "circ_inv (snd (circ_step p c))" "fst (circ_step p c) = fst (queue_step p (circ_abs c))"
    "circ_abs (snd (circ_step p c)) = snd (queue_step p (circ_abs c))" by blast+
  with Cons.IH [of "snd (circ_step p c)"] Cons.prems(2) show ?case
    by (simp add: case_prod_beta)
qed simp



text \<open>C38: When an empty buffer is overwritten with more bytes than it holds, the bytes it could not keep are
  not counted: the call returns 0, the buffer claims to hold all of them, more than its size, and the
  free space computed from that wraps around.\<close>

theorem circbuf_overwrite_empty_overflow:
  assumes ok: "circ_ok c" and empty: "circ_contents c = []" and big: "unat (size c) < length src" "length src < 2 ^ 32"
  defines "c' \<equiv> snd (circbuf_overwrite c src)"
  shows "fst (circbuf_overwrite c src) = 0 \<and> unat (circbuf_used c') = length src \<and>
    size c' = size c \<and> unat (circbuf_space c') = 2 ^ 32 + unat (size c) - length src"
proof -
  have un: "unat (of_nat (length src) :: u32) = length src" using big by (simp add: unat_of_nat)
  have skip: "size c < of_nat (length src)" using big(1) un by (simp add: word_less_nat_alt)
  have h: "head c = tail c" using empty by (metis length_circ_contents list.size(3) right_minus_eq unat_eq_zero)
  have sz: "size c \<noteq> 0" using ok by (simp add: circ_ok_def)
  have o: "fst (circbuf_overwrite c src) = 0" "head c' - tail c' = of_nat (length src)" "size c' = size c"
    using sz skip h by (simp_all add: c'_def circbuf_overwrite_def Let_def circbuf_space_def circbuf_size_def circbuf_used_def)
  have "unat (size c - of_nat (length src)) = 2 ^ 32 + unat (size c) - length src"
    using big un by (simp add: unat_sub_if_size word_size)
  with o un show ?thesis by (simp add: circbuf_space_def circbuf_size_def circbuf_used_def)
qed

theorem circbuf_overwrite_empty_overflow_witness:
  "unat (circbuf_used (snd (circbuf_overwrite demo_circ [1, 2, 3, 4, 5]))) = 5 \<and>
   unat (circbuf_space (snd (circbuf_overwrite demo_circ [1, 2, 3, 4, 5]))) = 2 ^ 32 - 1"
  using circbuf_overwrite_empty_overflow [of demo_circ "[1, 2, 3, 4, 5]"] demo_circ_inv
  by (simp add: circ_inv_def circ_abs_def)

lemma ring_write_single: "off < length m \<Longrightarrow> ring_write m off [x] = m[off := x]"
  by (simp add: ring_write_def Let_def memcpy_at_def min_def upd_conv_take_nth_drop)

lemma write_single:
  assumes "base c = Some m" "length m = unat (size c)" "head c - tail c < size c"
  shows "circbuf_write c [x] = (1, c\<lparr>base := Some (m[unat (head c mod size c) := x]), head := head c + 1\<rparr>)"
proof -
  have sz: "0 < size c" using assms(3) by (metis word_gt_0 word_not_simps(1))
  then have off: "unat (head c mod size c) < length m"
    by (simp add: assms(2) unat_mod unat_gt_0 word_gt_0)
  have "circbuf_space c \<noteq> 0" using assms(3) by (auto simp: circbuf_space_def circbuf_size_def circbuf_used_def)
  then have "\<not> circbuf_space c < 1" by (simp add: word_less_1)
  then show ?thesis
    using sz off assms(1) by (simp add: circbuf_write_def Let_def mem_of_def ring_write_single word_gt_0)
qed

text \<open>C39: When the size does not divide 2^32, the bytes around the wrap-around of the head counter are
  lost: of two bytes written one after the other to an empty buffer whose counters stand at 2^32 - 1,
  the second one read back is the stale byte behind the first, whatever was written.\<close>

theorem circbuf_wrap_reads_stale:
  fixes x y :: u8
  assumes mem: "base c = Some m" "length m = unat (size c)" and sz: "2 \<le> unat (size c)" "\<not> unat (size c) dvd 2 ^ 32"
    and wrap: "head c = - 1" "tail c = - 1"
  defines "off \<equiv> (2 ^ 32 - 1) mod unat (size c)"
  defines "c' \<equiv> snd (circbuf_write (snd (circbuf_write c [x])) [y])"
  shows "off + 1 < unat (size c) \<and> fst (circbuf_read c' 2) = [if off = 0 then y else x, m ! (off + 1)]"
proof
  have "off < unat (size c)" using sz(1) by (simp add: off_def)
  moreover have "off + 1 \<noteq> unat (size c)"
  proof
    assume "off + 1 = unat (size c)"
    then have "(2 ^ 32 - 1 + 1) mod unat (size c) = 0" unfolding off_def by (metis mod_add_left_eq mod_self)
    with sz(2) show False by (simp add: dvd_eq_mod_eq_0)
  qed
  ultimately show off: "off + 1 < unat (size c)" by simp
  have uoff: "unat (- 1 mod size c) = off" by (simp add: unat_mod off_def unsigned_minus_1_eq_mask mask_eq_exp_minus_1)
  have gt: "0 < size c" "1 < size c" using sz(1) by (simp_all add: word_less_nat_alt)
  have w1: "circbuf_write c [x] = (1, c\<lparr>base := Some (m[off := x]), head := 0\<rparr>)"
    using write_single [OF mem, of x] gt wrap uoff by simp
  have c': "c' = c\<lparr>base := Some (m[off := x, 0 := y]), head := 1\<rparr>"
    using write_single [of "c\<lparr>base := Some (m[off := x]), head := 0\<rparr>" "m[off := x]" y] mem gt wrap
    by (simp add: c'_def w1)
  have "- 1 mod size c \<le> size c" using uoff off by (simp add: word_le_nat_alt)
  then have "2 \<le> unat (size c - - 1 mod size c)" using uoff off by (simp add: unat_sub_le)
  then have "\<not> size c - - 1 mod size c < 2" by (simp add: word_less_nat_alt)
  then have l: "(if 2 < size c - - 1 mod size c then 2 else size c - - 1 mod size c) = 2 \<or>
      2 < size c - - 1 mod size c" by auto
  have "circbuf_peek c' 2 = take 2 (drop off (m[off := x, 0 := y]))"
    using gt wrap l uoff by (auto simp: c' circbuf_peek_def circbuf_peekat_def Let_def mem_of_def)
  also have "\<dots> = [if off = 0 then y else x, m ! (off + 1)]"
    using off mem(2) by (auto simp: numeral_2_eq_2 take_Suc_conv_app_nth nth_list_update)
  finally show "fst (circbuf_read c' 2) = [if off = 0 then y else x, m ! (off + 1)]"
    by (simp add: circbuf_read_def Let_def)
qed

theorem circbuf_wrap_reads_stale_witness:
  "fst (circbuf_read (snd (circbuf_write (snd (circbuf_write
      \<lparr>base = Some [7, 8, 9, 10, 11, 12], size = 6, head = - 1, tail = - 1, external = False\<rparr> [1])) [2])) 2) = [1, 11]"
  using circbuf_wrap_reads_stale [of "\<lparr>base = Some [7, 8, 9, 10, 11, 12], size = 6, head = - 1, tail = - 1, external = False\<rparr>"
      "[7, 8, 9, 10, 11, 12]" 1 2]
  by simp

end
