(* ===== verification/Poll.thy ===== *)
theory Poll
  imports NxPrelude
begin

text \<open>
  Threads that poll drivers: the structure a driver keeps for each of them and its notification
  (\<^verbatim>\<open>poll_notify\<close> of \<^verbatim>\<open>nuttx/fs/vfs/fs_poll.c\<close>), shared by the sensor and the serial driver.
\<close>

abbreviation (input) POLLIN :: u32 where
  "POLLIN \<equiv> 1"

abbreviation (input) POLLPRI :: u32 where
  "POLLPRI \<equiv> 2"

abbreviation (input) POLLOUT :: u32 where
  "POLLOUT \<equiv> 4"

abbreviation (input) POLLERR :: u32 where
  "POLLERR \<equiv> 8"

abbreviation (input) POLLHUP :: u32 where
  "POLLHUP \<equiv> 0x10"

abbreviation (input) POLLALWAYS :: u32 where
  "POLLALWAYS \<equiv> 0x10000"

text \<open>\<open>notified\<close> counts the calls of the callback \<^verbatim>\<open>cb\<close>; \<open>has_cb\<close> tells whether there is one.\<close>

record pollfd =
  events :: u32
  revents :: u32
  has_cb :: bool
  notified :: nat

definition poll_notify_one :: "u32 \<Rightarrow> pollfd \<Rightarrow> pollfd" where
  "poll_notify_one eventset f =
     (let r = revents f OR (eventset AND (events f OR (POLLERR OR POLLHUP)));
          r = (if r AND (POLLERR OR POLLHUP) \<noteq> 0 then r AND NOT POLLOUT else r)
      in f\<lparr>revents := r,
           notified := (if (r \<noteq> 0 \<or> events f AND POLLALWAYS \<noteq> 0) \<and> has_cb f then notified f + 1 else notified f)\<rparr>)"

definition poll_notify :: "pollfd option list \<Rightarrow> u32 \<Rightarrow> pollfd option list" where
  "poll_notify afds eventset = (if eventset = 0 then afds else map (map_option (poll_notify_one eventset)) afds)"

end
