(* ===== verification/Sensor.thy ===== *)
theory Sensor
  imports Circbuf Poll
begin

text \<open>
  The upper half of the sensor driver (\<^verbatim>\<open>nuttx/drivers/sensors/sensor.c\<close>), through which the topics of
  uORB are published and read.  A topic keeps its samples in one circular buffer and the generation
  (the time stamp in units of the publishing interval) of each sample in a second one; a subscriber
  keeps its position and generation.  The lower half of the driver is a parameter: a record of
  optional functions on a device state of any type.
\<close>

section \<open>Data\<close>

abbreviation (input) UINT32_MAX :: u32 where
  "UINT32_MAX \<equiv> - 1"

abbreviation (input) TIMING_BUF_ESIZE :: u32 where
  "TIMING_BUF_ESIZE \<equiv> 4"

abbreviation (input) SENSOR_ROLE_WR :: u32 where
  "SENSOR_ROLE_WR \<equiv> 1"

abbreviation (input) SENSOR_ROLE_RD :: u32 where
  "SENSOR_ROLE_RD \<equiv> 2"

abbreviation (input) SENSOR_EVENT_FLUSH_COMPLETE :: u32 where
  "SENSOR_EVENT_FLUSH_COMPLETE \<equiv> 1"

text \<open>The flags a topic is opened with.\<close>

record oflags =
  O_RDOK :: bool
  O_WROK :: bool
  O_NONBLOCK :: bool
  O_DIRECT :: bool
  SENSOR_REMOTE :: bool
  SENSOR_PERSIST :: bool

record sensor_state_s =
  esize :: u32
  nbuffer :: u32
  min_latency :: u32
  min_interval :: u32
  nsubscribers :: u32
  nadvertisers :: u32
  generation :: u32
  nonwakeup :: bool
  user_priv :: u64

record sensor_ustate_s =
  u_esize :: u32
  latency :: u32
  interval :: u32
  u_nonwakeup :: bool
  u_generation :: u32

text \<open>\<open>buffersem\<close> is the count of the semaphore.\<close>

record sensor_user_s =
  fds :: "pollfd option"
  role :: u32
  changed :: bool
  event :: u32
  flushing :: bool
  buffersem :: int
  bufferpos :: u32
  ustate :: sensor_ustate_s

text \<open>A function of the lower half returns a negated error number or a value that is not negative.\<close>

type_synonym 'd devcall = "'d \<Rightarrow> u32 res \<times> 'd"

record 'd sensor_ops_s =
  op_open :: "'d devcall option"
  op_close :: "'d devcall option"
  op_activate :: "(bool \<Rightarrow> 'd devcall) option"
  op_set_interval :: "(u32 \<Rightarrow> 'd \<Rightarrow> u32 res \<times> u32 \<times> 'd) option"
  op_batch :: "(u32 \<Rightarrow> 'd \<Rightarrow> u32 res \<times> u32 \<times> 'd) option"
  op_fetch :: "(u32 \<Rightarrow> 'd \<Rightarrow> u8 list res \<times> 'd) option"
  op_flush :: "'d devcall option"
  op_selftest :: "(u32 \<Rightarrow> 'd devcall) option"
  op_set_calibvalue :: "(u32 \<Rightarrow> 'd devcall) option"
  op_calibrate :: "(u32 \<Rightarrow> 'd devcall) option"
  op_get_info :: "'d devcall option"
  op_set_nonwakeup :: "(bool \<Rightarrow> 'd devcall) option"
  op_control :: "(nat \<Rightarrow> u32 \<Rightarrow> 'd devcall) option"

record 'd sensor_lowerhalf_s =
  type_of :: nat
  lower_nbuffer :: u32
  ops :: "'d sensor_ops_s"
  persist :: bool
  dev :: 'd

text \<open>
  \<open>lock\<close> is how often the calling thread holds the recursive mutex of the topic; the users are listed
  with the handle (\<^verbatim>\<open>f_priv\<close>) by which their files refer to them.
\<close>

record 'd sensor_upperhalf_s =
  lower :: "'d sensor_lowerhalf_s"
  state :: sensor_state_s
  timing :: circbuf_s
  buffer :: circbuf_s
  lock :: nat
  userlist :: "(nat \<times> sensor_user_s) list"

definition zero_circbuf :: circbuf_s where
  "zero_circbuf = \<lparr>base = None, size = 0, head = 0, tail = 0, external = False\<rparr>"

definition zero_user :: sensor_user_s where
  "zero_user = \<lparr>fds = None, role = 0, changed = False, event = 0, flushing = False, buffersem = 0, bufferpos = 0,
     ustate = \<lparr>u_esize = 0, latency = 0, interval = 0, u_nonwakeup = False, u_generation = 0\<rparr>\<rparr>"

definition sensor_lock :: "'d sensor_upperhalf_s \<Rightarrow> 'd sensor_upperhalf_s" where
  "sensor_lock up = up\<lparr>lock := lock up + 1\<rparr>"

definition sensor_unlock :: "'d sensor_upperhalf_s \<Rightarrow> 'd sensor_upperhalf_s" where
  "sensor_unlock up = up\<lparr>lock := lock up - 1\<rparr>"

definition user_of :: "nat \<Rightarrow> 'd sensor_upperhalf_s \<Rightarrow> sensor_user_s" where
  "user_of uid up = (case map_of (userlist up) uid of None \<Rightarrow> zero_user | Some u \<Rightarrow> u)"

definition upd_user :: "nat \<Rightarrow> (sensor_user_s \<Rightarrow> sensor_user_s) \<Rightarrow> 'd sensor_upperhalf_s \<Rightarrow> 'd sensor_upperhalf_s" where
  "upd_user uid f up = up\<lparr>userlist := map (\<lambda>(k, u). (k, if k = uid then f u else u)) (userlist up)\<rparr>"

definition set_dev :: "'d \<Rightarrow> 'd sensor_upperhalf_s \<Rightarrow> 'd sensor_upperhalf_s" where
  "set_dev d up = up\<lparr>lower := (lower up)\<lparr>dev := d\<rparr>\<rparr>"

section \<open>Notification\<close>

definition sensor_pollnotify_one :: "u32 \<Rightarrow> u32 \<Rightarrow> sensor_user_s \<Rightarrow> sensor_user_s" where
  "sensor_pollnotify_one eventset r u =
     (if role u AND r = 0 then u
      else let u1 = (if eventset = POLLPRI then u\<lparr>changed := True\<rparr> else u)
           in u1\<lparr>fds := hd (poll_notify [fds u1] eventset)\<rparr>)"

definition sensor_pollnotify :: "u32 \<Rightarrow> u32 \<Rightarrow> 'd sensor_upperhalf_s \<Rightarrow> 'd sensor_upperhalf_s" where
  "sensor_pollnotify eventset r up =
     up\<lparr>userlist := map (\<lambda>(k, u). (k, sensor_pollnotify_one eventset r u)) (userlist up)\<rparr>"

section \<open>Generations\<close>

text \<open>A generation in memory: four bytes, the lowest first.\<close>

definition bytes_of_u32 :: "u32 \<Rightarrow> u8 list" where
  "bytes_of_u32 g = map (\<lambda>i. ucast (drop_bit (8 * i) g)) [0, 1, 2, 3]"

definition u32_of_bytes :: "u8 list \<Rightarrow> u32" where
  "u32_of_bytes bs = foldr (\<lambda>b acc. ucast b OR push_bit 8 acc) bs 0"

text \<open>Reading a generation at a byte position of the timing buffer into a variable.\<close>

definition peek_generation :: "circbuf_s \<Rightarrow> u32 \<Rightarrow> u32 \<Rightarrow> u32" where
  "peek_generation c pos old =
     (let dst = circbuf_peekat c pos TIMING_BUF_ESIZE
      in u32_of_bytes (dst @ drop (length dst) (bytes_of_u32 old)))"

definition generation_step :: "'d sensor_upperhalf_s \<Rightarrow> u32" where
  "generation_step up = (if min_interval (state up) \<noteq> UINT32_MAX then min_interval (state up) else 1)"

fun sensor_generate_timing :: "nat \<Rightarrow> 'd sensor_upperhalf_s \<Rightarrow> 'd sensor_upperhalf_s" where
  "sensor_generate_timing 0 up = up"
| "sensor_generate_timing (Suc nums) up =
     (let g = generation (state up) + generation_step up
      in sensor_generate_timing nums
           (up\<lparr>state := (state up)\<lparr>generation := g\<rparr>,
               timing := snd (circbuf_overwrite (timing up) (bytes_of_u32 g))\<rparr>))"

definition sensor_is_updated :: "'d sensor_upperhalf_s \<Rightarrow> sensor_user_s \<Rightarrow> bool" where
  "sensor_is_updated up u =
     (let delta = generation (state up) - u_generation (ustate u)
      in if sint delta \<le> 0 then False
         else if interval (ustate u) = UINT32_MAX then True
         else interval (ustate u) - drop_bit 1 (min_interval (state up)) \<le> delta)"

definition ROUND_DOWN :: "u32 \<Rightarrow> u32 \<Rightarrow> u32" where
  "ROUND_DOWN x y = (x div y) * y"

definition set_generation :: "u32 \<Rightarrow> sensor_user_s \<Rightarrow> sensor_user_s" where
  "set_generation g u = u\<lparr>ustate := (ustate u)\<lparr>u_generation := g\<rparr>\<rparr>"

definition sensor_catch_up :: "'d sensor_upperhalf_s \<Rightarrow> sensor_user_s \<Rightarrow> sensor_user_s" where
  "sensor_catch_up up u =
     (let g = peek_generation (timing up) (tail (timing up)) 0;
          delta = g - u_generation (ustate u)
      in if 0 < sint delta
         then let u1 = u\<lparr>bufferpos := tail (timing up) div TIMING_BUF_ESIZE\<rparr>
              in if interval (ustate u) = UINT32_MAX then set_generation (g - 1) u1
                 else set_generation (u_generation (ustate u) +
                        ROUND_DOWN (delta - drop_bit 1 (min_interval (state up))) (interval (ustate u))) u1
         else u)"

section \<open>Reading\<close>

text \<open>
  The loop of \<^verbatim>\<open>sensor_do_samples\<close> that picks the samples nearest to the times the subscriber wants.  The
  first component of the result tells that it ran up to the newest sample.  \<open>null\<close> says that the caller
  passed no buffer and only wants the number of bytes.
\<close>

function pick_samples :: "'d sensor_upperhalf_s \<Rightarrow> bool \<Rightarrow> u32 \<Rightarrow> u32 \<Rightarrow> u32 \<Rightarrow> u32 \<Rightarrow> sensor_user_s \<Rightarrow> u32 \<Rightarrow> u8 list \<Rightarrow>
    bool \<times> sensor_user_s \<times> u32 \<times> u8 list" where
  "pick_samples up null len end pos g u ret out =
     (if pos = end then (True, u, ret, out)
      else
        (let pos' = pos + 1;
             next_g = (if pos' * TIMING_BUF_ESIZE = head (timing up)
                       then generation (state up) + min_interval (state up)
                       else peek_generation (timing up) (pos' * TIMING_BUF_ESIZE) 0);
             delta = next_g + g - push_bit 1 (u_generation (ustate u) + interval (ustate u))
         in if 0 \<le> sint delta
            then
              (let dst = (if null then [] else circbuf_peekat (buffer up) ((pos' - 1) * esize (state up)) (esize (state up)));
                   ret' = ret + (if null then esize (state up) else of_nat (length dst));
                   u' = set_generation (u_generation (ustate u) + interval (ustate u)) (u\<lparr>bufferpos := pos'\<rparr>)
               in if len \<le> ret' then (False, u', ret', out @ dst)
                  else pick_samples up null len end pos' next_g u' ret' (out @ dst))
            else pick_samples up null len end pos' next_g u ret out))"
  by pat_completeness auto

lemma distance_decreases:
  fixes x y :: "'a::len word"
  assumes "x \<noteq> y"
  shows "unat (y - (x + 1)) < unat (y - x)"
proof -
  have "y - x \<noteq> 0" using assms by simp
  then have "unat (y - x - 1) = unat (y - x) - 1" "0 < unat (y - x)"
    by (simp_all add: unat_pred unat_gt_0)
  then show ?thesis by (simp add: diff_diff_eq)
qed

termination pick_samples
  by (relation "measure (\<lambda>(up, null, len, end, pos, _). unat (end - pos))") (simp_all add: distance_decreases)

declare pick_samples.simps [simp del]

definition sensor_do_samples :: "'d sensor_upperhalf_s \<Rightarrow> sensor_user_s \<Rightarrow> bool \<Rightarrow> u32 \<Rightarrow> (u32 \<times> u8 list) \<times> sensor_user_s" where
  "sensor_do_samples up u0 null len0 =
     (let u = sensor_catch_up up u0;
          nums0 = head (timing up) div TIMING_BUF_ESIZE - bufferpos u;
          nums = (if len0 < nums0 * esize (state up) then len0 div esize (state up) else nums0);
          len = nums * esize (state up)
      in if interval (ustate u) = UINT32_MAX
         then
           (let dst = (if null then [] else circbuf_peekat (buffer up) (bufferpos u * esize (state up)) len);
                ret = (if null then len else of_nat (length dst));
                u1 = u\<lparr>bufferpos := bufferpos u + nums\<rparr>;
                g = peek_generation (timing up) ((bufferpos u1 - 1) * TIMING_BUF_ESIZE) (u_generation (ustate u1))
            in ((ret, dst), set_generation g u1))
         else
           (let pos = bufferpos u;
                end = head (timing up) div TIMING_BUF_ESIZE;
                g = peek_generation (timing up) (pos * TIMING_BUF_ESIZE) 0;
                (all, u1, ret, dst) = pick_samples up null len end pos g u 0 []
            in if all \<and> sensor_is_updated up u1
               then
                 (let g = generation (state up) - u_generation (ustate u1) + drop_bit 1 (min_interval (state up))
                  in ((ret, dst), set_generation (u_generation (ustate u1) + ROUND_DOWN g (interval (ustate u1))) u1))
               else ((ret, dst), u1)))"

text \<open>
  \<^verbatim>\<open>read\<close>: \<open>None\<close> when the caller waits for \<^verbatim>\<open>buffersem\<close>, after which it goes on with \<open>sensor_read_woken\<close>;
  otherwise the error, or the value returned and the bytes stored in the buffer.
\<close>

definition sensor_fetch :: "(u32 \<Rightarrow> 'd \<Rightarrow> u8 list res \<times> 'd) \<Rightarrow> u32 \<Rightarrow> 'd sensor_upperhalf_s \<Rightarrow>
    (u32 \<times> u8 list) res \<times> 'd sensor_upperhalf_s" where
  "sensor_fetch fetch len up =
     (case fetch len (dev (lower up)) of
        (Inl e, d) \<Rightarrow> (Inl e, set_dev d up)
      | (Inr bs, d) \<Rightarrow> (Inr (of_nat (length bs), bs), set_dev d up))"

definition sensor_read_woken :: "(u32 \<Rightarrow> 'd \<Rightarrow> u8 list res \<times> 'd) \<Rightarrow> u32 \<Rightarrow> 'd sensor_upperhalf_s \<Rightarrow>
    (u32 \<times> u8 list) res option \<times> 'd sensor_upperhalf_s" where
  "sensor_read_woken fetch len up =
     (let (r, up1) = sensor_fetch fetch len (sensor_lock up) in (Some r, sensor_unlock up1))"

definition sensor_read_buffered :: "nat \<Rightarrow> bool \<Rightarrow> u32 \<Rightarrow> 'd sensor_upperhalf_s \<Rightarrow> (u32 \<times> u8 list) res \<times> 'd sensor_upperhalf_s" where
  "sensor_read_buffered uid null len up =
     (let u = user_of uid up
      in if circbuf_is_empty (buffer up) then (Inl ENODATA, up)
         else if sensor_is_updated up u
         then (let (r, u') = sensor_do_samples up u null len in (Inr r, upd_user uid (\<lambda>_. u') up))
         else if persist (lower up)
         then (if null then (Inr (esize (state up), []), up)
               else (let dst = circbuf_peekat (buffer up) ((bufferpos u - 1) * esize (state up)) (esize (state up))
                     in (Inr (of_nat (length dst), dst), up)))
         else (Inl ENODATA, up))"

definition sensor_read :: "oflags \<Rightarrow> nat \<Rightarrow> bool \<Rightarrow> u32 \<Rightarrow> 'd sensor_upperhalf_s \<Rightarrow>
    (u32 \<times> u8 list) res option \<times> 'd sensor_upperhalf_s" where
  "sensor_read flags uid null len up0 =
     (if len = 0 then (Some (Inl EINVAL), up0)
      else
        (let up = sensor_lock up0
         in case op_fetch (ops (lower up)) of
              Some fetch \<Rightarrow>
                (if null then (Some (Inl EINVAL), up)
                 else if \<not> O_NONBLOCK flags
                 then
                   (let up1 = upd_user uid (\<lambda>u. u\<lparr>buffersem := buffersem u - 1\<rparr>) (sensor_unlock up)
                    in if 0 < buffersem (user_of uid up) then sensor_read_woken fetch len up1 else (None, up1))
                 else if nsubscribers (state up) = 0 then (Some (Inl EAGAIN), sensor_unlock up)
                 else (let (r, up1) = sensor_fetch fetch len up in (Some r, sensor_unlock up1)))
            | None \<Rightarrow> (let (r, up1) = sensor_read_buffered uid null len up in (Some r, sensor_unlock up1))))"

section \<open>Publishing\<close>

text \<open>The end of a flush, told to the users that wait for it.\<close>

definition flush_complete :: "sensor_user_s \<Rightarrow> sensor_user_s" where
  "flush_complete u =
     sensor_pollnotify_one POLLPRI (role u) (u\<lparr>flushing := False, event := event u OR SENSOR_EVENT_FLUSH_COMPLETE\<rparr>)"

text \<open>The two buffers are allocated with the first sample.\<close>

definition sensor_init_buffers :: "u8 list option \<Rightarrow> u8 list option \<Rightarrow> 'd sensor_upperhalf_s \<Rightarrow> unit res \<times> 'd sensor_upperhalf_s" where
  "sensor_init_buffers mem_buffer mem_timing up =
     (if circbuf_is_init (buffer up) then (OK, up)
      else
        (case circbuf_init None (lower_nbuffer (lower up) * esize (state up)) mem_buffer (buffer up) of
           (Inl e, b) \<Rightarrow> (Inl e, up\<lparr>buffer := b\<rparr>)
         | (Inr _, b) \<Rightarrow>
             (case circbuf_init None (lower_nbuffer (lower up) * TIMING_BUF_ESIZE) mem_timing (timing up) of
                (Inl e, t) \<Rightarrow> (Inl e, up\<lparr>buffer := circbuf_uninit b, timing := t\<rparr>)
              | (Inr _, t) \<Rightarrow> (OK, up\<lparr>buffer := b, timing := t\<rparr>))))"

definition wake_user :: "sensor_user_s \<Rightarrow> sensor_user_s" where
  "wake_user u =
     sensor_pollnotify_one POLLIN SENSOR_ROLE_RD (if buffersem u < 1 then u\<lparr>buffersem := buffersem u + 1\<rparr> else u)"

definition sensor_push_event :: "u8 list option \<Rightarrow> u8 list option \<Rightarrow> u8 list \<Rightarrow> 'd sensor_upperhalf_s \<Rightarrow> u32 res \<times> 'd sensor_upperhalf_s" where
  "sensor_push_event mem_buffer mem_timing data up0 =
     (let up = sensor_lock up0; bytes = of_nat (length data); envcount = bytes div esize (state up)
      in if bytes = 0
         then (Inr 0, sensor_unlock (up\<lparr>userlist := map (\<lambda>(k, u). (k, if flushing u then flush_complete u else u)) (userlist up)\<rparr>))
         else if bytes \<noteq> envcount * esize (state up) then (Inl EINVAL, sensor_unlock up)
         else
           (case sensor_init_buffers mem_buffer mem_timing up of
              (Inl e, up1) \<Rightarrow> (Inl e, sensor_unlock up1)
            | (Inr _, up1) \<Rightarrow>
                (let up2 = sensor_generate_timing (unat envcount) (up1\<lparr>buffer := snd (circbuf_overwrite (buffer up1) data)\<rparr>)
                 in (Inr bytes,
                     sensor_unlock (up2\<lparr>userlist := map (\<lambda>(k, u). (k, if sensor_is_updated up2 u then wake_user u else u)) (userlist up2)\<rparr>)))))"

definition sensor_notify_event :: "'d sensor_upperhalf_s \<Rightarrow> 'd sensor_upperhalf_s" where
  "sensor_notify_event up0 =
     (let up = sensor_lock up0 in sensor_unlock (up\<lparr>userlist := map (\<lambda>(k, u). (k, wake_user u)) (userlist up)\<rparr>))"

text \<open>
  \<^verbatim>\<open>write\<close> hands its buffer to the lower half's \<^verbatim>\<open>push_event\<close>.  That pointer shares its place with
  \<^verbatim>\<open>notify_event\<close>, to which registration sets it when the lower half has \<^verbatim>\<open>fetch\<close>; what the call returns is
  then undefined (\<open>None\<close>).
\<close>

definition sensor_write :: "u8 list option \<Rightarrow> u8 list option \<Rightarrow> u8 list \<Rightarrow> 'd sensor_upperhalf_s \<Rightarrow>
    u32 res option \<times> 'd sensor_upperhalf_s" where
  "sensor_write mem_buffer mem_timing data up =
     (if op_fetch (ops (lower up)) = None
      then (let (r, up1) = sensor_push_event mem_buffer mem_timing data up in (Some r, up1))
      else (None, sensor_notify_event up))"

section \<open>Rates\<close>

text \<open>
  A user asks for an interval, a latency and whether it may wake the system; the device gets the least
  over all users.  The driver is called with the lock released; \<open>others\<close> is what other threads do to
  the topic in the meantime, and the computation starts again when they changed the value.
\<close>

definition set_state :: "(sensor_state_s \<Rightarrow> sensor_state_s) \<Rightarrow> 'd sensor_upperhalf_s \<Rightarrow> 'd sensor_upperhalf_s" where
  "set_state f up = up\<lparr>state := f (state up)\<rparr>"

definition users_min :: "nat \<Rightarrow> (nat \<times> sensor_user_s) list \<Rightarrow> u32 \<times> u32 \<Rightarrow> u32 \<times> u32" where
  "users_min uid us m =
     foldl (\<lambda>(mi, ml) (k, u).
       if k = uid \<or> interval (ustate u) = UINT32_MAX then (mi, ml)
       else (if interval (ustate u) < mi then interval (ustate u) else mi,
             if latency (ustate u) < ml then latency (ustate u) else ml)) m us"

definition finish_interval :: "nat \<Rightarrow> u32 \<Rightarrow> u32 \<Rightarrow> 'd sensor_upperhalf_s \<Rightarrow> 'd sensor_upperhalf_s" where
  "finish_interval uid intv mi up =
     sensor_unlock (sensor_pollnotify POLLPRI SENSOR_ROLE_WR
       (upd_user uid (\<lambda>u. u\<lparr>ustate := (ustate u)\<lparr>interval := intv\<rparr>\<rparr>)
         (set_state (\<lambda>s. s\<lparr>min_interval := mi\<rparr>) up)))"

text \<open>The call of \<^verbatim>\<open>batch\<close> within the update of the interval; the first result says \<^verbatim>\<open>goto again\<close>.\<close>

definition interval_batch :: "('d sensor_upperhalf_s \<Rightarrow> 'd sensor_upperhalf_s) \<Rightarrow> u32 \<Rightarrow> u32 \<Rightarrow> u32 res \<Rightarrow> 'd sensor_upperhalf_s \<Rightarrow>
    bool \<times> u32 \<times> u32 res \<times> 'd sensor_upperhalf_s" where
  "interval_batch others mi ml0 ret up =
     (let ml = (if ml0 = UINT32_MAX then 0 else ml0)
      in case op_batch (ops (lower up)) of
           None \<Rightarrow> (False, ml, ret, up)
         | Some batch \<Rightarrow>
             (if ml \<noteq> min_latency (state up) \<or> mi \<noteq> min_interval (state up) \<and> ml \<noteq> 0
              then
                (case batch ml (dev (lower up)) of
                   (r, ml', d) \<Rightarrow>
                     (let up1 = sensor_lock (others (set_dev d (sensor_unlock up)))
                      in if min_latency (state up) \<noteq> min_latency (state up1) then (True, ml', r, up1)
                         else (False, ml', r,
                               case r of Inl _ \<Rightarrow> up1 | Inr _ \<Rightarrow> set_state (\<lambda>s. s\<lparr>min_latency := ml'\<rparr>) up1)))
              else (False, ml, ret, up)))"

partial_function (option) update_interval_again :: "('d sensor_upperhalf_s \<Rightarrow> 'd sensor_upperhalf_s) \<Rightarrow> nat \<Rightarrow> u32 \<Rightarrow> u32 \<Rightarrow> u32 \<Rightarrow>
    u32 res \<Rightarrow> 'd sensor_upperhalf_s \<Rightarrow> (u32 res \<times> 'd sensor_upperhalf_s) option" where
  "update_interval_again others uid intv mi0 ml0 ret up =
     (case users_min uid (userlist up) (mi0, ml0) of (mi, ml) \<Rightarrow>
        (case op_set_interval (ops (lower up)) of
           None \<Rightarrow> Some (ret, finish_interval uid intv mi up)
         | Some set_interval \<Rightarrow>
             (if mi \<noteq> UINT32_MAX \<and> mi \<noteq> min_interval (state up)
              then
                (case set_interval mi (dev (lower up)) of
                   (r, mi', d) \<Rightarrow>
                     (let up1 = others (set_dev d (sensor_unlock up))
                      in case r of
                           Inl e \<Rightarrow> Some (Inl e, up1)
                         | Inr v \<Rightarrow>
                             (if mi < mi' then Some (Inl EINVAL, up1)
                              else if min_interval (state up) \<noteq> min_interval (state (sensor_lock up1))
                              then update_interval_again others uid intv mi' ml (Inr v) (sensor_lock up1)
                              else
                                (case interval_batch others mi' ml (Inr v) (sensor_lock up1) of
                                   (again, ml', ret', up2) \<Rightarrow>
                                     (if again then update_interval_again others uid intv mi' ml' ret' up2
                                      else Some (ret', finish_interval uid intv mi' up2))))))
              else
                (case interval_batch others mi ml ret up of
                   (again, ml', ret', up2) \<Rightarrow>
                     (if again then update_interval_again others uid intv mi ml' ret' up2
                      else Some (ret', finish_interval uid intv mi up2))))))"

declare update_interval_again.simps [code]

definition sensor_update_interval :: "('d sensor_upperhalf_s \<Rightarrow> 'd sensor_upperhalf_s) \<Rightarrow> nat \<Rightarrow> u32 \<Rightarrow> 'd sensor_upperhalf_s \<Rightarrow>
    (u32 res \<times> 'd sensor_upperhalf_s) option" where
  "sensor_update_interval others uid intv up =
     (let u = user_of uid up; ml = (if intv \<noteq> UINT32_MAX then latency (ustate u) else UINT32_MAX)
      in if intv = interval (ustate u) then Some (Inr 0, up)
         else update_interval_again others uid intv intv ml (Inr 0) (sensor_lock up))"

definition set_latency :: "nat \<Rightarrow> u32 \<Rightarrow> 'd sensor_upperhalf_s \<Rightarrow> 'd sensor_upperhalf_s" where
  "set_latency uid lat up = upd_user uid (\<lambda>u. u\<lparr>ustate := (ustate u)\<lparr>latency := lat\<rparr>\<rparr>) up"

definition finish_latency :: "nat \<Rightarrow> u32 \<Rightarrow> u32 \<Rightarrow> 'd sensor_upperhalf_s \<Rightarrow> 'd sensor_upperhalf_s" where
  "finish_latency uid lat ml up =
     sensor_unlock (sensor_pollnotify POLLPRI SENSOR_ROLE_WR
       (set_latency uid lat (set_state (\<lambda>s. s\<lparr>min_latency := ml\<rparr>) up)))"

partial_function (option) update_latency_again :: "('d sensor_upperhalf_s \<Rightarrow> 'd sensor_upperhalf_s) \<Rightarrow> nat \<Rightarrow> u32 \<Rightarrow> u32 \<Rightarrow> u32 res \<Rightarrow>
    'd sensor_upperhalf_s \<Rightarrow> (u32 res \<times> 'd sensor_upperhalf_s) option" where
  "update_latency_again others uid lat ml0 ret up =
     (let ml1 = (if lat \<le> min_latency (state up) then ml0 else snd (users_min uid (userlist up) (0, ml0)));
          ml = (if ml1 = UINT32_MAX then 0 else ml1)
      in if ml = min_latency (state up) then Some (ret, sensor_unlock (set_latency uid lat up))
         else
           (case op_batch (ops (lower up)) of
              None \<Rightarrow> Some (ret, finish_latency uid lat ml up)
            | Some batch \<Rightarrow>
                (case batch ml (dev (lower up)) of
                   (r, ml', d) \<Rightarrow>
                     (let up1 = others (set_dev d (sensor_unlock up))
                      in case r of
                           Inl e \<Rightarrow> Some (Inl e, up1)
                         | Inr v \<Rightarrow>
                             (if min_latency (state up) \<noteq> min_latency (state (sensor_lock up1))
                              then update_latency_again others uid lat ml' (Inr v) (sensor_lock up1)
                              else Some (Inr v, finish_latency uid lat ml' (sensor_lock up1)))))))"

declare update_latency_again.simps [code]

definition sensor_update_latency :: "('d sensor_upperhalf_s \<Rightarrow> 'd sensor_upperhalf_s) \<Rightarrow> nat \<Rightarrow> u32 \<Rightarrow> 'd sensor_upperhalf_s \<Rightarrow>
    (u32 res \<times> 'd sensor_upperhalf_s) option" where
  "sensor_update_latency others uid lat up =
     (let u = user_of uid up
      in if lat = latency (ustate u) then Some (Inr 0, up)
         else if interval (ustate u) = UINT32_MAX then Some (Inr 0, set_latency uid lat up)
         else update_latency_again others uid lat lat (Inr 0) (sensor_lock up))"

definition sensor_update_nonwakeup :: "nat \<Rightarrow> bool \<Rightarrow> 'd sensor_upperhalf_s \<Rightarrow> 'd sensor_upperhalf_s" where
  "sensor_update_nonwakeup uid nw0 up0 =
     (if nw0 = u_nonwakeup (ustate (user_of uid up0)) then up0
      else
        (let up = sensor_lock (upd_user uid (\<lambda>u. u\<lparr>ustate := (ustate u)\<lparr>u_nonwakeup := nw0\<rparr>\<rparr>) up0);
             nw = (nw0 \<and> list_all (\<lambda>(k, u). u_nonwakeup (ustate u)) (userlist up))
         in if nw \<noteq> nonwakeup (state up)
            then
              (let up1 = sensor_unlock (set_state (\<lambda>s. s\<lparr>nonwakeup := nw\<rparr>) up)
               in case op_set_nonwakeup (ops (lower up1)) of
                    None \<Rightarrow> up1
                  | Some f \<Rightarrow> set_dev (snd (f nw (dev (lower up1)))) up1)
            else sensor_unlock up))"

section \<open>Opening and closing\<close>

text \<open>A call into the lower half, if it has the function.\<close>

definition dcall :: "'d devcall option \<Rightarrow> u32 res \<Rightarrow> 'd sensor_upperhalf_s \<Rightarrow> u32 res \<times> 'd sensor_upperhalf_s" where
  "dcall f r up = (case f of None \<Rightarrow> (r, up) | Some f \<Rightarrow> (case f (dev (lower up)) of (r', d) \<Rightarrow> (r', set_dev d up)))"

text \<open>The new user: its role and where it starts.\<close>

definition new_user :: "oflags \<Rightarrow> 'd sensor_upperhalf_s \<Rightarrow> sensor_user_s" where
  "new_user flags up =
     (let r = (if O_RDOK flags then SENSOR_ROLE_RD else 0) OR (if O_WROK flags then SENSOR_ROLE_WR else 0);
          old = generation (state up) \<noteq> 0 \<and> persist (lower up);
          pos = head (timing up) div TIMING_BUF_ESIZE
      in zero_user\<lparr>role := r, bufferpos := (if old then pos - 1 else pos),
           ustate := \<lparr>u_esize = esize (state up), latency = 0, interval = UINT32_MAX, u_nonwakeup = True,
             u_generation = (if old then generation (state up) - 1 else generation (state up))\<rparr>\<rparr>)"

definition count_open :: "oflags \<Rightarrow> 'd sensor_upperhalf_s \<Rightarrow> 'd sensor_upperhalf_s" where
  "count_open flags up =
     (let up1 = (if O_RDOK flags then set_state (\<lambda>s. s\<lparr>nsubscribers := nsubscribers s + 1\<rparr>) up else up);
          up2 = (if O_WROK flags then set_state (\<lambda>s. s\<lparr>nadvertisers := nadvertisers s + 1\<rparr>) up1 else up1)
      in if O_WROK flags \<and> SENSOR_PERSIST flags then up2\<lparr>lower := (lower up2)\<lparr>persist := True\<rparr>\<rparr> else up2)"

text \<open>\<open>mem\<close> says that the memory for the user could be allocated, \<open>uid\<close> is its handle.\<close>

definition sensor_open :: "oflags \<Rightarrow> nat \<Rightarrow> bool \<Rightarrow> 'd sensor_upperhalf_s \<Rightarrow> u32 res \<times> 'd sensor_upperhalf_s" where
  "sensor_open flags uid mem up0 =
     (let up = sensor_lock up0; lops = ops (lower up)
      in if \<not> mem then (Inl ENOMEM, sensor_unlock up)
         else
           (case (if \<not> O_DIRECT flags then dcall (op_open lops) (Inr 0) up else (Inr 0, up)) of
              (Inl e, up1) \<Rightarrow> (Inl e, sensor_unlock up1)
            | (Inr v, up1) \<Rightarrow>
                (case (if O_RDOK flags \<and> nsubscribers (state up1) = 0
                       then dcall (map_option (\<lambda>f. f True) (op_activate lops)) (Inr v) up1 else (Inr v, up1)) of
                   (Inl e, up2) \<Rightarrow> (Inl e, sensor_unlock (snd (dcall (op_close lops) (Inr 0) up2)))
                 | (Inr v2, up2) \<Rightarrow>
                     (let up3 = count_open flags up2;
                          up4 = up3\<lparr>userlist := userlist up3 @ [(uid, new_user flags up3)]\<rparr>
                      in (Inr v2, sensor_unlock (sensor_pollnotify POLLPRI SENSOR_ROLE_WR up4))))))"

definition count_close :: "oflags \<Rightarrow> 'd sensor_upperhalf_s \<Rightarrow> 'd sensor_upperhalf_s" where
  "count_close flags up =
     (let lops = ops (lower up);
          up1 = (if O_RDOK flags then set_state (\<lambda>s. s\<lparr>nsubscribers := nsubscribers s - 1\<rparr>) up else up);
          up2 = (if O_RDOK flags \<and> nsubscribers (state up1) = 0
                 then snd (dcall (map_option (\<lambda>f. f False) (op_activate lops)) (Inr 0) up1) else up1)
      in if O_WROK flags then set_state (\<lambda>s. s\<lparr>nadvertisers := nadvertisers s - 1\<rparr>) up2 else up2)"

definition sensor_close :: "('d sensor_upperhalf_s \<Rightarrow> 'd sensor_upperhalf_s) \<Rightarrow> oflags \<Rightarrow> nat \<Rightarrow> 'd sensor_upperhalf_s \<Rightarrow>
    (u32 res \<times> 'd sensor_upperhalf_s) option" where
  "sensor_close others flags uid up0 =
     (case sensor_update_interval others uid UINT32_MAX up0 of
        None \<Rightarrow> None
      | Some (_, up1) \<Rightarrow>
          (case sensor_update_latency others uid UINT32_MAX up1 of
             None \<Rightarrow> None
           | Some (_, up2) \<Rightarrow>
               (let up3 = sensor_lock (sensor_update_nonwakeup uid True up2);
                    up4 = (if \<not> O_DIRECT flags then snd (dcall (op_close (ops (lower up3))) (Inr 0) up3) else up3);
                    up5 = count_close flags up4;
                    up6 = up5\<lparr>userlist := filter (\<lambda>(k, u). k \<noteq> uid) (userlist up5)\<rparr>
                in Some (Inr 0, sensor_unlock (sensor_pollnotify POLLPRI SENSOR_ROLE_WR up6)))))"

section \<open>Poll and control\<close>

definition sensor_poll :: "oflags \<Rightarrow> nat \<Rightarrow> pollfd \<Rightarrow> bool \<Rightarrow> 'd sensor_upperhalf_s \<Rightarrow> unit res \<times> 'd sensor_upperhalf_s" where
  "sensor_poll flags uid pfd setup up0 =
     (let up = sensor_lock up0; u = user_of uid up
      in if setup
         then
           (if fds u \<noteq> None then (Inl ENOSPC, sensor_unlock up)
            else
              (let ready = (if op_fetch (ops (lower up)) \<noteq> None then O_NONBLOCK flags \<or> 0 < buffersem u
                            else sensor_is_updated up u);
                   eventset = (if ready then POLLIN else 0) OR (if changed u then POLLPRI else 0)
               in (OK, sensor_unlock (upd_user uid (\<lambda>u. u\<lparr>fds := hd (poll_notify [Some pfd] eventset)\<rparr>) up))))
         else (OK, sensor_unlock (upd_user uid (\<lambda>u. u\<lparr>fds := None\<rparr>) up)))"

datatype sensor_cmd =
    SNIOC_GET_STATE | SNIOC_GET_USTATE | SNIOC_SET_INTERVAL u32 | SNIOC_BATCH u32 | SNIOC_SELFTEST u32
  | SNIOC_SET_CALIBVALUE u32 | SNIOC_CALIBRATE u32 | SNIOC_SET_USERPRIV u32 | SNIOC_SET_NONWAKEUP u32
  | SNIOC_SET_BUFFER_NUMBER u32 | SNIOC_UPDATED | SNIOC_GET_INFO | SNIOC_GET_EVENTS | SNIOC_FLUSH
  | SNIOC_OTHER nat u32

text \<open>What a control call stores at the address the caller passes.\<close>

datatype sensor_arg = NoArg | State sensor_state_s | Ustate sensor_ustate_s | Flag bool | Event u32

definition need_op :: "'d devcall option \<Rightarrow> errno \<Rightarrow> 'd sensor_upperhalf_s \<Rightarrow> ((u32 res \<times> sensor_arg) \<times> 'd sensor_upperhalf_s) option" where
  "need_op f e up = (case dcall f (Inl e) up of (r, up1) \<Rightarrow> Some ((r, NoArg), up1))"

definition sensor_flush :: "oflags \<Rightarrow> nat \<Rightarrow> 'd sensor_upperhalf_s \<Rightarrow> u32 res \<times> 'd sensor_upperhalf_s" where
  "sensor_flush flags uid up =
     (if nsubscribers (state up) = 0 then (Inl EINVAL, up)
      else
        (case dcall (op_flush (ops (lower up))) (Inl ENOTSUP) up of
           (Inr v, up1) \<Rightarrow> (Inr v, upd_user uid (\<lambda>u. u\<lparr>flushing := True\<rparr>) up1)
         | (Inl e, up1) \<Rightarrow>
             (if e = ENOTSUP
              then (if SENSOR_REMOTE flags then Inl ENOTSUP else Inr 0, upd_user uid flush_complete up1)
              else (Inl e, up1))))"

fun sensor_ioctl :: "('d sensor_upperhalf_s \<Rightarrow> 'd sensor_upperhalf_s) \<Rightarrow> oflags \<Rightarrow> nat \<Rightarrow> sensor_cmd \<Rightarrow> 'd sensor_upperhalf_s \<Rightarrow>
    ((u32 res \<times> sensor_arg) \<times> 'd sensor_upperhalf_s) option" where
  "sensor_ioctl others flags uid SNIOC_GET_STATE up0 =
     (let up = sensor_lock up0
      in Some ((Inr 0, State (state up)), sensor_unlock (upd_user uid (\<lambda>u. u\<lparr>changed := False\<rparr>) up)))"
| "sensor_ioctl others flags uid SNIOC_GET_USTATE up0 =
     (let up = sensor_lock up0 in Some ((Inr 0, Ustate (ustate (user_of uid up))), sensor_unlock up))"
| "sensor_ioctl others flags uid (SNIOC_SET_INTERVAL a) up =
     map_option (\<lambda>(r, up1). ((r, NoArg), up1)) (sensor_update_interval others uid (if a \<noteq> 0 then a else UINT32_MAX) up)"
| "sensor_ioctl others flags uid (SNIOC_BATCH a) up =
     map_option (\<lambda>(r, up1). ((r, NoArg), up1)) (sensor_update_latency others uid a up)"
| "sensor_ioctl others flags uid (SNIOC_SELFTEST a) up =
     need_op (map_option (\<lambda>f. f a) (op_selftest (ops (lower up)))) ENOTSUP up"
| "sensor_ioctl others flags uid (SNIOC_SET_CALIBVALUE a) up =
     need_op (map_option (\<lambda>f. f a) (op_set_calibvalue (ops (lower up)))) ENOTSUP up"
| "sensor_ioctl others flags uid (SNIOC_CALIBRATE a) up =
     need_op (map_option (\<lambda>f. f a) (op_calibrate (ops (lower up)))) ENOTSUP up"
| "sensor_ioctl others flags uid (SNIOC_SET_USERPRIV a) up0 =
     Some ((Inr 0, NoArg), sensor_unlock (set_state (\<lambda>s. s\<lparr>user_priv := ucast a\<rparr>) (sensor_lock up0)))"
| "sensor_ioctl others flags uid (SNIOC_SET_NONWAKEUP a) up =
     Some ((Inr 0, NoArg), sensor_update_nonwakeup uid (a \<noteq> 0) up)"
| "sensor_ioctl others flags uid (SNIOC_SET_BUFFER_NUMBER a) up0 =
     (let up = sensor_lock up0
      in if circbuf_is_init (buffer up) then Some ((Inl EBUSY, NoArg), sensor_unlock up)
         else if lower_nbuffer (lower up) \<le> a
         then Some ((Inr 0, NoArg), sensor_unlock
                (set_state (\<lambda>s. s\<lparr>nbuffer := a\<rparr>) (up\<lparr>lower := (lower up)\<lparr>lower_nbuffer := a\<rparr>\<rparr>)))
         else Some ((Inl ERANGE, NoArg), sensor_unlock up))"
| "sensor_ioctl others flags uid SNIOC_UPDATED up0 =
     (let up = sensor_lock up0 in Some ((Inr 0, Flag (sensor_is_updated up (user_of uid up))), sensor_unlock up))"
| "sensor_ioctl others flags uid SNIOC_GET_INFO up = need_op (op_get_info (ops (lower up))) ENOTSUP up"
| "sensor_ioctl others flags uid SNIOC_GET_EVENTS up0 =
     (let up = sensor_lock up0
      in Some ((Inr 0, Event (event (user_of uid up))),
               sensor_unlock (upd_user uid (\<lambda>u. u\<lparr>event := 0, changed := False\<rparr>) up)))"
| "sensor_ioctl others flags uid SNIOC_FLUSH up =
     (let (r, up1) = sensor_flush flags uid up in Some ((r, NoArg), up1))"
| "sensor_ioctl others flags uid (SNIOC_OTHER cmd a) up =
     need_op (map_option (\<lambda>f. f cmd a) (op_control (ops (lower up)))) ENOTTY up"

section \<open>Registration\<close>

abbreviation (input) SENSOR_TYPE_COUNT :: nat where
  "SENSOR_TYPE_COUNT \<equiv> 59"

text \<open>\<open>mem\<close>: the upper half could be allocated; \<open>reg\<close>: the result of \<^verbatim>\<open>register_driver\<close>.\<close>

definition sensor_custom_register :: "bool \<Rightarrow> unit res \<Rightarrow> u32 \<Rightarrow> 'd sensor_lowerhalf_s \<Rightarrow> 'd sensor_upperhalf_s res" where
  "sensor_custom_register mem reg sz low =
     (if SENSOR_TYPE_COUNT \<le> type_of low \<or> sz = 0 then Inl EINVAL
      else if \<not> mem then Inl ENOMEM
      else
        (let n = (if op_fetch (ops low) = None then (if lower_nbuffer low = 0 then 1 else lower_nbuffer low) else 0);
             low1 = low\<lparr>lower_nbuffer := n\<rparr>
         in case reg of
              Inl e \<Rightarrow> Inl e
            | Inr _ \<Rightarrow>
                Inr \<lparr>lower = low1,
                     state = \<lparr>esize = sz, nbuffer = n, min_latency = 0, min_interval = UINT32_MAX, nsubscribers = 0,
                       nadvertisers = (if op_activate (ops low) \<noteq> None then 1 else 0), generation = 0,
                       nonwakeup = True, user_priv = 0\<rparr>,
                     timing = zero_circbuf, buffer = zero_circbuf, lock = 0, userlist = []\<rparr>))"

definition sensor_custom_unregister :: "'d sensor_upperhalf_s \<Rightarrow> circbuf_s \<times> circbuf_s" where
  "sensor_custom_unregister up =
     (if circbuf_is_init (buffer up) then (circbuf_uninit (buffer up), circbuf_uninit (timing up))
      else (buffer up, timing up))"

text \<open>The axes of a sensor that is mounted in one of eight ways: sources and signs.\<close>

definition g_remap_tbl :: "((nat \<times> nat \<times> nat) \<times> (int \<times> int \<times> int)) list" where
  "g_remap_tbl =
     [((0, 1, 2), (1, 1, 1)), ((1, 0, 2), (1, - 1, 1)), ((0, 1, 2), (- 1, - 1, 1)), ((1, 0, 2), (- 1, 1, 1)),
      ((0, 1, 2), (- 1, 1, - 1)), ((1, 0, 2), (- 1, - 1, - 1)), ((0, 1, 2), (1, - 1, - 1)), ((1, 0, 2), (1, 1, - 1))]"

definition sensor_remap_vector_raw16 :: "u16 list \<Rightarrow> nat \<Rightarrow> u16 list" where
  "sensor_remap_vector_raw16 v place =
     (case g_remap_tbl ! place of
        ((sx, sy, sz), (gx, gy, gz)) \<Rightarrow>
          [word_of_int (sint (v ! sx) * gx), word_of_int (sint (v ! sy) * gy), word_of_int (sint (v ! sz) * gz)])"

end
