(* ===== verification/Sensor_Stream.thy ===== *)
theory Sensor_Stream
  imports Sensor
begin

text \<open>
  What a subscriber gets from a topic.  The state of a topic is related to the list of all samples that
  were ever published: the buffers hold the newest of them, and the position of a subscriber is the
  number of samples it has seen or missed.
\<close>

section \<open>Generations in memory\<close>

lemma length_bytes_of_u32 [simp]: "length (bytes_of_u32 g) = 4"
  by (simp add: bytes_of_u32_def)

lemma u32_bytes_roundtrip [simp]: "u32_of_bytes (bytes_of_u32 g) = g"
proof (rule bit_eqI)
  fix n
  assume "possible_bit TYPE(u32) n"
  then have n: "n < 32" by simp
  have e: "16 + (n - 16) = n" if "16 \<le> n" using that by simp
  have e': "24 + (n - 24) = n" if "24 \<le> n" using that by simp
  consider "n < 8" | "8 \<le> n" "n < 16" | "16 \<le> n" "n < 24" | "24 \<le> n" by linarith
  then show "bit (u32_of_bytes (bytes_of_u32 g)) n = bit g n"
    by cases (use n e e' in \<open>auto simp: u32_of_bytes_def bytes_of_u32_def bit_simps\<close>)
qed

section \<open>Blocks of equal length\<close>

lemma length_concat_uniform: "\<forall>x \<in> set xs. length x = E \<Longrightarrow> length (concat xs) = length xs * E"
  by (induction xs) simp_all

lemma drop_concat_uniform:
  "\<forall>x \<in> set xs. length x = E \<Longrightarrow> drop (n * E) (concat xs) = concat (drop n xs)"
proof (induction xs arbitrary: n)
  case (Cons x xs)
  then show ?case by (cases n) (simp_all add: drop_append)
qed simp

lemma take_concat_uniform:
  "\<forall>x \<in> set xs. length x = E \<Longrightarrow> take (n * E) (concat xs) = concat (take n xs)"
proof (induction xs arbitrary: n)
  case (Cons x xs)
  then show ?case by (cases n) (simp_all add: take_append)
qed simp

section \<open>A circular buffer of equal blocks\<close>

text \<open>The buffer holds the newest \<open>N\<close> of the blocks \<open>xs\<close>, each of \<open>E\<close> bytes; its counters count all of them.\<close>

definition ring_holds :: "nat \<Rightarrow> nat \<Rightarrow> u8 list list \<Rightarrow> circbuf_s \<Rightarrow> bool" where
  "ring_holds E N xs c \<longleftrightarrow> circ_ok c \<and> 0 < E \<and> unat (size c) = N * E \<and> (\<forall>x \<in> set xs. length x = E) \<and>
     length xs * E < 2 ^ 32 \<and> unat (tail c) = (length xs - N) * E \<and>
     circ_contents c = concat (drop (length xs - N) xs)"

lemma ring_holds_used:
  assumes "ring_holds E N xs c"
  shows "unat (head c - tail c) = (length xs - (length xs - N)) * E"
proof -
  have "unat (head c - tail c) = length (circ_contents c)" by simp
  also have "\<dots> = length (concat (drop (length xs - N) xs))" using assms by (simp only: ring_holds_def)
  also have "\<dots> = length (drop (length xs - N) xs) * E"
    using assms by (intro length_concat_uniform) (auto simp: ring_holds_def dest: in_set_dropD)
  also have "\<dots> = (length xs - (length xs - N)) * E" by (simp only: length_drop)
  finally show ?thesis .
qed

lemma ring_holds_head:
  assumes "ring_holds E N xs c"
  shows "unat (head c) = length xs * E"
proof -
  have t: "unat (tail c) = (length xs - N) * E" and b: "length xs * E < 2 ^ 32"
    using assms by (simp_all add: ring_holds_def)
  have "unat (tail c) + unat (head c - tail c) = (length xs - N + (length xs - (length xs - N))) * E"
    unfolding t ring_holds_used [OF assms] by (simp add: algebra_simps)
  also have "\<dots> = length xs * E" by simp
  finally have s: "unat (tail c) + unat (head c - tail c) = length xs * E" .
  have "unat (tail c + (head c - tail c)) = length xs * E"
    using s b by (subst unat_add_no_wrap) simp_all
  then show ?thesis by simp
qed

lemma ring_holds_peekat:
  assumes h: "ring_holds E N xs c" and p: "length xs - N \<le> p" "p \<le> length xs"
    and pos: "unat pos = p * E" and n: "unat n = k * E"
  shows "circbuf_peekat c pos n = concat (take k (drop p xs))"
proof -
  let ?o = "length xs - N"
  have ok: "circ_ok c" and t: "unat (tail c) = ?o * E" and con: "circ_contents c = concat (drop ?o xs)"
    and u: "\<forall>x \<in> set xs. length x = E"
    using h by (simp_all add: ring_holds_def)
  have "pos = of_nat (p * E)" "tail c = of_nat (?o * E)" by (simp_all flip: pos t)
  moreover have "p * E = ?o * E + (p - ?o) * E" using p(1) by (simp flip: add_mult_distrib)
  ultimately have e: "pos = tail c + of_nat ((p - ?o) * E)" by (simp only: of_nat_add)
  have le: "(p - ?o) * E \<le> unat (head c - tail c)"
    unfolding ring_holds_used [OF h] using p by (intro mult_le_mono1) simp
  have "circbuf_peekat c pos n = take (k * E) (drop ((p - ?o) * E) (circ_contents c))"
    unfolding e peekat_contents [OF ok le] n ..
  also have "\<dots> = take (k * E) (concat (drop p xs))"
    using u p(1) drop_concat_uniform [of "drop ?o xs" E "p - ?o"] by (simp add: con) (metis in_set_dropD)
  also have "\<dots> = concat (take k (drop p xs))"
    using u by (intro take_concat_uniform) (metis in_set_dropD)
  finally show ?thesis .
qed

lemma overwrite_tail: "size c \<noteq> 0 \<Longrightarrow> tail (snd (circbuf_overwrite c src)) = tail c + fst (circbuf_overwrite c src)"
  by (simp add: circbuf_overwrite_def Let_def)

lemma overwrite_any:
  assumes ok: "circ_ok c" and len: "length (circ_contents c) + length src < 2 ^ 32" and safe: "wrap_safe c (length src)"
    and fit: "length src \<le> unat (size c) \<or> circ_contents c \<noteq> []"
  defines "d \<equiv> length (circ_contents c) + length src - unat (size c)"
  shows "unat (fst (circbuf_overwrite c src)) = d" "circ_ok (snd (circbuf_overwrite c src))"
    "size (snd (circbuf_overwrite c src)) = size c"
    "circ_contents (snd (circbuf_overwrite c src)) = drop d (circ_contents c @ src)"
proof -
  have "unat (fst (circbuf_overwrite c src)) = d \<and> circ_ok (snd (circbuf_overwrite c src)) \<and>
    size (snd (circbuf_overwrite c src)) = size c \<and> circ_contents (snd (circbuf_overwrite c src)) = drop d (circ_contents c @ src)"
  proof (cases "length src \<le> unat (size c)")
    case True
    from overwrite_fits [OF ok True safe] show ?thesis by (simp add: d_def)
  next
    case False
    then have h: "unat (size c) < length src" "length src < 2 ^ 32" "circ_contents c \<noteq> []" "d < 2 ^ LENGTH(32)"
      using fit len by (auto simp: d_def)
    from overwrite_replaces [OF ok h(1-3) safe] h(4) show ?thesis by (simp add: d_def unat_of_nat)
  qed
  then show "unat (fst (circbuf_overwrite c src)) = d" "circ_ok (snd (circbuf_overwrite c src))"
    "size (snd (circbuf_overwrite c src)) = size c"
    "circ_contents (snd (circbuf_overwrite c src)) = drop d (circ_contents c @ src)" by blast+
qed

lemma ring_holds_overwrite:
  assumes h: "ring_holds E N xs c" and ys: "\<forall>y \<in> set ys. length y = E" and fit: "length ys \<le> N \<or> xs \<noteq> []"
    and small: "length (xs @ ys) * E < 2 ^ 32"
  shows "ring_holds E N (xs @ ys) (snd (circbuf_overwrite c (concat ys)))"
proof -
  let ?T = "length xs" and ?K = "length ys"
  let ?q = "?T - (?T - N)"
  have ok: "circ_ok c" and E: "0 < E" and sz: "unat (size c) = N * E" and xs: "\<forall>x \<in> set xs. length x = E"
    and t: "unat (tail c) = (?T - N) * E" and con: "circ_contents c = concat (drop (?T - N) xs)"
    using h by (simp_all add: ring_holds_def)
  have N: "0 < N" using circ_okD(2) [OF ok] sz by (cases N) simp_all
  have src: "length (concat ys) = ?K * E" using ys by (rule length_concat_uniform)
  have used: "unat (head c - tail c) = ?q * E" by (rule ring_holds_used [OF h])
  have sum: "unat (tail c) + unat (head c - tail c) + length (concat ys) = length (xs @ ys) * E"
  proof -
    have "unat (tail c) + unat (head c - tail c) + length (concat ys) = (?T - N + ?q + ?K) * E"
      unfolding t used src by (simp only: add_mult_distrib)
    then show ?thesis by simp
  qed
  have fit': "length (concat ys) \<le> unat (size c) \<or> circ_contents c \<noteq> []"
  proof (cases "length ys \<le> N")
    case False
    then have "0 < ?q * E" using fit E N by (cases xs) simp_all
    then show ?thesis using used by (metis length_circ_contents list.size(3) less_numeral_extra(3))
  qed (simp add: src sz)
  have len: "length (circ_contents c) + length (concat ys) < 2 ^ 32"
    using sum small by (simp only: length_circ_contents)
  have safe: "wrap_safe c (length (concat ys))" unfolding wrap_safe_def by (rule disjI2) (simp only: sum small)
  define d where "d = ?q + ?K - N"
  have de: "length (circ_contents c) + length (concat ys) - unat (size c) = d * E"
    unfolding length_circ_contents used src sz d_def by (simp add: algebra_simps)
  note o = overwrite_any [OF ok len safe fit', unfolded de]
  have dn: "?T - N + d = length (xs @ ys) - N" by (simp add: d_def)
  have "unat (tail c + fst (circbuf_overwrite c (concat ys))) = (?T - N) * E + d * E"
  proof (subst unat_add_no_wrap)
    have "(?T - N) * E + d * E = (length (xs @ ys) - N) * E" unfolding dn [symmetric] by (simp only: add_mult_distrib)
    also have "\<dots> \<le> length (xs @ ys) * E" by (intro mult_le_mono1) simp
    finally show "unat (tail c) + unat (fst (circbuf_overwrite c (concat ys))) < 2 ^ LENGTH(32)"
      using small o(1) t by simp
  qed (simp only: o(1) t)
  also have "\<dots> = (length (xs @ ys) - N) * E" unfolding dn [symmetric] by (simp only: add_mult_distrib)
  finally have tail: "unat (tail (snd (circbuf_overwrite c (concat ys)))) = (length (xs @ ys) - N) * E"
    using ok overwrite_tail [of c "concat ys"] by (simp add: circ_ok_def)
  have "drop (d * E) (circ_contents c @ concat ys) = drop (d * E) (concat (drop (?T - N) xs @ ys))"
    by (simp add: con)
  also have "\<dots> = concat (drop d (drop (?T - N) xs @ ys))"
    using xs ys by (intro drop_concat_uniform) (auto dest: in_set_dropD)
  also have "drop (?T - N) xs @ ys = drop (?T - N) (xs @ ys)" by simp
  also have "drop d (drop (?T - N) (xs @ ys)) = drop (length (xs @ ys) - N) (xs @ ys)"
    by (simp only: drop_drop dn [symmetric] add.commute)
  finally have "circ_contents (snd (circbuf_overwrite c (concat ys))) = concat (drop (length (xs @ ys) - N) (xs @ ys))"
    using o(4) by simp
  with o tail E sz xs ys small show ?thesis by (auto simp: ring_holds_def)
qed

lemma ring_holds_init:
  assumes "length mem = N * E" "0 < E" "0 < N" "N * E < 2 ^ 32"
  shows "circbuf_init None (of_nat (N * E)) (Some mem) c = (OK, snd (circbuf_init None (of_nat (N * E)) (Some mem) c))"
    "ring_holds E N [] (snd (circbuf_init None (of_nat (N * E)) (Some mem) c))"
proof -
  have n: "unat (of_nat (N * E) :: u32) = N * E" using assms(4) by (simp add: unat_of_nat del: of_nat_mult)
  moreover have "0 < N * E" using assms by simp
  ultimately have nz: "(of_nat (N * E) :: u32) \<noteq> 0" by (metis less_numeral_extra(3) unat_0)
  show "circbuf_init None (of_nat (N * E)) (Some mem) c = (OK, snd (circbuf_init None (of_nat (N * E)) (Some mem) c))"
    by (simp add: circbuf_init_def del: of_nat_mult)
  show "ring_holds E N [] (snd (circbuf_init None (of_nat (N * E)) (Some mem) c))"
    using nz n assms by (simp add: ring_holds_def circbuf_init_def circ_ok_def mem_of_def wrap_safe_def circ_contents_def
        del: of_nat_mult)
qed

section \<open>Comparing generations\<close>

lemma sint_diff:
  fixes a b :: u32
  assumes "unat a < 2 ^ 31" "unat b < 2 ^ 31"
  shows "sint (a - b) = int (unat a) - int (unat b)"
proof -
  define x y where "x = int (unat a)" and "y = int (unat b)"
  have r: "0 \<le> x" "x < 2 ^ 31" "0 \<le> y" "y < 2 ^ 31"
    using assms unfolding x_def y_def by (simp_all only: of_nat_0_le_iff) (metis of_nat_less_iff of_nat_numeral of_nat_power)+
  have "sint (a - b) = signed_take_bit 31 (x - y)"
    using sint_small [OF assms(1)] sint_small [OF assms(2)] by (simp add: sint_word_ariths x_def y_def)
  also have "\<dots> = x - y" using r by (intro signed_take_bit_int_eq_self) simp_all
  finally show ?thesis by (simp only: x_def y_def)
qed

section \<open>Topics and subscribers\<close>

text \<open>
  \<open>hist\<close> are all samples published so far, \<open>gens\<close> their generations.  The buffers are allocated with the
  first sample and have room for the newest \<^verbatim>\<open>nbuffer\<close> samples.
\<close>

definition gen_bytes :: "nat \<Rightarrow> u8 list" where
  "gen_bytes g = bytes_of_u32 (of_nat g)"

definition topic_ok :: "u8 list list \<Rightarrow> nat list \<Rightarrow> 'd sensor_upperhalf_s \<Rightarrow> bool" where
  "topic_ok hist gens up \<longleftrightarrow>
     (let E = unat (esize (state up)); N = unat (lower_nbuffer (lower up))
      in op_fetch (ops (lower up)) = None \<and> 0 < N \<and> 0 < E \<and> N * E < 2 ^ 32 \<and> N * 4 < 2 ^ 32 \<and>
         length gens = length hist \<and> sorted_wrt (<) (0 # gens) \<and> last (0 # gens) < 2 ^ 31 \<and>
         unat (generation (state up)) = last (0 # gens) \<and>
         (if hist = [] then buffer up = zero_circbuf \<and> timing up = zero_circbuf
          else ring_holds E N hist (buffer up) \<and> ring_holds 4 N (map gen_bytes gens) (timing up)))"

text \<open>
  A subscriber that takes every sample and has \<open>p\<close> samples behind it: its generation lies between the
  generation of the last of them and the generation of the next one.
\<close>

definition sub_ok :: "u8 list list \<Rightarrow> nat list \<Rightarrow> nat \<Rightarrow> sensor_user_s \<Rightarrow> bool" where
  "sub_ok hist gens p u \<longleftrightarrow>
     (let g = unat (u_generation (ustate u))
      in interval (ustate u) = UINT32_MAX \<and> unat (bufferpos u) = p \<and> p \<le> length hist \<and>
         (0 # gens) ! p \<le> g \<and> (p < length hist \<longrightarrow> g < gens ! p) \<and> g \<le> last (0 # gens))"

lemma sorted_nth_mono: "sorted_wrt (<) xs \<Longrightarrow> i \<le> j \<Longrightarrow> j < length xs \<Longrightarrow> xs ! i \<le> (xs ! j :: nat)"
  using sorted_wrt_nth_less [of "(<)" xs i j] by (cases "i = j") auto

lemma sorted_le_last: "sorted_wrt (<) xs \<Longrightarrow> i < length xs \<Longrightarrow> xs ! i \<le> (last xs :: nat)"
  using sorted_nth_mono [of xs i "length xs - 1"] last_conv_nth [of xs] by fastforce

lemma sub_updated:
  assumes t: "topic_ok hist gens up" and u: "sub_ok hist gens p u"
  shows "sensor_is_updated up u \<longleftrightarrow> p < length hist"
proof -
  let ?g = "unat (u_generation (ustate u))"
  have G: "sorted_wrt (<) (0 # gens)" "length gens = length hist" "unat (generation (state up)) = last (0 # gens)"
      "last (0 # gens) < 2 ^ 31"
    using t by (simp_all add: topic_ok_def Let_def)
  have sub: "?g \<le> last (0 # gens)" "(0 # gens) ! p \<le> ?g" "p < length hist \<Longrightarrow> ?g < gens ! p" "p \<le> length hist"
      "interval (ustate u) = UINT32_MAX"
    using u by (simp_all add: sub_ok_def Let_def)
  have "sint (generation (state up) - u_generation (ustate u)) = int (last (0 # gens)) - int ?g"
    unfolding G(3) [symmetric] using G(3,4) sub(1) by (intro sint_diff) simp_all
  then have "sint (generation (state up) - u_generation (ustate u)) \<le> 0 \<longleftrightarrow> last (0 # gens) \<le> ?g"
    by (simp only: diff_le_0_iff_le of_nat_le_iff)
  then have upd: "sensor_is_updated up u \<longleftrightarrow> ?g < last (0 # gens)"
    using sub(5) by (simp only: sensor_is_updated_def Let_def if_True not_le [symmetric]) simp
  show ?thesis
  proof (cases "p < length hist")
    case True
    then have "?g < (0 # gens) ! Suc p" using sub(3) by simp
    also have "\<dots> \<le> last (0 # gens)" using True G by (intro sorted_le_last) simp_all
    finally show ?thesis using True upd by simp
  next
    case False
    then have "p = length gens" using sub(4) G(2) by simp
    then have "last (0 # gens) \<le> ?g" using sub(2) by (metis last_conv_nth length_Cons diff_Suc_1 list.distinct(1))
    then show ?thesis using False upd by simp
  qed
qed

lemma topic_okD:
  assumes "topic_ok hist gens up"
  shows "length gens = length hist" "sorted_wrt (<) (0 # gens)" "last (0 # gens) < 2 ^ 31"
    "unat (generation (state up)) = last (0 # gens)" "0 < unat (esize (state up))" "0 < unat (lower_nbuffer (lower up))"
    "hist \<noteq> [] \<Longrightarrow> ring_holds (unat (esize (state up))) (unat (lower_nbuffer (lower up))) hist (buffer up)"
    "hist \<noteq> [] \<Longrightarrow> ring_holds 4 (unat (lower_nbuffer (lower up))) (map gen_bytes gens) (timing up)"
    "op_fetch (ops (lower up)) = None"
  using assms by (simp_all add: topic_ok_def Let_def)

lemma peek_gen:
  assumes t: "topic_ok hist gens up" and q: "length hist - unat (lower_nbuffer (lower up)) \<le> q" "q < length hist"
    and pos: "unat pos = q * 4"
  shows "peek_generation (timing up) pos old = of_nat (gens ! q)"
proof -
  have "hist \<noteq> []" using q(2) by auto
  then have h: "ring_holds 4 (unat (lower_nbuffer (lower up))) (map gen_bytes gens) (timing up)"
    and len: "length gens = length hist"
    using topic_okD [OF t] by simp_all
  have "circbuf_peekat (timing up) pos 4 = concat (take 1 (drop q (map gen_bytes gens)))"
    using q len pos by (intro ring_holds_peekat [OF h]) simp_all
  also have "take 1 (drop q (map gen_bytes gens)) = [gen_bytes (gens ! q)]"
    using q len by (simp add: drop_map take_map flip: Cons_nth_drop_Suc)
  finally show ?thesis by (simp add: peek_generation_def gen_bytes_def)
qed

lemma timing_counters:
  assumes "topic_ok hist gens up" "hist \<noteq> []"
  shows "unat (head (timing up) div 4) = length hist"
    "unat (tail (timing up)) = (length hist - unat (lower_nbuffer (lower up))) * 4"
    "unat (tail (timing up) div 4) = length hist - unat (lower_nbuffer (lower up))"
    "length hist * 4 < 2 ^ 32"
proof -
  note h = topic_okD(8) [OF assms] and len = topic_okD(1) [OF assms(1)]
  show "unat (head (timing up) div 4) = length hist"
    using ring_holds_head [OF h] len by (simp add: unat_div)
  show t: "unat (tail (timing up)) = (length hist - unat (lower_nbuffer (lower up))) * 4" "length hist * 4 < 2 ^ 32"
    using h len by (simp_all add: ring_holds_def)
  then show "unat (tail (timing up) div 4) = length hist - unat (lower_nbuffer (lower up))" by (simp add: unat_div)
qed

lemma gens_small:
  assumes "topic_ok hist gens up" "q < length hist"
  shows "gens ! q < 2 ^ 31" "unat (of_nat (gens ! q) :: u32) = gens ! q" "0 < gens ! q"
proof -
  have "(0 # gens) ! Suc q \<le> last (0 # gens)" "(0 # gens) ! 0 < (0 # gens) ! Suc q"
    using topic_okD(1,2) [OF assms(1)] assms(2) sorted_wrt_nth_less [of "(<)" "0 # gens" 0 "Suc q"]
    by (auto intro!: sorted_le_last)
  then show "gens ! q < 2 ^ 31" "0 < gens ! q" using topic_okD(3) [OF assms(1)] by simp_all
  then show "unat (of_nat (gens ! q) :: u32) = gens ! q" by (simp add: unat_of_nat)
qed

text \<open>A subscriber that fell behind goes on with the oldest sample in the buffer.\<close>

lemma sub_catch_up:
  assumes t: "topic_ok hist gens up" and u: "sub_ok hist gens p u" and ne: "hist \<noteq> []"
  shows "sub_ok hist gens (max p (length hist - unat (lower_nbuffer (lower up)))) (sensor_catch_up up u)"
proof -
  let ?T = "length hist" and ?o = "length hist - unat (lower_nbuffer (lower up))" and ?g = "unat (u_generation (ustate u))"
  note G = topic_okD(1-4) [OF t]
  have sub: "?g \<le> last (0 # gens)" "(0 # gens) ! p \<le> ?g" "p < ?T \<Longrightarrow> ?g < gens ! p" "p \<le> ?T"
      "interval (ustate u) = UINT32_MAX" "unat (bufferpos u) = p"
    using u by (simp_all add: sub_ok_def Let_def)
  have o: "?o < ?T" using topic_okD(6) [OF t] ne by (cases hist) simp_all
  have gne: "gens \<noteq> []" using G(1) ne by auto
  have old: "peek_generation (timing up) (tail (timing up)) 0 = of_nat (gens ! ?o)"
    using timing_counters(2) [OF t ne] o by (intro peek_gen [OF t]) simp_all
  have "sint (of_nat (gens ! ?o) - u_generation (ustate u)) = int (gens ! ?o) - int ?g"
    using gens_small [OF t o] sub(1) G(3) by (subst sint_diff) simp_all
  then have upd: "0 < sint (of_nat (gens ! ?o) - u_generation (ustate u)) \<longleftrightarrow> ?g < gens ! ?o"
    by (simp only: diff_gt_0_iff_gt of_nat_less_iff)
  have mono: "(0 # gens) ! i \<le> (0 # gens) ! j" if "i \<le> j" "j \<le> ?T" for i j
    using sorted_nth_mono [OF G(2) that(1)] that(2) G(1) by simp
  show ?thesis
  proof (cases "p \<le> ?o")
    case True
    then have lt: "?g < gens ! ?o" using sub(3) mono [of "Suc p" "Suc ?o"] o by simp
    have "(0 # gens) ! ?o < (0 # gens) ! Suc ?o"
      using sorted_wrt_nth_less [OF G(2), of ?o "Suc ?o"] o G(1) by simp
    moreover have "unat (of_nat (gens ! ?o) - 1 :: u32) = gens ! ?o - 1"
      using gens_small [OF t o] by (subst unat_pred) auto
    moreover have "gens ! ?o \<le> last (0 # gens)" using mono [of "Suc ?o" ?T] o G(1) sorted_le_last [OF G(2), of "Suc ?o"] by simp
    ultimately show ?thesis
      using True lt upd old sub(5) o gne timing_counters(3) [OF t ne]
      by (simp add: sub_ok_def sensor_catch_up_def Let_def set_generation_def max_absorb2) linarith
  next
    case False
    then have "gens ! ?o \<le> ?g" using mono [of "Suc ?o" p] sub(2,4) by simp
    then have "sensor_catch_up up u = u" using upd old by (simp add: sensor_catch_up_def Let_def)
    then show ?thesis using False u by (simp add: max_absorb1)
  qed
qed

text \<open>A subscriber that takes every sample gets the next ones that fit into its buffer.\<close>

lemma do_samples_stream:
  assumes t: "topic_ok hist gens up" and u: "sub_ok hist gens p u" and p: "p < length hist"
    and len: "unat (esize (state up)) \<le> unat len"
  defines "q \<equiv> max p (length hist - unat (lower_nbuffer (lower up)))"
  defines "n \<equiv> min (length hist - q) (unat len div unat (esize (state up)))"
  shows "fst (sensor_do_samples up u False len) = (of_nat (n * unat (esize (state up))), concat (take n (drop q hist)))"
    "sub_ok hist gens (q + n) (snd (sensor_do_samples up u False len))"
proof -
  let ?T = "length hist" and ?E = "unat (esize (state up))" and ?N = "unat (lower_nbuffer (lower up))"
  define v where "v = sensor_catch_up up u"
  have ne: "hist \<noteq> []" using p by auto
  have v: "sub_ok hist gens q v" using sub_catch_up [OF t u ne] by (simp add: q_def v_def)
  then have pos: "unat (bufferpos v) = q" "q \<le> ?T" and iv: "interval (ustate v) = UINT32_MAX"
    by (simp_all add: sub_ok_def Let_def)
  have E: "0 < ?E" and N: "0 < ?N" and h: "ring_holds ?E ?N hist (buffer up)" using topic_okD [OF t] ne by simp_all
  have q: "?T - ?N \<le> q" "q < ?T" using N p by (auto simp: q_def)
  have n: "0 < n" "q + n \<le> ?T" using E len q by (auto simp: n_def div_greater_zero_iff)
  have small: "?T * ?E < 2 ^ 32" "?T * 4 < 2 ^ 32" using h timing_counters(4) [OF t ne] by (simp_all add: ring_holds_def)
  define m where "m = head (timing up) div 4 - bufferpos v"
  have m: "unat m = ?T - q" using timing_counters(1) [OF t ne] pos by (simp add: m_def unat_sub_le)
  have prod: "unat (x * y) = i * j" if "unat x = i" "unat y = j" "i * j < 2 ^ 32" for x y :: u32 and i j
    using that by (simp add: unat_word_ariths)
  have le: "i * ?E < 2 ^ 32" "i * 4 < 2 ^ 32" if "i \<le> ?T" for i
    using that small mult_le_mono1 [OF that] by (meson le_less_trans)+
  define k where "k = (if len < m * esize (state up) then len div esize (state up) else m)"
  have "unat (m * esize (state up)) = (?T - q) * ?E" by (rule prod) (use m le in simp_all)
  then have k: "unat k = n"
    using E by (auto simp: k_def n_def m word_less_nat_alt unat_div min_def div_less_iff_less_mult less_eq_div_iff_mult_less_eq)
  have b: "circbuf_peekat (buffer up) (bufferpos v * esize (state up)) (k * esize (state up)) = concat (take n (drop q hist))"
    using q n le pos k by (intro ring_holds_peekat [OF h] prod) simp_all
  have "unat (bufferpos v + k) = q + n" using pos k n small by (subst unat_add_no_wrap) simp_all
  moreover from this n have "bufferpos v + k \<noteq> 0" by (metis add_is_0 less_numeral_extra(3) unat_0)
  ultimately have pos': "unat (bufferpos v + k) = q + n" "unat (bufferpos v + k - 1) = q + n - 1"
    by (simp_all add: unat_pred)
  have g: "peek_generation (timing up) ((bufferpos v + k - 1) * 4) old = of_nat (gens ! (q + n - 1))" for old
    using q n le pos' by (intro peek_gen [OF t] prod) simp_all
  have bp: "bufferpos (v\<lparr>bufferpos := bufferpos v + k\<rparr>) = bufferpos v + k" by simp
  have r: "sensor_do_samples up u False len = ((of_nat (length (concat (take n (drop q hist)))), concat (take n (drop q hist))),
      set_generation (of_nat (gens ! (q + n - 1))) (v\<lparr>bufferpos := bufferpos v + k\<rparr>))"
    unfolding sensor_do_samples_def Let_def v_def [symmetric] m_def [symmetric] k_def [symmetric] if_P [OF iv]
    by (simp only: if_False b g bp)
  have "length (concat (take n (drop q hist))) = n * ?E"
    using h n length_concat_uniform [of "take n (drop q hist)" ?E]
    by (auto simp: ring_holds_def dest: in_set_takeD in_set_dropD)
  then show "fst (sensor_do_samples up u False len) = (of_nat (n * ?E), concat (take n (drop q hist)))" by (simp add: r)
  have last: "q + n - 1 < ?T" using n by linarith
  have G: "(0 # gens) ! (q + n) = gens ! (q + n - 1)" using n by (simp add: nth_Cons')
  have "gens ! (q + n - 1) < gens ! (q + n)" if "q + n < ?T"
    using sorted_wrt_nth_less [OF topic_okD(2) [OF t], of "q + n" "Suc (q + n)"] that topic_okD(1) [OF t] G by simp
  moreover have "gens ! (q + n - 1) \<le> last (0 # gens)"
    using sorted_le_last [OF topic_okD(2) [OF t], of "q + n"] n topic_okD(1) [OF t] by (simp only: G) simp
  ultimately show "sub_ok hist gens (q + n) (snd (sensor_do_samples up u False len))"
    using iv pos'(1) n(2) gens_small(2) [OF t last]
    by (simp add: r sub_ok_def Let_def set_generation_def G del: last.simps)
qed

section \<open>Users\<close>

lemma user_of_upd: "uid \<in> fst ` set (userlist up) \<Longrightarrow> user_of uid (upd_user uid f up) = f (user_of uid up)"
proof -
  have "map_of (map (\<lambda>(k, u). (k, if k = uid then f u else u)) xs) uid = map_option f (map_of xs uid)" for xs :: "(nat \<times> sensor_user_s) list"
    by (induction xs) auto
  moreover assume "uid \<in> fst ` set (userlist up)"
  then have "map_of (userlist up) uid \<noteq> None" by (simp add: map_of_eq_None_iff)
  ultimately show ?thesis by (auto simp: user_of_def upd_user_def)
qed

lemma user_of_map:
  assumes "uid \<in> fst ` set (userlist up)"
  shows "user_of uid (up\<lparr>userlist := map (\<lambda>(k, u). (k, f u)) (userlist up)\<rparr>) = f (user_of uid up)"
proof -
  have "map_of (map (\<lambda>(k, u). (k, f u)) xs) uid = map_option f (map_of xs uid)" for xs :: "(nat \<times> sensor_user_s) list"
    by (induction xs) auto
  moreover have "map_of (userlist up) uid \<noteq> None" using assms by (simp add: map_of_eq_None_iff)
  ultimately show ?thesis by (auto simp: user_of_def)
qed

lemma upd_user_sel [simp]:
  "lower (upd_user uid f up) = lower up" "state (upd_user uid f up) = state up" "timing (upd_user uid f up) = timing up"
  "buffer (upd_user uid f up) = buffer up" "lock (upd_user uid f up) = lock up"
  "fst ` set (userlist (upd_user uid f up)) = fst ` set (userlist up)"
  by (simp_all add: upd_user_def image_image case_prod_beta)

lemma sensor_lock_sel [simp]:
  "lower (sensor_lock up) = lower up" "state (sensor_lock up) = state up" "timing (sensor_lock up) = timing up"
  "buffer (sensor_lock up) = buffer up" "userlist (sensor_lock up) = userlist up" "lock (sensor_lock up) = lock up + 1"
  "user_of uid (sensor_lock up) = user_of uid up"
  by (simp_all add: sensor_lock_def user_of_def)

lemma sensor_unlock_sel [simp]:
  "lower (sensor_unlock up) = lower up" "state (sensor_unlock up) = state up" "timing (sensor_unlock up) = timing up"
  "buffer (sensor_unlock up) = buffer up" "userlist (sensor_unlock up) = userlist up" "lock (sensor_unlock up) = lock up - 1"
  "user_of uid (sensor_unlock up) = user_of uid up"
  by (simp_all add: sensor_unlock_def user_of_def)

lemma topic_ok_cong:
  assumes "lower up' = lower up" "state up' = state up" "timing up' = timing up" "buffer up' = buffer up"
  shows "topic_ok hist gens up' \<longleftrightarrow> topic_ok hist gens up"
  using assms by (simp add: topic_ok_def)

lemma pollnotify_one_keeps [simp]:
  "ustate (sensor_pollnotify_one e r u) = ustate u" "bufferpos (sensor_pollnotify_one e r u) = bufferpos u"
  "buffersem (sensor_pollnotify_one e r u) = buffersem u" "role (sensor_pollnotify_one e r u) = role u"
  by (simp_all add: sensor_pollnotify_one_def Let_def)

lemma wake_user_keeps [simp]: "ustate (wake_user u) = ustate u" "bufferpos (wake_user u) = bufferpos u"
  by (simp_all add: wake_user_def)

lemma sub_ok_cong: "ustate u' = ustate u \<Longrightarrow> bufferpos u' = bufferpos u \<Longrightarrow> sub_ok hist gens p u' \<longleftrightarrow> sub_ok hist gens p u"
  by (simp add: sub_ok_def)

section \<open>Reading\<close>

lemma topic_ok_lock [simp]: "topic_ok hist gens (sensor_lock up) \<longleftrightarrow> topic_ok hist gens up"
  by (rule topic_ok_cong) simp_all

lemma topic_has_data:
  assumes "topic_ok hist gens up" "hist \<noteq> []"
  shows "\<not> circbuf_is_empty (buffer up)"
proof -
  have "unat (head (buffer up) - tail (buffer up)) \<noteq> 0"
    using ring_holds_used [OF topic_okD(7) [OF assms]] topic_okD(5,6) [OF assms(1)] assms(2) by (cases hist) simp_all
  then show ?thesis by (auto simp: circbuf_is_empty_def circbuf_used_def)
qed

text \<open>A read when there is something new takes samples.\<close>

lemma sensor_read_updated:
  assumes "topic_ok hist gens up" "hist \<noteq> []" "sensor_is_updated (sensor_lock up) (user_of uid up)" "len \<noteq> 0"
  shows "sensor_read flags uid False len up =
    (Some (Inr (fst (sensor_do_samples (sensor_lock up) (user_of uid up) False len))),
     sensor_unlock (upd_user uid (\<lambda>_. snd (sensor_do_samples (sensor_lock up) (user_of uid up) False len)) (sensor_lock up)))"
  using assms(3,4) topic_has_data [OF assms(1,2)] topic_okD(9) [OF assms(1)]
  by (simp add: sensor_read_def sensor_read_buffered_def Let_def case_prod_beta)

text \<open>A read by a subscriber with \<open>p\<close> samples behind it.\<close>

lemma sensor_read_stream:
  fixes flags :: oflags
  assumes t: "topic_ok hist gens up" and mem: "uid \<in> fst ` set (userlist up)" and u: "sub_ok hist gens p (user_of uid up)"
    and p: "p < length hist" and len: "unat (esize (state up)) \<le> unat len"
  defines "q \<equiv> max p (length hist - unat (lower_nbuffer (lower up)))"
  defines "n \<equiv> min (length hist - q) (unat len div unat (esize (state up)))"
  defines "up' \<equiv> snd (sensor_read flags uid False len up)"
  shows "fst (sensor_read flags uid False len up) =
      Some (Inr (of_nat (n * unat (esize (state up))), concat (take n (drop q hist))))"
    "topic_ok hist gens up'" "sub_ok hist gens (q + n) (user_of uid up')" "lower up' = lower up" "state up' = state up"
    "fst ` set (userlist up') = fst ` set (userlist up)" "lock up' = lock up"
proof -
  have ne: "hist \<noteq> []" using p by auto
  have E: "0 < unat (esize (state up))" using topic_okD [OF t] by simp
  then have len0: "len \<noteq> 0" using len by auto
  have t1: "topic_ok hist gens (sensor_lock up)" using t by simp
  have upd: "sensor_is_updated (sensor_lock up) (user_of uid up)" using sub_updated [OF t1 u] p by simp
  note d = do_samples_stream [OF t1 u p, of len, simplified, OF len, folded q_def, folded n_def]
  let ?up1 = "upd_user uid (\<lambda>_. snd (sensor_do_samples (sensor_lock up) (user_of uid up) False len)) (sensor_lock up)"
  have r: "sensor_read flags uid False len up =
      (Some (Inr (fst (sensor_do_samples (sensor_lock up) (user_of uid up) False len))), sensor_unlock ?up1)"
    by (rule sensor_read_updated [OF t ne upd len0])
  show "fst (sensor_read flags uid False len up) =
      Some (Inr (of_nat (n * unat (esize (state up))), concat (take n (drop q hist))))"
    by (simp add: r d)
  show "lower up' = lower up" "state up' = state up" "fst ` set (userlist up') = fst ` set (userlist up)" "lock up' = lock up"
    by (simp_all add: up'_def r)
  show "topic_ok hist gens up'" using t by (subst topic_ok_cong) (simp_all add: up'_def r)
  show "sub_ok hist gens (q + n) (user_of uid up')"
    using d(2) mem by (simp add: up'_def r user_of_upd)
qed

section \<open>Publishing\<close>

text \<open>The generations of the next \<open>k\<close> samples.\<close>

fun next_gens :: "nat \<Rightarrow> nat \<Rightarrow> nat \<Rightarrow> nat list" where
  "next_gens s g 0 = []"
| "next_gens s g (Suc k) = (g + s) # next_gens s (g + s) k"

lemma length_next_gens [simp]: "length (next_gens s g k) = k"
  by (induction k arbitrary: g) simp_all

lemma last_next_gens: "last (g # next_gens s g k) = g + k * s"
  by (induction k arbitrary: g) simp_all

lemma next_gens_greater: "0 < s \<Longrightarrow> \<forall>x \<in> set (next_gens s g k). g < x"
  by (induction k arbitrary: g) force+

lemma sorted_next_gens: "0 < s \<Longrightarrow> sorted_wrt (<) (next_gens s g k)"
  by (induction k arbitrary: g) (simp_all add: next_gens_greater)

lemma last_append_gens: "last (0 # gens @ xs) = last (last (0 # gens) # xs)"
  by (cases xs) simp_all

lemma sorted_append_gens:
  assumes "sorted_wrt (<) (0 # gens)" "0 < s"
  shows "sorted_wrt (<) (0 # gens @ next_gens s (last (0 # gens)) k)"
proof -
  have "x < y" if x: "x \<in> set (0 # gens)" and y: "y \<in> set (next_gens s (last (0 # gens)) k)" for x y
  proof -
    obtain i where i: "i < length (0 # gens)" "(0 # gens) ! i = x" using x unfolding in_set_conv_nth by blast
    then have "x \<le> last (0 # gens)" using sorted_le_last [OF assms(1) i(1)] by (simp only: i(2))
    also have "last (0 # gens) < y" using next_gens_greater [OF assms(2)] y by blast
    finally show ?thesis .
  qed
  then have "\<forall>x \<in> set (0 # gens). \<forall>y \<in> set (next_gens s (last (0 # gens)) k). x < y" by (intro ballI)
  then have "sorted_wrt (<) ((0 # gens) @ next_gens s (last (0 # gens)) k)"
    using assms(1) sorted_next_gens [OF assms(2)] by (simp only: sorted_wrt_append simp_thms)
  then show ?thesis by (simp only: append_Cons)
qed

lemma generate_timing_sel [simp]:
  "lower (sensor_generate_timing k up) = lower up" "buffer (sensor_generate_timing k up) = buffer up"
  "userlist (sensor_generate_timing k up) = userlist up" "lock (sensor_generate_timing k up) = lock up"
  "esize (state (sensor_generate_timing k up)) = esize (state up)"
  "min_interval (state (sensor_generate_timing k up)) = min_interval (state up)"
  by (induction k arbitrary: up) (simp_all add: Let_def)

lemma generate_timing_holds:
  assumes "ring_holds 4 N (map gen_bytes gens) (timing up)" "0 < N" "unat (generation (state up)) = last (0 # gens)"
    "last (0 # gens) + k * unat (generation_step up) < 2 ^ 31" "(length gens + k) * 4 < 2 ^ 32"
  defines "gens' \<equiv> gens @ next_gens (unat (generation_step up)) (last (0 # gens)) k"
  shows "ring_holds 4 N (map gen_bytes gens') (timing (sensor_generate_timing k up)) \<and>
    unat (generation (state (sensor_generate_timing k up))) = last (0 # gens')"
  unfolding gens'_def using assms(1-5)
proof (induction k arbitrary: gens up)
  case (Suc k)
  let ?s = "unat (generation_step up)" and ?g = "last (0 # gens)"
  let ?w = "generation (state up) + generation_step up"
  have g: "unat ?w = ?g + ?s" using Suc.prems(3,4) by (subst unat_add_no_wrap) simp_all
  then have b: "bytes_of_u32 ?w = gen_bytes (?g + ?s)" by (metis gen_bytes_def of_nat_unat ucast_id)
  let ?up1 = "up\<lparr>state := (state up)\<lparr>generation := ?w\<rparr>, timing := snd (circbuf_overwrite (timing up) (bytes_of_u32 ?w))\<rparr>"
  have s1: "generation_step ?up1 = generation_step up" by (simp add: generation_step_def)
  have "ring_holds 4 N (map gen_bytes gens @ [gen_bytes (?g + ?s)]) (snd (circbuf_overwrite (timing up) (concat [gen_bytes (?g + ?s)])))"
    using Suc.prems(2,5) by (intro ring_holds_overwrite [OF Suc.prems(1)]) (simp_all add: gen_bytes_def)
  then have h: "ring_holds 4 N (map gen_bytes (gens @ [?g + ?s])) (timing ?up1)" by (simp add: b)
  have "ring_holds 4 N (map gen_bytes ((gens @ [?g + ?s]) @ next_gens ?s (last (0 # gens @ [?g + ?s])) k))
      (timing (sensor_generate_timing k ?up1)) \<and>
    unat (generation (state (sensor_generate_timing k ?up1))) =
      last (0 # (gens @ [?g + ?s]) @ next_gens ?s (last (0 # gens @ [?g + ?s])) k)"
    using Suc.IH [OF h Suc.prems(2)] Suc.prems(4,5) g unfolding s1 by simp
  then show ?case by (simp add: Let_def)
qed simp

lemma init_buffers_holds:
  assumes t: "topic_ok hist gens up"
    and mem: "hist = [] \<Longrightarrow> length mb = unat (lower_nbuffer (lower up)) * unat (esize (state up)) \<and>
      length mt = unat (lower_nbuffer (lower up)) * 4"
  shows "\<exists>b m. sensor_init_buffers (Some mb) (Some mt) up = (OK, up\<lparr>buffer := b, timing := m\<rparr>) \<and>
    ring_holds (unat (esize (state up))) (unat (lower_nbuffer (lower up))) hist b \<and>
    ring_holds 4 (unat (lower_nbuffer (lower up))) (map gen_bytes gens) m"
proof (cases "hist = []")
  case True
  let ?E = "unat (esize (state up))" and ?N = "unat (lower_nbuffer (lower up))"
  have z: "buffer up = zero_circbuf" "timing up = zero_circbuf" "gens = []" and b: "?N * ?E < 2 ^ 32" "?N * 4 < 2 ^ 32" "0 < ?N" "0 < ?E"
    using t True by (simp_all add: topic_ok_def Let_def)
  have e: "lower_nbuffer (lower up) * esize (state up) = of_nat (?N * ?E)" "lower_nbuffer (lower up) * 4 = of_nat (?N * 4)"
    by simp_all
  let ?b = "circbuf_init None (of_nat (?N * ?E)) (Some mb) (buffer up)" and ?t = "circbuf_init None (of_nat (?N * 4)) (Some mt) (timing up)"
  have i: "?b = (OK, snd ?b)" "?t = (OK, snd ?t)" "ring_holds ?E ?N [] (snd ?b)" "ring_holds 4 ?N [] (snd ?t)"
    by (rule ring_holds_init; use mem [OF True] b in simp)+
  obtain b m where bm: "?b = (OK, b)" "?t = (OK, m)" using i(1,2) by blast
  have "\<not> circbuf_is_init (buffer up)" by (simp add: z circbuf_is_init_def zero_circbuf_def)
  then have "sensor_init_buffers (Some mb) (Some mt) up = (OK, up\<lparr>buffer := b, timing := m\<rparr>)"
    unfolding sensor_init_buffers_def e bm by simp
  moreover have "ring_holds ?E ?N [] b" "ring_holds 4 ?N [] m" using i(3,4) unfolding bm by simp_all
  ultimately show ?thesis using True z(3) by auto
next
  case False
  then have h: "ring_holds (unat (esize (state up))) (unat (lower_nbuffer (lower up))) hist (buffer up)"
    "ring_holds 4 (unat (lower_nbuffer (lower up))) (map gen_bytes gens) (timing up)"
    using topic_okD [OF t] by simp_all
  then have "circbuf_is_init (buffer up)" by (simp add: ring_holds_def circ_ok_def circbuf_is_init_def)
  then have "sensor_init_buffers (Some mb) (Some mt) up = (OK, up\<lparr>buffer := buffer up, timing := timing up\<rparr>)"
    by (simp add: sensor_init_buffers_def)
  then show ?thesis using h by (intro exI [of _ "buffer up"] exI [of _ "timing up"]) simp
qed

text \<open>What the publisher must provide for the counters of the topic not to wrap around.\<close>

definition push_ok :: "u8 list list \<Rightarrow> nat list \<Rightarrow> u8 list list \<Rightarrow> 'd sensor_upperhalf_s \<Rightarrow> bool" where
  "push_ok hist gens ys up \<longleftrightarrow>
     (let E = unat (esize (state up)); N = unat (lower_nbuffer (lower up)); s = unat (generation_step up)
      in (\<forall>y \<in> set ys. length y = E) \<and> ys \<noteq> [] \<and> (length ys \<le> N \<or> hist \<noteq> []) \<and>
         length (hist @ ys) * E < 2 ^ 32 \<and> length (hist @ ys) * 4 < 2 ^ 32 \<and> 0 < s \<and> last (0 # gens) + length ys * s < 2 ^ 31)"

lemma sub_ok_extend:
  assumes u: "sub_ok hist gens p u" and len: "length gens = length hist" and srt: "sorted_wrt (<) (0 # gens @ gens')"
    and len': "length gens' = length ys"
  shows "sub_ok (hist @ ys) (gens @ gens') p u"
proof -
  let ?g = "unat (u_generation (ustate u))"
  have sub: "?g \<le> last (0 # gens)" "(0 # gens) ! p \<le> ?g" "p < length hist \<Longrightarrow> ?g < gens ! p" "p \<le> length hist"
      "interval (ustate u) = UINT32_MAX" "unat (bufferpos u) = p"
    using u by (simp_all add: sub_ok_def Let_def)
  have "(0 # gens @ gens') ! p \<le> ?g" using sub(2,4) len by (metis append_Cons length_Cons less_Suc_eq_le nth_append)
  moreover have "?g < (gens @ gens') ! p" if "p < length (hist @ ys)"
  proof (cases "p < length hist")
    case False
    then have p: "p = length gens" using sub(4) len by simp
    have "last (0 # gens) = (0 # gens @ gens') ! p" unfolding p by (cases gens rule: rev_cases) (simp_all add: nth_append)
    also have "\<dots> < (0 # gens @ gens') ! Suc p"
      using that len len' by (intro sorted_wrt_nth_less [OF srt]) simp_all
    finally show ?thesis using sub(1) by simp
  qed (use sub(3) len in \<open>simp add: nth_append\<close>)
  moreover have "last (0 # gens) \<le> last (0 # gens @ gens')"
  proof -
    have "last (0 # gens) = (0 # gens @ gens') ! length gens" by (cases gens rule: rev_cases) (simp_all add: nth_append)
    also have "\<dots> \<le> last (0 # gens @ gens')" by (rule sorted_le_last [OF srt]) simp
    finally show ?thesis .
  qed
  ultimately show ?thesis using sub by (simp add: sub_ok_def Let_def del: last.simps)
qed

lemma push_stream:
  assumes t: "topic_ok hist gens up" and ok: "push_ok hist gens ys up"
    and mem: "hist = [] \<Longrightarrow> length mb = unat (lower_nbuffer (lower up)) * unat (esize (state up)) \<and>
      length mt = unat (lower_nbuffer (lower up)) * 4"
  defines "gens' \<equiv> gens @ next_gens (unat (generation_step up)) (last (0 # gens)) (length ys)"
  defines "up' \<equiv> snd (sensor_push_event (Some mb) (Some mt) (concat ys) up)"
  shows "fst (sensor_push_event (Some mb) (Some mt) (concat ys) up) = Inr (of_nat (length (concat ys)))"
    "topic_ok (hist @ ys) gens' up'" "lower up' = lower up" "esize (state up') = esize (state up)"
    "min_interval (state up') = min_interval (state up)" "lock up' = lock up"
    "fst ` set (userlist up') = fst ` set (userlist up)"
    "uid \<in> fst ` set (userlist up) \<Longrightarrow> sub_ok hist gens p (user_of uid up) \<Longrightarrow> sub_ok (hist @ ys) gens' p (user_of uid up')"
proof -
  let ?E = "unat (esize (state up))" and ?N = "unat (lower_nbuffer (lower up))" and ?K = "length ys"
  have P: "\<forall>y \<in> set ys. length y = ?E" "ys \<noteq> []" "?K \<le> ?N \<or> hist \<noteq> []" "length (hist @ ys) * ?E < 2 ^ 32"
    "length (hist @ ys) * 4 < 2 ^ 32" "0 < unat (generation_step up)" "last (0 # gens) + ?K * unat (generation_step up) < 2 ^ 31"
    using ok by (simp_all add: push_ok_def Let_def)
  note T = topic_okD [OF t]
  have len: "length (concat ys) = ?K * ?E" using P(1) by (rule length_concat_uniform)
  have small: "?K * ?E < 2 ^ LENGTH(32)" using P(4) by (simp add: add_mult_distrib)
  have bytes: "unat (of_nat (length (concat ys)) :: u32) = ?K * ?E" unfolding len using small by (simp add: unat_of_nat del: of_nat_mult)
  then have nz: "of_nat (length (concat ys)) \<noteq> (0 :: u32)" using P(2) T(5) by auto
  have env: "unat (of_nat (length (concat ys)) div esize (state up)) = ?K" using bytes T(5) by (simp add: unat_div)
  have whole: "of_nat (length (concat ys)) = of_nat (length (concat ys)) div esize (state up) * esize (state up)"
    using env bytes small by (intro word_unat_eq_iff [THEN iffD2]) (simp add: unat_word_ariths)
  have t1: "topic_ok hist gens (sensor_lock up)" using t by simp
  obtain b m where i: "sensor_init_buffers (Some mb) (Some mt) (sensor_lock up) = (OK, (sensor_lock up)\<lparr>buffer := b, timing := m\<rparr>)"
    and h: "ring_holds ?E ?N hist b" "ring_holds 4 ?N (map gen_bytes gens) m"
    using init_buffers_holds [OF t1, of mb mt] mem by auto
  define up1 where "up1 = (sensor_lock up)\<lparr>timing := m, buffer := snd (circbuf_overwrite b (concat ys))\<rparr>"
  define up2 where "up2 = sensor_generate_timing ?K up1"
  have sel: "lower up1 = lower up" "state up1 = state up" "timing up1 = m" "buffer up1 = snd (circbuf_overwrite b (concat ys))"
    "userlist up1 = userlist up" "lock up1 = lock up + 1" by (simp_all add: up1_def)
  have step: "generation_step up1 = generation_step up" by (simp add: generation_step_def sel)
  have r: "sensor_push_event (Some mb) (Some mt) (concat ys) up = (Inr (of_nat (length (concat ys))),
      sensor_unlock (up2\<lparr>userlist := map (\<lambda>(k, u). (k, if sensor_is_updated up2 u then wake_user u else u)) (userlist up2)\<rparr>))"
    using nz whole [symmetric] env i by (simp add: sensor_push_event_def Let_def up2_def up1_def)
  then show "fst (sensor_push_event (Some mb) (Some mt) (concat ys) up) = Inr (of_nat (length (concat ys)))" by simp
  show "lower up' = lower up" "esize (state up') = esize (state up)" "lock up' = lock up"
    "min_interval (state up') = min_interval (state up)" "fst ` set (userlist up') = fst ` set (userlist up)"
    by (simp_all add: up'_def r up2_def sel image_image case_prod_beta)
  have buf: "ring_holds ?E ?N (hist @ ys) (buffer up')"
    using ring_holds_overwrite [OF h(1) P(1,3,4)] by (simp add: up'_def r up2_def sel)
  have tim: "ring_holds 4 ?N (map gen_bytes gens') (timing up')" "unat (generation (state up')) = last (0 # gens')"
    using generate_timing_holds [of ?N gens up1 ?K] h(2) T(1,4,6) P(5,7)
    by (simp_all add: up'_def r up2_def gens'_def step sel)
  have srt: "sorted_wrt (<) (0 # gens')" unfolding gens'_def by (rule sorted_append_gens [OF T(2) P(6)])
  have "last (0 # gens') < 2 ^ 31" using P(7) unfolding gens'_def last_append_gens last_next_gens .
  with buf tim srt show "topic_ok (hist @ ys) gens' up'"
    using t P(2) T(1) by (simp add: topic_ok_def Let_def up'_def r up2_def sel) (simp add: gens'_def)
  assume "uid \<in> fst ` set (userlist up)" and u: "sub_ok hist gens p (user_of uid up)"
  then have "user_of uid up' = (\<lambda>u. if sensor_is_updated up2 u then wake_user u else u) (user_of uid up2)"
    unfolding up'_def r snd_conv sensor_unlock_sel by (intro user_of_map) (simp add: up2_def sel)
  moreover have "user_of uid up2 = user_of uid up" by (simp add: user_of_def up2_def sel)
  ultimately have "sub_ok hist gens p (user_of uid up')" using u by (subst sub_ok_cong [of _ "user_of uid up"]) simp_all
  then show "sub_ok (hist @ ys) gens' p (user_of uid up')"
    using srt unfolding gens'_def by (intro sub_ok_extend) (simp_all add: T(1))
qed

section \<open>A publisher and a subscriber\<close>

text \<open>
  Any sequence of publications and reads.  The memory for the buffers is allocated with the right size.
  A read returns the bytes the subscriber gets, none for an error.
\<close>

datatype topic_op = Publish "u8 list list" | Take u32

fun topic_step :: "oflags \<Rightarrow> nat \<Rightarrow> topic_op \<Rightarrow> 'd sensor_upperhalf_s \<Rightarrow> u8 list \<times> 'd sensor_upperhalf_s" where
  "topic_step flags uid (Publish ys) up =
     ([], snd (sensor_push_event (Some (replicate (unat (lower_nbuffer (lower up)) * unat (esize (state up))) 0))
       (Some (replicate (unat (lower_nbuffer (lower up)) * 4) 0)) (concat ys) up))"
| "topic_step flags uid (Take len) up =
     (case sensor_read flags uid False len up of
        (Some (Inr (n, bs)), up') \<Rightarrow> (bs, up')
      | (_, up') \<Rightarrow> ([], up'))"

fun topic_run :: "oflags \<Rightarrow> nat \<Rightarrow> topic_op list \<Rightarrow> 'd sensor_upperhalf_s \<Rightarrow> u8 list list \<times> 'd sensor_upperhalf_s" where
  "topic_run flags uid [] up = ([], up)"
| "topic_run flags uid (a # as) up =
     (let (bs, up1) = topic_step flags uid a up; (rest, up2) = topic_run flags uid as up1 in (bs # rest, up2))"

text \<open>
  What they mean: a list of all samples and the position of the subscriber, which continues with the
  oldest sample of the newest \<open>N\<close> if it fell further behind.
\<close>

fun stream_step :: "nat \<Rightarrow> nat \<Rightarrow> topic_op \<Rightarrow> u8 list list \<times> nat \<Rightarrow> u8 list \<times> u8 list list \<times> nat" where
  "stream_step E N (Publish ys) (hist, p) = ([], hist @ ys, p)"
| "stream_step E N (Take len) (hist, p) =
     (let q = max p (length hist - N); n = min (length hist - q) (unat len div E)
      in (concat (take n (drop q hist)), hist, q + n))"

fun stream_run :: "nat \<Rightarrow> nat \<Rightarrow> topic_op list \<Rightarrow> u8 list list \<times> nat \<Rightarrow> u8 list list \<times> u8 list list \<times> nat" where
  "stream_run E N [] a = ([], a)"
| "stream_run E N (x # xs) a =
     (let (bs, a1) = stream_step E N x a; (rest, a2) = stream_run E N xs a1 in (bs # rest, a2))"

text \<open>
  The samples have the size of the topic, a read has room for one of them, the first publication fits
  into the buffer, and the counters do not wrap around.
\<close>

fun topic_ops_ok :: "nat \<Rightarrow> nat \<Rightarrow> nat \<Rightarrow> topic_op list \<Rightarrow> nat \<Rightarrow> nat \<Rightarrow> bool" where
  "topic_ops_ok E N s [] k g \<longleftrightarrow> True"
| "topic_ops_ok E N s (Publish ys # as) k g \<longleftrightarrow>
     (\<forall>y \<in> set ys. length y = E) \<and> ys \<noteq> [] \<and> (length ys \<le> N \<or> 0 < k) \<and> (k + length ys) * E < 2 ^ 32 \<and>
     (k + length ys) * 4 < 2 ^ 32 \<and> g + length ys * s < 2 ^ 31 \<and> topic_ops_ok E N s as (k + length ys) (g + length ys * s)"
| "topic_ops_ok E N s (Take len # as) k g \<longleftrightarrow> E \<le> unat len \<and> topic_ops_ok E N s as k g"

lemma read_uptodate:
  assumes t: "topic_ok hist gens up" and u: "sub_ok hist gens (length hist) (user_of uid up)" and np: "\<not> persist (lower up)"
    and len: "len \<noteq> 0"
  shows "sensor_read flags uid False len up = (Some (Inl ENODATA), up)"
proof -
  have t1: "topic_ok hist gens (sensor_lock up)" using t by simp
  have "\<not> sensor_is_updated (sensor_lock up) (user_of uid up)" using sub_updated [OF t1 u] by simp
  moreover have "sensor_unlock (sensor_lock up) = up" by (simp add: sensor_lock_def sensor_unlock_def)
  ultimately show ?thesis
    using np len topic_okD(9) [OF t] by (simp add: sensor_read_def sensor_read_buffered_def Let_def)
qed

text \<open>The invariant of the run: topic and subscriber are related to the list of samples and the position.\<close>

definition stream_inv :: "nat \<Rightarrow> nat \<Rightarrow> nat \<Rightarrow> nat \<Rightarrow> u8 list list \<Rightarrow> nat list \<Rightarrow> nat \<Rightarrow> 'd sensor_upperhalf_s \<Rightarrow> bool" where
  "stream_inv E N s uid hist gens p up \<longleftrightarrow>
     topic_ok hist gens up \<and> uid \<in> fst ` set (userlist up) \<and> sub_ok hist gens p (user_of uid up) \<and> \<not> persist (lower up) \<and>
     unat (esize (state up)) = E \<and> unat (lower_nbuffer (lower up)) = N \<and> unat (generation_step up) = s \<and> 0 < s"

lemma stream_publish:
  assumes inv: "stream_inv E N s uid hist gens p up" and ok: "topic_ops_ok E N s (Publish ys # as) (length hist) (last (0 # gens))"
  defines "gens' \<equiv> gens @ next_gens s (last (0 # gens)) (length ys)"
  shows "stream_inv E N s uid (hist @ ys) gens' p (snd (topic_step flags uid (Publish ys) up))"
    "topic_ops_ok E N s as (length (hist @ ys)) (last (0 # gens'))"
proof -
  have i: "topic_ok hist gens up" "uid \<in> fst ` set (userlist up)" "sub_ok hist gens p (user_of uid up)" "\<not> persist (lower up)"
    "unat (esize (state up)) = E" "unat (lower_nbuffer (lower up)) = N" "unat (generation_step up) = s" "0 < s"
    using inv by (simp_all add: stream_inv_def)
  have "push_ok hist gens ys up" using ok i by (auto simp: push_ok_def Let_def)
  note P = push_stream [OF i(1) this, of "replicate (N * E) 0" "replicate (N * 4) 0", unfolded i(5-7), folded gens'_def, simplified]
  let ?up' = "snd (topic_step flags uid (Publish ys) up)"
  have up': "?up' = snd (sensor_push_event (Some (replicate (N * E) 0)) (Some (replicate (N * 4) 0)) (concat ys) up)"
    by (simp add: i)
  have "generation_step ?up' = generation_step up" unfolding up' by (simp add: generation_step_def P)
  then show "stream_inv E N s uid (hist @ ys) gens' p ?up'"
    using P i unfolding stream_inv_def up' by simp
  have "last (0 # gens') = last (0 # gens) + length ys * s" unfolding gens'_def last_append_gens last_next_gens ..
  then show "topic_ops_ok E N s as (length (hist @ ys)) (last (0 # gens'))" using ok by simp
qed

lemma stream_take:
  assumes inv: "stream_inv E N s uid hist gens p up" and len: "E \<le> unat len"
  defines "q \<equiv> max p (length hist - N)"
  defines "n \<equiv> min (length hist - q) (unat len div E)"
  shows "fst (topic_step flags uid (Take len) up) = concat (take n (drop q hist))"
    "stream_inv E N s uid hist gens (q + n) (snd (topic_step flags uid (Take len) up))"
proof -
  have i: "topic_ok hist gens up" "uid \<in> fst ` set (userlist up)" "sub_ok hist gens p (user_of uid up)" "\<not> persist (lower up)"
    "unat (esize (state up)) = E" "unat (lower_nbuffer (lower up)) = N" "unat (generation_step up) = s" "0 < s"
    using inv by (simp_all add: stream_inv_def)
  have p: "p \<le> length hist" using i(3) by (simp add: sub_ok_def Let_def)
  have "fst (topic_step flags uid (Take len) up) = concat (take n (drop q hist)) \<and>
    stream_inv E N s uid hist gens (q + n) (snd (topic_step flags uid (Take len) up))"
  proof (cases "p < length hist")
    case True
    note R = sensor_read_stream [OF i(1-3) True, of len flags, unfolded i(5,6), folded q_def, folded n_def, OF len]
    obtain up' where r: "sensor_read flags uid False len up = (Some (Inr (of_nat (n * E), concat (take n (drop q hist)))), up')"
      using R(1) by (cases "sensor_read flags uid False len up") simp
    have "generation_step up' = generation_step up" using R(5) r by (simp add: generation_step_def)
    then show ?thesis using R i by (simp add: r stream_inv_def)
  next
    case False
    then have e: "p = length hist" using p by simp
    have "len \<noteq> 0" using len topic_okD(5) [OF i(1)] i(5) by auto
    from read_uptodate [OF i(1) i(3) [unfolded e] i(4) this, of flags] show ?thesis
      using inv by (simp add: e q_def n_def)
  qed
  then show "fst (topic_step flags uid (Take len) up) = concat (take n (drop q hist))"
    "stream_inv E N s uid hist gens (q + n) (snd (topic_step flags uid (Take len) up))" by blast+
qed

lemma topic_run_refines:
  assumes "stream_inv E N s uid hist gens p up" "topic_ops_ok E N s as (length hist) (last (0 # gens))"
  shows "fst (topic_run flags uid as up) = fst (stream_run E N as (hist, p))"
  using assms
proof (induction as arbitrary: hist gens p up)
  case (Cons a as)
  show ?case
  proof (cases a)
    case (Publish ys)
    note s = stream_publish(1) [OF Cons.prems(1) Cons.prems(2) [unfolded Publish], of flags]
      stream_publish(2) [OF Cons.prems(1) Cons.prems(2) [unfolded Publish]]
    from Cons.IH [OF s] show ?thesis by (simp add: Publish case_prod_beta)
  next
    case (Take len)
    have "E \<le> unat len" and ok: "topic_ops_ok E N s as (length hist) (last (0 # gens))" using Cons.prems(2) Take by simp_all
    note t = stream_take [OF Cons.prems(1) this(1), of flags]
    from Cons.IH [OF t(2) ok] t(1) show ?thesis
      by (simp add: Take case_prod_beta Let_def del: topic_step.simps)
  qed
qed simp

text \<open>A subscriber that never falls more than the buffer behind gets every sample.\<close>

fun keeps_up :: "nat \<Rightarrow> nat \<Rightarrow> topic_op list \<Rightarrow> u8 list list \<times> nat \<Rightarrow> bool" where
  "keeps_up E N [] a \<longleftrightarrow> True"
| "keeps_up E N (x # xs) (hist, p) \<longleftrightarrow> length hist \<le> p + N \<and> keeps_up E N xs (snd (stream_step E N x (hist, p)))"

lemma stream_lossless:
  assumes "keeps_up E N as (hist, p)" "p \<le> length hist" "stream_run E N as (hist, p) = (outs, hist', p')"
  shows "p \<le> p' \<and> p' \<le> length hist' \<and> (\<exists>ys. hist' = hist @ ys) \<and> concat outs = concat (drop p (take p' hist'))"
  using assms
proof (induction as arbitrary: hist p outs)
  case (Cons a as)
  show ?case
  proof (cases a)
    case (Publish ys)
    then obtain rest where "stream_run E N as (hist @ ys, p) = (rest, hist', p')" "outs = [] # rest"
      using Cons.prems(3) by (cases "stream_run E N as (hist @ ys, p)") auto
    then show ?thesis using Cons.IH [of "hist @ ys" p rest] Cons.prems(1,2) Publish by auto
  next
    case (Take len)
    define n where "n = min (length hist - p) (unat len div E)"
    have q: "max p (length hist - N) = p" using Cons.prems(1) by (auto simp: max_def)
    obtain rest where r: "stream_run E N as (hist, p + n) = (rest, hist', p')" "outs = concat (take n (drop p hist)) # rest"
      using Cons.prems(3) Take by (cases "stream_run E N as (hist, p + n)") (auto simp: q n_def Let_def)
    have n: "p + n \<le> length hist" using Cons.prems(2) by (simp add: n_def)
    have "keeps_up E N as (hist, p + n)" using Cons.prems(1) Take by (simp add: q n_def Let_def)
    from Cons.IH [OF this n r(1)] obtain ys where ih: "p + n \<le> p'" "p' \<le> length hist'" "hist' = hist @ ys"
      "concat rest = concat (drop (p + n) (take p' hist'))" by blast
    have "drop p (take p' hist') = take n (drop p (take p' hist')) @ drop (p + n) (take p' hist')"
      by (metis append_take_drop_id drop_drop add.commute)
    moreover have "take n (drop p (take p' hist')) = take n (drop p hist)"
      using ih(1,3) n by (simp add: drop_take min_def)
    ultimately have "concat outs = concat (drop p (take p' hist'))" using r(2) ih(4) by (metis concat.simps(2) concat_append)
    then show ?thesis using ih by auto
  qed
qed simp

section \<open>A topic from its registration\<close>

definition reader :: oflags where
  "reader = \<lparr>O_RDOK = True, O_WROK = False, O_NONBLOCK = True, O_DIRECT = False, SENSOR_REMOTE = False, SENSOR_PERSIST = False\<rparr>"

definition no_ops :: "'d sensor_ops_s" where
  "no_ops = \<lparr>op_open = None, op_close = None, op_activate = None, op_set_interval = None, op_batch = None, op_fetch = None,
     op_flush = None, op_selftest = None, op_set_calibvalue = None, op_calibrate = None, op_get_info = None,
     op_set_nonwakeup = None, op_control = None\<rparr>"

text \<open>A subscriber that opens a topic before anything is published stands at the beginning of the stream.\<close>

lemma opened_stream_inv:
  assumes reg: "sensor_custom_register True OK sz low = Inr up" and lo: "op_fetch (ops low) = None" "\<not> persist low"
    and n: "0 < lower_nbuffer low" "unat (lower_nbuffer low) * unat sz < 2 ^ 32" "unat (lower_nbuffer low) * 4 < 2 ^ 32"
    and op: "op_open (ops low) = None" "op_activate (ops low) = None"
  shows "stream_inv (unat sz) (unat (lower_nbuffer low)) 1 uid [] [] 0 (snd (sensor_open reader uid True up))"
proof -
  have sz: "sz \<noteq> 0" "\<not> SENSOR_TYPE_COUNT \<le> type_of low"
    using reg by (auto simp: sensor_custom_register_def split: if_splits)
  have n0: "lower_nbuffer low \<noteq> 0" using n(1) by (simp add: word_gt_0)
  have up: "up = \<lparr>lower = low, state = \<lparr>esize = sz, nbuffer = lower_nbuffer low, min_latency = 0, min_interval = UINT32_MAX,
      nsubscribers = 0, nadvertisers = 0, generation = 0, nonwakeup = True, user_priv = 0\<rparr>,
      timing = zero_circbuf, buffer = zero_circbuf, lock = 0, userlist = []\<rparr>"
    using reg sz lo n0 op by (simp add: sensor_custom_register_def Let_def)
  have o: "snd (sensor_open reader uid True up) =
      up\<lparr>state := (state up)\<lparr>nsubscribers := 1\<rparr>, userlist := [(uid, sensor_pollnotify_one POLLPRI SENSOR_ROLE_WR (new_user reader up))]\<rparr>"
    using op by (simp add: sensor_open_def Let_def reader_def dcall_def count_open_def set_state_def sensor_pollnotify_def
        sensor_lock_def sensor_unlock_def up new_user_def)
  have "0 < unat sz" "0 < unat (lower_nbuffer low)" using sz n0 by (simp_all add: unat_gt_0)
  then show ?thesis
    unfolding o using n lo by (simp add: stream_inv_def generation_step_def topic_ok_def sub_ok_def Let_def user_of_def up new_user_def zero_circbuf_def)
qed

section \<open>Properties\<close>


definition demo_lower :: "unit sensor_lowerhalf_s" where
  "demo_lower = \<lparr>type_of = 1, lower_nbuffer = 2, ops = no_ops, persist = False, dev = ()\<rparr>"

definition demo_topic :: "unit sensor_upperhalf_s" where
  "demo_topic = (case sensor_custom_register True OK 2 demo_lower of Inr up \<Rightarrow> snd (sensor_open reader 0 True up))"

lemma demo_topic_inv: "stream_inv 2 2 1 0 [] [] 0 demo_topic"
proof -
  obtain up where up: "sensor_custom_register True OK 2 demo_lower = Inr up"
    by (simp add: sensor_custom_register_def demo_lower_def no_ops_def Let_def)
  then show ?thesis
    using opened_stream_inv [OF up, of 0] by (simp add: demo_topic_def demo_lower_def no_ops_def)
qed


end
