(* ===== verification/Sensor_Bounds.thy ===== *)
theory Sensor_Bounds
  imports Sensor_Stream "HOL-Library.Sublist"
begin

text \<open>
  Subscribers that ask for a rate of their own: which samples they get and how much is stored in the
  buffer they pass; and the lock of the topic, which every operation has to leave as it found it.
\<close>

section \<open>Picking samples\<close>

lemma drop_take_Suc: "i < j \<Longrightarrow> j \<le> length ys \<Longrightarrow> drop i (take j ys) = ys ! i # drop (Suc i) (take j ys)"
  by (subst Cons_nth_drop_Suc [symmetric]) simp_all

lemma peek_sample:
  assumes t: "topic_ok hist gens up" and i: "length hist - unat (lower_nbuffer (lower up)) \<le> i" "i < length hist" and pos: "unat pos = i"
  shows "circbuf_peekat (buffer up) (pos * esize (state up)) (esize (state up)) = hist ! i" "length (hist ! i) = unat (esize (state up))"
proof -
  let ?E = "unat (esize (state up))"
  have "hist \<noteq> []" using i by auto
  then have h: "ring_holds ?E (unat (lower_nbuffer (lower up))) hist (buffer up)" by (rule topic_okD(7) [OF t])
  then have small: "length hist * ?E < 2 ^ 32" by (simp add: ring_holds_def)
  have "i * ?E < 2 ^ 32" using small mult_le_mono1 [OF less_imp_le [OF i(2)], of ?E] by (rule le_less_trans [rotated])
  then have "unat (pos * esize (state up)) = i * ?E" using pos by (simp add: unat_word_ariths)
  then show "circbuf_peekat (buffer up) (pos * esize (state up)) (esize (state up)) = hist ! i"
    using ring_holds_peekat [OF h i(1), of _ _ 1] i by (simp add: take_Suc_conv_app_nth [of 0] flip: Cons_nth_drop_Suc)
  show "length (hist ! i) = ?E" using h i by (simp add: ring_holds_def)
qed

text \<open>One round of the loop.\<close>

definition next_generation :: "'d sensor_upperhalf_s \<Rightarrow> u32 \<Rightarrow> u32" where
  "next_generation up pos' =
     (if pos' * TIMING_BUF_ESIZE = head (timing up) then generation (state up) + min_interval (state up)
      else peek_generation (timing up) (pos' * TIMING_BUF_ESIZE) 0)"

definition wanted :: "'d sensor_upperhalf_s \<Rightarrow> u32 \<Rightarrow> u32 \<Rightarrow> sensor_user_s \<Rightarrow> bool" where
  "wanted up pos g u \<longleftrightarrow>
     0 \<le> sint (next_generation up (pos + 1) + g - push_bit 1 (u_generation (ustate u) + interval (ustate u)))"

definition picked :: "u32 \<Rightarrow> sensor_user_s \<Rightarrow> sensor_user_s" where
  "picked pos u = set_generation (u_generation (ustate u) + interval (ustate u)) (u\<lparr>bufferpos := pos + 1\<rparr>)"

lemma pick_samples_unfold:
  fixes up :: "'d sensor_upperhalf_s"
  assumes "pos \<noteq> stop"
  defines "dst \<equiv> circbuf_peekat (buffer up) (pos * esize (state up)) (esize (state up))"
  shows "pick_samples up False len stop pos g u ret out =
    (if wanted up pos g u
     then if len \<le> ret + of_nat (length dst) then (False, picked pos u, ret + of_nat (length dst), out @ dst)
          else pick_samples up False len stop (pos + 1) (next_generation up (pos + 1)) (picked pos u) (ret + of_nat (length dst)) (out @ dst)
     else pick_samples up False len stop (pos + 1) (next_generation up (pos + 1)) u ret out)"
  using assms(1)
  by (subst pick_samples.simps) (simp add: Let_def wanted_def picked_def next_generation_def dst_def)

lemma picked_sel [simp]: "bufferpos (picked pos u) = pos + 1" "interval (ustate (picked pos u)) = interval (ustate u)"
  by (simp_all add: picked_def set_generation_def)

text \<open>
  The samples picked from position \<open>i\<close> on are samples from there up to the new position of the
  subscriber, in order; and there are at most \<open>n\<close> of them for a buffer of \<open>n\<close> samples, but one even for
  a buffer that is too small for one.
\<close>

lemma pick_samples_spec:
  assumes t: "topic_ok hist gens up"
  defines "E \<equiv> unat (esize (state up))"
  assumes "unat stop = length hist" "unat len = n * E" "r < n \<or> n = 0 \<and> r = 0" "n * E + E < 2 ^ 32"
    and "unat pos = i" "length hist - unat (lower_nbuffer (lower up)) \<le> i" "i \<le> length hist"
    and "unat ret = r * E" "pick_samples up False len stop pos g u ret out = (all, u', ret', out')"
  shows "\<exists>xs. out' = out @ concat xs \<and> r + length xs \<le> max 1 n \<and> unat ret' = (r + length xs) * E \<and> set xs \<subseteq> set hist \<and>
    (if xs = [] then bufferpos u' = bufferpos u
     else i < unat (bufferpos u') \<and> unat (bufferpos u') \<le> length hist \<and> subseq xs (drop i (take (unat (bufferpos u')) hist)))"
  using assms(3-)
proof (induction "length hist - i" arbitrary: i pos g u ret out r)
  case 0
  then have "pos = stop" by (metis diff_is_0_eq le_antisym word_unat_eq_iff)
  then show ?case using 0 by (auto simp: pick_samples.simps [of _ _ _ stop stop])
next
  case (Suc k)
  note stop = Suc.prems(1) and len = Suc.prems(2) and r = Suc.prems(3) and fits = Suc.prems(4) and pos = Suc.prems(5)
    and i = Suc.prems(6,7) and ret = Suc.prems(8) and run = Suc.prems(9)
  have lt: "i < length hist" using Suc.hyps(2) by simp
  then have ne: "hist \<noteq> []" "pos \<noteq> stop" using pos stop by auto
  have h: "ring_holds E (unat (lower_nbuffer (lower up))) hist (buffer up)" and E: "0 < E"
    using topic_okD [OF t] ne(1) by (simp_all add: E_def)
  have small: "length hist * E < 2 ^ 32" using h by (simp add: ring_holds_def)
  have "length hist < 2 ^ 32" using small E by (metis mult.right_neutral mult_le_mono2 le_less_trans Suc_leI One_nat_def)
  then have pos1: "unat (pos + 1) = Suc i" using pos lt by (subst unat_Suc_less [of _ "length hist"]) simp_all
  note dst = peek_sample(1) [OF t i(1) lt pos] and lE = peek_sample(2) [OF t i(1) lt pos, folded E_def]
  have rE: "r * E \<le> n * E" using r by (intro mult_le_mono1) auto
  then have "r * E + E < 2 ^ 32" using fits by linarith
  moreover have "unat (of_nat E :: u32) = E" by (simp add: E_def)
  ultimately have ret1: "unat (ret + of_nat E) = Suc r * E" using ret by (subst unat_add_no_wrap) simp_all
  have brk: "len \<le> ret + of_nat E \<longleftrightarrow> n \<le> Suc r" unfolding word_le_nat_alt ret1 len using E by (simp only: mult_le_cancel2) simp
  note u = pick_samples_unfold [OF ne(2), of up len g u ret out, unfolded dst lE]
  have k: "k = length hist - Suc i" using Suc.hyps(2) by simp
  have i1: "length hist - unat (lower_nbuffer (lower up)) \<le> Suc i" "Suc i \<le> length hist" using i lt by simp_all
  consider "\<not> wanted up pos g u" | "wanted up pos g u" "n \<le> Suc r" | "wanted up pos g u" "Suc r < n" by linarith
  then show ?case
  proof cases
    case 1
    then have "pick_samples up False len stop (pos + 1) (next_generation up (pos + 1)) u ret out = (all, u', ret', out')"
      using run u by simp
    from Suc.hyps(1) [OF k stop len r fits pos1 i1 ret this] obtain xs where
      xs: "out' = out @ concat xs" "r + length xs \<le> max 1 n" "unat ret' = (r + length xs) * E" "set xs \<subseteq> set hist"
      "if xs = [] then bufferpos u' = bufferpos u
       else Suc i < unat (bufferpos u') \<and> unat (bufferpos u') \<le> length hist \<and> subseq xs (drop (Suc i) (take (unat (bufferpos u')) hist))"
      by auto
    then show ?thesis
      by (intro exI [of _ xs]) (auto simp: drop_take_Suc [of i] split: if_splits)
  next
    case 2
    then have res: "u' = picked pos u" "ret' = ret + of_nat E" "out' = out @ hist ! i" using run u brk by auto
    then show ?thesis
      using pos1 ret1 lt r 2 by (intro exI [of _ "[hist ! i]"]) (auto simp: drop_take_Suc)
  next
    case 3
    then have "pick_samples up False len stop (pos + 1) (next_generation up (pos + 1)) (picked pos u) (ret + of_nat E) (out @ hist ! i) =
        (all, u', ret', out')"
      using run u brk by simp
    from Suc.hyps(1) [OF k stop len _ fits pos1 i1 ret1 this] 3(2) obtain xs where
      xs: "out' = (out @ hist ! i) @ concat xs" "Suc r + length xs \<le> max 1 n" "unat ret' = (Suc r + length xs) * E" "set xs \<subseteq> set hist"
      "if xs = [] then bufferpos u' = bufferpos (picked pos u)
       else Suc i < unat (bufferpos u') \<and> unat (bufferpos u') \<le> length hist \<and> subseq xs (drop (Suc i) (take (unat (bufferpos u')) hist))"
      by auto
    then show ?thesis
      using pos1 lt by (intro exI [of _ "hist ! i # xs"]) (auto simp: drop_take_Suc split: if_splits)
  qed
qed

lemma catch_up_pos:
  assumes t: "topic_ok hist gens up" and ne: "hist \<noteq> []" and p: "unat (bufferpos u) = p" "length hist \<le> p + unat (lower_nbuffer (lower up))" "p \<le> length hist"
  shows "\<exists>i \<ge> length hist - unat (lower_nbuffer (lower up)). unat (bufferpos (sensor_catch_up up u)) = i \<and> i \<le> length hist \<and> i \<le> p"
    "interval (ustate (sensor_catch_up up u)) = interval (ustate u)"
  using timing_counters(3) [OF t ne] p
  by (auto simp: sensor_catch_up_def Let_def set_generation_def)

text \<open>A read by a subscriber with a rate of its own, whose position is in the buffer.\<close>

lemma rate_samples:
  assumes t: "topic_ok hist gens up" and iv: "interval (ustate u) \<noteq> UINT32_MAX" and ne: "hist \<noteq> []"
    and p: "unat (bufferpos u) \<le> length hist" "length hist \<le> unat (bufferpos u) + unat (lower_nbuffer (lower up))"
    and small: "Suc (length hist) * unat (esize (state up)) < 2 ^ 32"
    and r: "sensor_do_samples up u False len = ((ret, out), u')"
  shows "\<exists>xs. out = concat xs \<and> subseq xs hist \<and> length out = length xs * unat (esize (state up)) \<and> unat ret = length out \<and>
    length xs \<le> max 1 (unat len div unat (esize (state up)))"
proof -
  let ?T = "length hist" and ?E = "unat (esize (state up))"
  define v where "v = sensor_catch_up up u"
  obtain i where i: "?T - unat (lower_nbuffer (lower up)) \<le> i" "unat (bufferpos v) = i" "i \<le> ?T"
    using catch_up_pos(1) [OF t ne refl p(2,1)] by (auto simp: v_def)
  have iv': "interval (ustate v) \<noteq> UINT32_MAX" using catch_up_pos(2) [OF t ne refl p(2,1)] iv by (simp add: v_def)
  have E: "0 < ?E" by (rule topic_okD(5) [OF t])
  define m where "m = head (timing up) div 4 - bufferpos v"
  define k where "k = (if len < m * esize (state up) then len div esize (state up) else m)"
  have m: "unat m = ?T - i" using timing_counters(1) [OF t ne] i by (simp add: m_def unat_sub_le)
  have le: "j * ?E < 2 ^ 32" if "j \<le> Suc ?T" for j using mult_le_mono1 [OF that, of ?E] small by (rule le_less_trans)
  have mE: "unat (m * esize (state up)) = (?T - i) * ?E" using le [of "?T - i"] m by (simp add: unat_word_ariths)
  have k: "unat k = min (?T - i) (unat len div ?E)"
    using E by (auto simp: k_def m mE word_less_nat_alt unat_div min_def div_less_iff_less_mult less_eq_div_iff_mult_less_eq)
  have kE: "unat (k * esize (state up)) = unat k * ?E" using le [of "unat k"] k by (simp add: unat_word_ariths)
  have "unat k \<le> ?T" using k by simp
  then have fits: "unat k * ?E + ?E < 2 ^ 32" using le [of "Suc (unat k)"] by (simp add: add.commute)
  let ?g = "peek_generation (timing up) (bufferpos v * 4) 0"
  obtain all w ret1 out1 where ps: "pick_samples up False (k * esize (state up)) (head (timing up) div 4) (bufferpos v) ?g v 0 [] = (all, w, ret1, out1)"
    by (metis prod_cases4)
  have eq: "ret1 = ret" "out1 = out"
    using r unfolding sensor_do_samples_def Let_def v_def [symmetric] m_def [symmetric] k_def [symmetric] if_not_P [OF iv'] ps
    by (auto split: if_splits)
  have c: "0 < unat k \<or> unat k = 0 \<and> (0::nat) = 0" and z: "unat (0::u32) = 0 * ?E" by auto
  have "\<exists>xs. out = concat xs \<and> length xs \<le> max 1 (unat k) \<and> unat ret = length xs * ?E \<and> set xs \<subseteq> set hist \<and>
    (if xs = [] then bufferpos w = bufferpos v
     else i < unat (bufferpos w) \<and> unat (bufferpos w) \<le> ?T \<and> subseq xs (drop i (take (unat (bufferpos w)) hist)))"
    using pick_samples_spec [OF t timing_counters(1) [OF t ne] kE c fits i(2,1,3) z ps]
    by (simp only: append.simps add_0 eq)
  then obtain xs where xs: "out = concat xs" "length xs \<le> max 1 (unat k)" "unat ret = length xs * ?E" "set xs \<subseteq> set hist"
    and sub: "if xs = [] then bufferpos w = bufferpos v
       else i < unat (bufferpos w) \<and> unat (bufferpos w) \<le> ?T \<and> subseq xs (drop i (take (unat (bufferpos w)) hist))"
    by blast
  have "subseq (drop i (take j hist)) hist" for j
    by (meson subseq_order.order_trans suffix_drop suffix_imp_subseq take_is_prefix prefix_imp_subseq)
  then have "subseq xs hist" using sub by (auto intro: subseq_order.order_trans split: if_splits)
  moreover have "length out = length xs * ?E"
    unfolding xs(1) using xs(4) topic_okD(7) [OF t ne] by (intro length_concat_uniform) (auto simp: ring_holds_def)
  moreover have "length xs \<le> max 1 (unat len div ?E)" using xs(2) k by (auto simp: max_def min_def split: if_splits)
  ultimately show ?thesis using xs by (intro exI [of _ xs]) simp
qed


text \<open>The loop in terms of the samples.\<close>

lemma next_generation_eq:
  assumes t: "topic_ok hist gens up" and i: "length hist - unat (lower_nbuffer (lower up)) \<le> i" "i < length hist" and pos: "unat pos = i"
  shows "next_generation up (pos + 1) =
    (if Suc i = length hist then generation (state up) + min_interval (state up) else of_nat (gens ! Suc i))"
proof -
  have ne: "hist \<noteq> []" using i by auto
  note small = timing_counters(4) [OF t ne] and len = topic_okD(1) [OF t]
  have p1: "unat (pos + 1) = Suc i" using i pos small by (subst unat_Suc_less [of _ "length hist"]) simp_all
  then have p4: "unat ((pos + 1) * 4) = Suc i * 4" using i small by (subst unat_word_ariths) simp
  have "unat (head (timing up)) = length hist * 4" using ring_holds_head [OF topic_okD(8) [OF t ne]] len by simp
  then have "(pos + 1) * 4 = head (timing up) \<longleftrightarrow> Suc i = length hist"
    using p4 by (metis mult_cancel2 numeral_neq_zero word_unat_eq_iff zero_neq_numeral)
  moreover have "peek_generation (timing up) ((pos + 1) * 4) 0 = of_nat (gens ! Suc i)" if "Suc i \<noteq> length hist"
    using i that p4 by (intro peek_gen [OF t]) simp_all
  ultimately show ?thesis by (simp add: next_generation_def)
qed

text \<open>A read by a subscriber with a rate of its own that has at least two samples before it and room for at most one.\<close>

lemma do_rate_samples:
  assumes t: "topic_ok hist gens up" and iv: "interval (ustate u) \<noteq> UINT32_MAX"
    and v: "sensor_catch_up up u = v" "interval (ustate v) = interval (ustate u)" "unat (bufferpos v) = q"
      "length hist - unat (lower_nbuffer (lower up)) \<le> q" "q + 1 < length hist"
    and len: "len \<le> esize (state up)"
    and ps: "pick_samples up False (if len = esize (state up) then esize (state up) else 0) (of_nat (length hist)) (bufferpos v)
        (of_nat (gens ! q)) v 0 [] = (False, w, ret, out)"
  shows "sensor_do_samples up u False len = ((ret, out), w)"
proof -
  let ?T = "length hist" and ?E = "unat (esize (state up))"
  have ne: "hist \<noteq> []" using v by auto
  have E: "0 < ?E" by (rule topic_okD(5) [OF t])
  have small: "?T * ?E < 2 ^ 32" "?T * 4 < 2 ^ 32"
    using topic_okD(7) [OF t ne] timing_counters(4) [OF t ne] by (simp_all add: ring_holds_def)
  define m where "m = head (timing up) div 4 - bufferpos v"
  have m: "unat m = ?T - q" using timing_counters(1) [OF t ne] v by (simp add: m_def unat_sub_le)
  have "(?T - q) * ?E < 2 ^ 32" using mult_le_mono1 [of "?T - q" ?T ?E] small(1) by (intro le_less_trans [OF _ small(1)]) simp
  then have mE: "unat (m * esize (state up)) = (?T - q) * ?E" using m by (simp add: unat_word_ariths)
  have "1 * ?E < (?T - q) * ?E" using v E by (intro mult_strict_right_mono) simp_all
  moreover have "unat len \<le> ?E" using len by (simp add: word_le_nat_alt)
  ultimately have "unat len < (?T - q) * ?E" by linarith
  then have lt: "len < m * esize (state up)" by (simp only: word_less_nat_alt mE)
  have quot: "len div esize (state up) * esize (state up) = (if len = esize (state up) then esize (state up) else 0)"
  proof (cases "len = esize (state up)")
    case True
    have "len div esize (state up) = 1" using E True by (intro word_unat_eq_iff [THEN iffD2]) (simp add: unat_div)
    then show ?thesis using True by simp
  next
    case False
    then have "len < esize (state up)" using len by simp
    then have "len div esize (state up) = 0" by (intro word_unat_eq_iff [THEN iffD2]) (simp add: unat_div word_less_nat_alt)
    then show ?thesis using False by simp
  qed
  have hd: "head (timing up) div 4 = of_nat ?T" using timing_counters(1) [OF t ne] by (metis of_nat_unat ucast_id)
  have "unat (bufferpos v * 4) = q * 4" using v small(2) by (simp add: unat_word_ariths)
  then have g: "peek_generation (timing up) (bufferpos v * 4) 0 = of_nat (gens ! q)" using v by (intro peek_gen [OF t]) simp_all
  have iv': "interval (ustate v) \<noteq> UINT32_MAX" using iv v by simp
  show ?thesis
    unfolding sensor_do_samples_def Let_def v(1) m_def [symmetric] if_P [OF lt] quot if_not_P [OF iv'] g
    unfolding hd ps by simp
qed

text \<open>
  A subscriber that wants a sample every 7 units of a topic with a sample every 4 units and a buffer of
  two samples: its first read, and the read after one more sample.
\<close>

definition wants :: "u32 \<Rightarrow> u32 \<Rightarrow> u32 \<Rightarrow> sensor_user_s \<Rightarrow> bool" where
  "wants iv p g u \<longleftrightarrow> interval (ustate u) = iv \<and> bufferpos u = p \<and> u_generation (ustate u) = g"

lemma topic_generation: "topic_ok hist gens up \<Longrightarrow> generation (state up) = of_nat (last (0 # gens))"
  by (metis topic_okD(4) of_nat_unat ucast_id)

lemma oldest_generation:
  assumes "topic_ok hist gens up" "hist \<noteq> []"
  shows "peek_generation (timing up) (tail (timing up)) 0 = of_nat (gens ! (length hist - unat (lower_nbuffer (lower up))))"
    "tail (timing up) div 4 = of_nat (length hist - unat (lower_nbuffer (lower up)))"
proof -
  have "length hist - unat (lower_nbuffer (lower up)) < length hist" using topic_okD(6) [OF assms(1)] assms(2) by (cases hist) simp_all
  then show "peek_generation (timing up) (tail (timing up)) 0 = of_nat (gens ! (length hist - unat (lower_nbuffer (lower up))))"
    using timing_counters(2) [OF assms] by (intro peek_gen [OF assms(1)]) simp_all
  show "tail (timing up) div 4 = of_nat (length hist - unat (lower_nbuffer (lower up)))"
    using timing_counters(3) [OF assms] by (metis of_nat_unat ucast_id)
qed

lemma rate_first_read:
  assumes t: "topic_ok [a, b] [4, 8] up" and n: "unat (lower_nbuffer (lower up)) = 2" and m: "min_interval (state up) = 4"
    and u: "wants 7 0 0 u" and len: "len \<le> esize (state up)"
  shows "sensor_do_samples up u False len = ((esize (state up), b), picked 1 (sensor_catch_up up u))"
    "wants 7 2 7 (picked 1 (sensor_catch_up up u))"
proof -
  define v where "v = sensor_catch_up up u"
  have gen: "generation (state up) = 8" using topic_generation [OF t] by simp
  have v: "wants 7 0 0 v"
    using u m oldest_generation [OF t] n by (simp add: v_def sensor_catch_up_def wants_def Let_def ROUND_DOWN_def set_generation_def)
  then have sel: "bufferpos v = 0" "interval (ustate v) = 7" "u_generation (ustate v) = 0" by (simp_all add: wants_def)
  have ng: "next_generation up 1 = 8" "next_generation up 2 = 12"
    using next_generation_eq [OF t, of 0 0] next_generation_eq [OF t, of 1 1] n gen m by simp_all
  have w: "\<not> wanted up 0 4 v" "wanted up 1 8 v" by (simp_all add: wanted_def ng sel)
  have d: "circbuf_peekat (buffer up) (esize (state up)) (esize (state up)) = b" "length b = unat (esize (state up))"
    using peek_sample [OF t, of 1 1] n by simp_all
  have "pick_samples up False l 2 0 4 v 0 [] = (False, picked 1 v, esize (state up), b)" if "l \<le> esize (state up)" for l
    using w that by (simp add: pick_samples_unfold ng d)
  then show "sensor_do_samples up u False len = ((esize (state up), b), picked 1 (sensor_catch_up up u))"
    unfolding v_def [symmetric] using u sel n len
    by (intro do_rate_samples [OF t _ v_def [symmetric], of 0]) (simp_all add: wants_def)
  show "wants 7 2 7 (picked 1 (sensor_catch_up up u))"
    unfolding v_def [symmetric] using sel by (simp add: wants_def picked_def set_generation_def)
qed

lemma rate_second_read:
  assumes t: "topic_ok [a, b, c] [4, 8, 12] up" and n: "unat (lower_nbuffer (lower up)) = 2" and m: "min_interval (state up) = 4"
    and u: "wants 7 2 7 u"
  shows "sensor_is_updated up u"
    "sensor_do_samples up u False (esize (state up)) = ((esize (state up), b), picked 1 (sensor_catch_up up u))"
proof -
  define v where "v = sensor_catch_up up u"
  have gen: "generation (state up) = 12" using topic_generation [OF t] by simp
  show "sensor_is_updated up u" using u m gen by (simp add: sensor_is_updated_def wants_def Let_def)
  have v: "wants 7 1 3 v"
    using u m oldest_generation [OF t] n by (simp add: v_def sensor_catch_up_def wants_def Let_def ROUND_DOWN_def set_generation_def)
  then have sel: "bufferpos v = 1" "interval (ustate v) = 7" "u_generation (ustate v) = 3" by (simp_all add: wants_def)
  have ng: "next_generation up 2 = 12" using next_generation_eq [OF t, of 1 1] n by simp
  have w: "wanted up 1 8 v" by (simp add: wanted_def ng sel)
  have d: "circbuf_peekat (buffer up) (esize (state up)) (esize (state up)) = b" "length b = unat (esize (state up))"
    using peek_sample [OF t, of 1 1] n by simp_all
  have "pick_samples up False (esize (state up)) 3 1 8 v 0 [] = (False, picked 1 v, esize (state up), b)"
    using w by (simp add: pick_samples_unfold ng d)
  then show "sensor_do_samples up u False (esize (state up)) = ((esize (state up), b), picked 1 (sensor_catch_up up u))"
    unfolding v_def [symmetric] using u sel n by (intro do_rate_samples [OF t _ v_def [symmetric], of 1]) (simp_all add: wants_def)
qed

section \<open>Publishing and the users\<close>

lemma init_buffers_users [simp]: "userlist (snd (sensor_init_buffers mb mt up)) = userlist up"
  by (simp add: sensor_init_buffers_def split: prod.splits sum.splits)

lemma flush_complete_keeps [simp]: "ustate (flush_complete u) = ustate u" "bufferpos (flush_complete u) = bufferpos u"
  by (simp_all add: flush_complete_def)

lemma push_users:
  "\<exists>f. userlist (snd (sensor_push_event mb mt d up)) = map (\<lambda>(k, u). (k, f u)) (userlist up) \<and>
    (\<forall>u. ustate (f u) = ustate u \<and> bufferpos (f u) = bufferpos u)"
proof -
  let ?bytes = "of_nat (length d) :: u32"
  have id: "map (\<lambda>(k, u). (k, u)) xs = xs" for xs :: "(nat \<times> sensor_user_s) list" by (simp add: case_prod_beta)
  consider "?bytes = 0" | "?bytes \<noteq> 0" "?bytes \<noteq> ?bytes div esize (state up) * esize (state up)"
    | e up1 where "?bytes \<noteq> 0" "?bytes = ?bytes div esize (state up) * esize (state up)"
        "sensor_init_buffers mb mt (sensor_lock up) = (Inl e, up1)"
    | up1 where "?bytes \<noteq> 0" "?bytes = ?bytes div esize (state up) * esize (state up)"
        "sensor_init_buffers mb mt (sensor_lock up) = (OK, up1)"
    by (cases "sensor_init_buffers mb mt (sensor_lock up)") (metis (full_types) old.unit.exhaust sum.exhaust)
  then show ?thesis
  proof cases
    case 1
    then show ?thesis
      by (intro exI [of _ "\<lambda>u. if flushing u then flush_complete u else u"]) (simp add: sensor_push_event_def Let_def)
  next
    case 2
    then show ?thesis by (intro exI [of _ "\<lambda>u. u"]) (simp add: sensor_push_event_def Let_def id)
  next
    case 3
    moreover have "userlist up1 = userlist up" using init_buffers_users [of mb mt "sensor_lock up"] 3 by simp
    ultimately show ?thesis
      by (intro exI [of _ "\<lambda>u. u"]) (simp add: sensor_push_event_def Let_def id)
  next
    case 4
    define up2 where "up2 = sensor_generate_timing (unat (?bytes div esize (state up))) (up1\<lparr>buffer := snd (circbuf_overwrite (buffer up1) d)\<rparr>)"
    have "userlist up1 = userlist up" using init_buffers_users [of mb mt "sensor_lock up"] 4 by simp
    with 4(1) 4(2) [symmetric] 4(3) show ?thesis
      by (intro exI [of _ "\<lambda>u. if sensor_is_updated up2 u then wake_user u else u"])
        (simp add: sensor_push_event_def Let_def up2_def [symmetric])
  qed
qed

lemma push_keeps_user:
  assumes "uid \<in> fst ` set (userlist up)"
  shows "ustate (user_of uid (snd (sensor_push_event mb mt d up))) = ustate (user_of uid up)"
    "bufferpos (user_of uid (snd (sensor_push_event mb mt d up))) = bufferpos (user_of uid up)"
proof -
  obtain f where f: "userlist (snd (sensor_push_event mb mt d up)) = map (\<lambda>(k, u). (k, f u)) (userlist up)"
    and keep: "ustate (f u) = ustate u" "bufferpos (f u) = bufferpos u" for u
    using push_users by metis
  have "user_of uid (snd (sensor_push_event mb mt d up)) = f (user_of uid up)"
    using user_of_map [OF assms, of f] by (simp add: user_of_def f)
  then show "ustate (user_of uid (snd (sensor_push_event mb mt d up))) = ustate (user_of uid up)"
    "bufferpos (user_of uid (snd (sensor_push_event mb mt d up))) = bufferpos (user_of uid up)"
    by (simp_all add: keep)
qed

text \<open>The invariant of the subscriber with a rate of its own.\<close>

definition rate_inv :: "u8 list list \<Rightarrow> nat list \<Rightarrow> nat \<Rightarrow> u32 \<Rightarrow> u32 \<Rightarrow> 'd sensor_upperhalf_s \<Rightarrow> bool" where
  "rate_inv hist gens uid p g up \<longleftrightarrow>
     topic_ok hist gens up \<and> uid \<in> fst ` set (userlist up) \<and> wants 7 p g (user_of uid up) \<and>
     lower_nbuffer (lower up) = 2 \<and> min_interval (state up) = 4"

lemma rate_publish:
  fixes flags :: oflags
  assumes inv: "rate_inv hist gens uid p g up" and x: "length x = unat (esize (state up))"
    and small: "Suc (length hist) * unat (esize (state up)) < 2 ^ 32" "length hist < 9" "last (0 # gens) < 99"
  defines "up' \<equiv> snd (topic_step flags uid (Publish [x]) up)"
  shows "rate_inv (hist @ [x]) (gens @ [last (0 # gens) + 4]) uid p g up'" "esize (state up') = esize (state up)"
proof -
  have i: "topic_ok hist gens up" "uid \<in> fst ` set (userlist up)" "wants 7 p g (user_of uid up)" "lower_nbuffer (lower up) = 2"
    "min_interval (state up) = 4" using inv by (simp_all add: rate_inv_def)
  have s: "unat (generation_step up) = 4" by (simp add: generation_step_def i)
  have "push_ok hist gens [x] up" using small x by (simp add: push_ok_def Let_def s i)
  note P = push_stream [OF i(1) this, of "replicate (2 * unat (esize (state up))) 0" "replicate (2 * 4) 0", unfolded s, simplified i, simplified]
  have up': "up' = snd (sensor_push_event (Some (replicate (2 * unat (esize (state up))) 0)) (Some (replicate (2 * 4) 0)) (concat [x]) up)"
    by (simp add: up'_def i)
  have "wants 7 p g (user_of uid up')" using i(3) push_keeps_user [OF i(2)] by (simp add: up' wants_def)
  then show "rate_inv (hist @ [x]) (gens @ [last (0 # gens) + 4]) uid p g up'" "esize (state up') = esize (state up)"
    using P i by (simp_all add: rate_inv_def up')
qed

lemma rate_take:
  assumes inv: "rate_inv hist gens uid p g up" and ne: "hist \<noteq> []" and upd: "sensor_is_updated (sensor_lock up) (user_of uid up)"
    and d: "sensor_do_samples (sensor_lock up) (user_of uid up) False (esize (state up)) = ((n, bs), u')" and u: "wants 7 p' g' u'"
  shows "fst (topic_step flags uid (Take (esize (state up))) up) = bs"
    "rate_inv hist gens uid p' g' (snd (topic_step flags uid (Take (esize (state up))) up))"
    "esize (state (snd (topic_step flags uid (Take (esize (state up))) up))) = esize (state up)"
proof -
  have i: "topic_ok hist gens up" "uid \<in> fst ` set (userlist up)" "lower_nbuffer (lower up) = 2" "min_interval (state up) = 4"
    using inv by (simp_all add: rate_inv_def)
  have len: "esize (state up) \<noteq> 0" using topic_okD(5) [OF i(1)] by auto
  note r = sensor_read_updated [OF i(1) ne upd len, of flags, unfolded d, simplified]
  let ?up1 = "sensor_unlock (upd_user uid (\<lambda>_. u') (sensor_lock up))"
  have "topic_ok hist gens ?up1" using i(1) by (subst topic_ok_cong) simp_all
  moreover have "user_of uid ?up1 = u'" using i(2) by (simp add: user_of_upd)
  ultimately show "fst (topic_step flags uid (Take (esize (state up))) up) = bs"
    "rate_inv hist gens uid p' g' (snd (topic_step flags uid (Take (esize (state up))) up))"
    "esize (state (snd (topic_step flags uid (Take (esize (state up))) up))) = esize (state up)"
    using i u by (simp_all add: r rate_inv_def)
qed

lemma rate_first_take:
  assumes "rate_inv [a, b] [4, 8] uid 0 0 up"
  shows "fst (topic_step flags uid (Take (esize (state up))) up) = b"
    "rate_inv [a, b] [4, 8] uid 2 7 (snd (topic_step flags uid (Take (esize (state up))) up))"
    "esize (state (snd (topic_step flags uid (Take (esize (state up))) up))) = esize (state up)"
proof -
  have t: "topic_ok [a, b] [4, 8] (sensor_lock up)" and n: "unat (lower_nbuffer (lower (sensor_lock up))) = 2"
    and m: "min_interval (state (sensor_lock up)) = 4" and u: "wants 7 0 0 (user_of uid up)"
    using assms by (simp_all add: rate_inv_def)
  have "generation (state up) = 8" using topic_generation [OF t] by simp
  then have upd: "sensor_is_updated (sensor_lock up) (user_of uid up)"
    using u m by (simp add: sensor_is_updated_def wants_def Let_def)
  show "fst (topic_step flags uid (Take (esize (state up))) up) = b"
    "rate_inv [a, b] [4, 8] uid 2 7 (snd (topic_step flags uid (Take (esize (state up))) up))"
    "esize (state (snd (topic_step flags uid (Take (esize (state up))) up))) = esize (state up)"
    using rate_take [OF assms _ upd _ rate_first_read(2) [OF t n m u, of "esize (state up)"]]
      rate_first_read(1) [OF t n m u, of "esize (state up)"] by simp_all
qed

lemma rate_second_take:
  assumes "rate_inv [a, b, c] [4, 8, 12] uid 2 7 up"
  shows "fst (topic_step flags uid (Take (esize (state up))) up) = b"
proof -
  have t: "topic_ok [a, b, c] [4, 8, 12] (sensor_lock up)" and n: "unat (lower_nbuffer (lower (sensor_lock up))) = 2"
    and m: "min_interval (state (sensor_lock up)) = 4" and u: "wants 7 2 7 (user_of uid up)"
    using assms by (simp_all add: rate_inv_def)
  note s = rate_second_read [OF t n m u]
  have len: "esize (state up) \<noteq> 0" using topic_okD(5) [OF t] by auto
  have "topic_ok [a, b, c] [4, 8, 12] up" using t by simp
  from sensor_read_updated [OF this _ s(1) len, of flags] s(2) show ?thesis by simp
qed

text \<open>C34: A subscriber may get the same sample twice.  On a topic with a sample every 4 units and a buffer of
  two samples, a subscriber that asks for a sample every 7 units and reads one sample after the second
  and one after the third publication gets the second sample both times, whatever the samples are.\<close>

theorem sensor_rate_duplicate:
  assumes inv: "rate_inv [] [] uid 0 0 up" and x: "length a = unat (esize (state up))" "length b = unat (esize (state up))"
      "length c = unat (esize (state up))" and small: "3 * unat (esize (state up)) < 2 ^ 32"
  shows "fst (topic_run flags uid [Publish [a], Publish [b], Take (esize (state up)), Publish [c], Take (esize (state up))] up) =
    [[], [], b, [], b]"
proof -
  let ?E = "esize (state up)"
  define up1 up2 up3 up4 where "up1 = snd (topic_step flags uid (Publish [a]) up)" and "up2 = snd (topic_step flags uid (Publish [b]) up1)"
    and "up3 = snd (topic_step flags uid (Take ?E) up2)" and "up4 = snd (topic_step flags uid (Publish [c]) up3)"
  have 1: "rate_inv [a] [4] uid 0 0 up1" "esize (state up1) = ?E"
    using rate_publish [OF inv x(1), of flags] small by (simp_all add: up1_def)
  have 2: "rate_inv [a, b] [4, 8] uid 0 0 up2" "esize (state up2) = ?E"
    using rate_publish [OF 1(1), of b flags] small x 1(2) by (simp_all add: up2_def)
  have 3: "fst (topic_step flags uid (Take ?E) up2) = b" "rate_inv [a, b] [4, 8] uid 2 7 up3" "esize (state up3) = ?E"
    using rate_first_take [OF 2(1), of flags] unfolding 2(2) up3_def by blast+
  have 4: "rate_inv [a, b, c] [4, 8, 12] uid 2 7 up4" "esize (state up4) = ?E"
    using rate_publish [OF 3(2), of c flags] small x 3(3) by (simp_all add: up4_def)
  have 5: "fst (topic_step flags uid (Take ?E) up4) = b"
    using rate_second_take [OF 4(1), of flags] unfolding 4(2) .
  have p: "fst (topic_step flags uid (Publish ys) up) = []" for ys and up :: "'a sensor_upperhalf_s" by simp
  show ?thesis
    by (simp add: case_prod_beta p 3(1) 5 up1_def [symmetric] up2_def [symmetric] up3_def [symmetric] up4_def [symmetric]
        del: topic_step.simps)
qed

text \<open>Such a topic: two subscribers, one of which asks for an interval of 4 and the other for 7.\<close>

definition rate_topic :: "u32 \<Rightarrow> unit sensor_upperhalf_s" where
  "rate_topic sz =
     (case sensor_custom_register True OK sz demo_lower of
        Inr up \<Rightarrow>
          (let up1 = snd (sensor_open reader 1 True (snd (sensor_open reader 0 True up)))
           in case sensor_ioctl id reader 0 (SNIOC_SET_INTERVAL 7) up1 of
                Some (_, up2) \<Rightarrow> (case sensor_ioctl id reader 1 (SNIOC_SET_INTERVAL 4) up2 of Some (_, up3) \<Rightarrow> up3)))"

lemma rate_topic_inv:
  assumes "0 < unat sz" "2 * unat sz < 2 ^ 32"
  shows "rate_inv [] [] 0 0 0 (rate_topic sz)" "esize (state (rate_topic sz)) = sz"
proof -
  have "sz \<noteq> 0" using assms(1) by auto
  then have r: "rate_topic sz = \<lparr>lower = demo_lower, state = \<lparr>esize = sz, nbuffer = 2, min_latency = 0, min_interval = 4, nsubscribers = 2,
      nadvertisers = 0, generation = 0, nonwakeup = True, user_priv = 0\<rparr>, timing = zero_circbuf, buffer = zero_circbuf, lock = 0,
      userlist = [(0, zero_user\<lparr>role := 2, ustate := \<lparr>u_esize = sz, latency = 0, interval = 7, u_nonwakeup = True, u_generation = 0\<rparr>\<rparr>),
        (1, zero_user\<lparr>role := 2, ustate := \<lparr>u_esize = sz, latency = 0, interval = 4, u_nonwakeup = True, u_generation = 0\<rparr>\<rparr>)]\<rparr>"
    by (simp add: rate_topic_def sensor_custom_register_def demo_lower_def no_ops_def Let_def sensor_open_def reader_def dcall_def
        count_open_def set_state_def sensor_pollnotify_def sensor_pollnotify_one_def sensor_lock_def sensor_unlock_def new_user_def zero_circbuf_def zero_user_def
        sensor_update_interval_def user_of_def update_interval_again.simps users_min_def finish_interval_def upd_user_def)
  show "rate_inv [] [] 0 0 0 (rate_topic sz)" "esize (state (rate_topic sz)) = sz"
    unfolding r using assms
    by (simp_all add: rate_inv_def topic_ok_def demo_lower_def no_ops_def wants_def user_of_def zero_user_def zero_circbuf_def)
qed

theorem sensor_rate_duplicate_witness:
  "fst (topic_run reader 0 [Publish [[1]], Publish [[2]], Take 1, Publish [[3]], Take 1] (rate_topic 1)) = [[], [], [2], [], [2]]"
proof -
  have r: "rate_inv [] [] 0 0 0 (rate_topic 1)" "esize (state (rate_topic 1)) = 1" using rate_topic_inv [of 1] by simp_all
  show ?thesis
    using sensor_rate_duplicate [OF r(1), of "[1]" "[2]" "[3]" reader] unfolding r(2) by simp
qed

text \<open>C33: A read with a buffer that is too small for one sample overruns it.  Two samples having been published, the
  subscriber of the topic above that passes a buffer of fewer bytes than a sample has gets the whole
  second sample stored there.\<close>

theorem sensor_short_read_overruns:
  assumes inv: "rate_inv [a, b] [4, 8] uid 0 0 up" and len: "0 < len" "len < esize (state up)"
  shows "fst (sensor_read flags uid False len up) = Some (Inr (esize (state up), b)) \<and> unat len < length b"
proof -
  have t: "topic_ok [a, b] [4, 8] (sensor_lock up)" and n: "unat (lower_nbuffer (lower (sensor_lock up))) = 2"
    and m: "min_interval (state (sensor_lock up)) = 4" and u: "wants 7 0 0 (user_of uid up)"
    using inv by (simp_all add: rate_inv_def)
  have "generation (state up) = 8" using topic_generation [OF t] by simp
  then have upd: "sensor_is_updated (sensor_lock up) (user_of uid up)"
    using u m by (simp add: sensor_is_updated_def wants_def Let_def)
  have "length b = unat (esize (state up))" using peek_sample(2) [OF t, of 1 1] n by simp
  then have "unat len < length b" using len(2) by (simp add: word_less_nat_alt)
  moreover have "sensor_do_samples (sensor_lock up) (user_of uid up) False len = ((esize (state up), b), picked 1 (sensor_catch_up (sensor_lock up) (user_of uid up)))"
    using rate_first_read(1) [OF t n m u, of len] len(2) by simp
  moreover have "topic_ok [a, b] [4, 8] up" "len \<noteq> 0" using t len(1) by (simp_all add: word_gt_0)
  ultimately show ?thesis using sensor_read_updated [OF _ _ upd, of _ _ len flags] by simp
qed

definition two_published :: "unit sensor_upperhalf_s" where
  "two_published = snd (topic_run reader 0 [Publish [[1, 2]], Publish [[3, 4]]] (rate_topic 2))"

lemma two_published_inv: "rate_inv [[1, 2], [3, 4]] [4, 8] 0 0 0 two_published" "esize (state two_published) = 2"
proof -
  have r: "rate_inv [] [] 0 0 0 (rate_topic 2)" "esize (state (rate_topic 2)) = 2" using rate_topic_inv [of 2] by simp_all
  define up1 where "up1 = snd (topic_step reader 0 (Publish [[1, 2]]) (rate_topic 2))"
  have 1: "rate_inv [[1, 2]] [4] 0 0 0 up1" "esize (state up1) = 2"
    using rate_publish [OF r(1), of "[1, 2]" reader] r(2) by (simp_all add: up1_def)
  have "two_published = snd (topic_step reader 0 (Publish [[3, 4]]) up1)"
    by (simp add: two_published_def case_prod_beta up1_def del: topic_step.simps)
  then show "rate_inv [[1, 2], [3, 4]] [4, 8] 0 0 0 two_published" "esize (state two_published) = 2"
    using rate_publish [OF 1(1), of "[3, 4]" reader] 1(2) by simp_all
qed

theorem sensor_short_read_overruns_witness:
  "fst (sensor_read reader 0 False 1 two_published) = Some (Inr (2, [3, 4]))"
  using sensor_short_read_overruns [OF two_published_inv(1), of 1 reader] two_published_inv(2) by simp

lemma is_updated_lock [simp]: "sensor_is_updated (sensor_lock up) u = sensor_is_updated up u"
  by (simp add: sensor_is_updated_def)

text \<open>C25: A subscriber with any rate of its own, whose position is in the buffer, gets with a read samples that were
  published, in order, and never more bytes than fit into the buffer it passes, provided that has room
  for at least one sample.\<close>

theorem sensor_rate_read_bounded:
  assumes t: "topic_ok hist gens up" and ne: "hist \<noteq> []" and iv: "interval (ustate (user_of uid up)) \<noteq> UINT32_MAX"
    and p: "unat (bufferpos (user_of uid up)) \<le> length hist" "length hist \<le> unat (bufferpos (user_of uid up)) + unat (lower_nbuffer (lower up))"
    and small: "Suc (length hist) * unat (esize (state up)) < 2 ^ 32"
    and upd: "sensor_is_updated up (user_of uid up)" and len: "unat (esize (state up)) \<le> unat len"
  shows "\<exists>xs ret. fst (sensor_read flags uid False len up) = Some (Inr (ret, concat xs)) \<and> subseq xs hist \<and>
    unat ret = length (concat xs) \<and> length (concat xs) \<le> unat len"
proof -
  have E: "0 < unat (esize (state up))" by (rule topic_okD(5) [OF t])
  obtain ret out u' where d: "sensor_do_samples (sensor_lock up) (user_of uid up) False len = ((ret, out), u')" by (metis surj_pair)
  have "topic_ok hist gens (sensor_lock up)" using t by simp
  from rate_samples [OF this iv ne _ _ _ d] p small obtain xs where
    xs: "out = concat xs" "subseq xs hist" "length out = length xs * unat (esize (state up))" "unat ret = length out"
      "length xs \<le> max 1 (unat len div unat (esize (state up)))" by auto
  have "1 \<le> unat len div unat (esize (state up))" using E len by (simp add: Suc_le_eq div_greater_zero_iff)
  then have "length xs \<le> unat len div unat (esize (state up))" using xs(5) by simp
  then have "length out \<le> unat len div unat (esize (state up)) * unat (esize (state up))"
    unfolding xs(3) by (intro mult_le_mono1)
  also have "\<dots> \<le> unat len" by simp
  finally have "length out \<le> unat len" .
  moreover have "len \<noteq> 0" using E len by auto
  then have "fst (sensor_read flags uid False len up) = Some (Inr (ret, out))"
    using sensor_read_updated [OF t ne, of uid len flags] upd by (simp add: d)
  ultimately show ?thesis using xs by (intro exI [of _ xs] exI [of _ ret]) simp
qed

theorem sensor_rate_read_bounded_witness:
  "\<exists>xs ret. fst (sensor_read reader 0 False 3 two_published) = Some (Inr (ret, concat xs)) \<and>
     subseq xs [[1, 2], [3, 4]] \<and> unat ret = length (concat xs) \<and> length (concat xs) \<le> 3"
proof -
  have t: "topic_ok [[1, 2], [3, 4]] [4, 8] two_published" and w: "wants 7 0 0 (user_of 0 two_published)"
    "lower_nbuffer (lower two_published) = 2" "min_interval (state two_published) = 4"
    using two_published_inv(1) by (simp_all add: rate_inv_def)
  have "generation (state two_published) = 8" using topic_generation [OF t] by simp
  then have "sensor_is_updated two_published (user_of 0 two_published)"
    using w by (simp add: sensor_is_updated_def wants_def Let_def)
  then show ?thesis
    using sensor_rate_read_bounded [OF t, of 0 3 reader] w two_published_inv(2) by (simp add: wants_def)
qed

end
