(* ===== verification/Sensor_Lock.thy ===== *)
theory Sensor_Lock
  imports Sensor_Stream
begin

text \<open>
  The lock of a topic.  Every operation of the sensor driver is to leave it as it found it, on every
  path; the driver's callbacks run without it.
\<close>

section \<open>The parts of the operations\<close>

lemma lock_parts [simp]:
  "lock (set_dev d up) = lock up" "lock (set_state f up) = lock up" "lock (sensor_pollnotify e q up) = lock up"
  "lock (set_latency uid l up) = lock up" "lock (count_open flags up) = lock up" "lock (snd (dcall dc r up)) = lock up"
  "lock (snd (sensor_fetch g len up)) = lock up" "lock (snd (sensor_init_buffers mb mt up)) = lock up"
  "lock (snd (sensor_read_buffered uid null len up)) = lock up"
  by (simp_all add: set_dev_def set_state_def sensor_pollnotify_def set_latency_def count_open_def Let_def dcall_def sensor_fetch_def
      sensor_init_buffers_def sensor_read_buffered_def split: option.splits prod.splits sum.splits)

lemma lock_count_close [simp]: "lock (count_close flags up) = lock up"
  by (simp add: count_close_def Let_def)

lemma lock_dcall: "dcall f r up = (r', up') \<Longrightarrow> lock up' = lock up"
  using lock_parts(6) [of f r up] by simp

lemma lock_finish [simp]:
  "lock (finish_interval uid iv mi up) = lock up - 1" "lock (finish_latency uid lat ml up) = lock up - 1"
  by (simp_all add: finish_interval_def finish_latency_def)

lemma lock_flush: "lock (snd (sensor_flush flags uid up)) = lock up"
  by (simp add: sensor_flush_def lock_dcall split: prod.splits sum.splits)

text \<open>What other threads do while the driver is called does not change how often this thread holds the lock.\<close>

definition keeps_lock :: "('d sensor_upperhalf_s \<Rightarrow> 'd sensor_upperhalf_s) \<Rightarrow> bool" where
  "keeps_lock others \<longleftrightarrow> (\<forall>up. lock (others up) = lock up)"

lemma lock_batch:
  assumes "keeps_lock others" "0 < lock up" "interval_batch others mi ml ret up = (again, ml', ret', up')"
  shows "lock up' = lock up"
  using assms by (auto simp: interval_batch_def Let_def keeps_lock_def split: option.splits prod.splits sum.splits if_splits)

lemma lock_update_interval_again:
  fixes up :: "'d sensor_upperhalf_s"
  assumes "keeps_lock others" "0 < lock up" "update_interval_again others uid iv mi ml ret up = Some (r, up')"
  shows "lock up' = lock up - 1"
proof -
  define P where "P = (\<lambda>(others :: 'd sensor_upperhalf_s \<Rightarrow> 'd sensor_upperhalf_s) (uid :: nat) (iv :: u32) (mi :: u32) (ml :: u32) (ret :: u32 res) (up :: 'd sensor_upperhalf_s)
      (res :: u32 res \<times> 'd sensor_upperhalf_s). keeps_lock others \<longrightarrow> 0 < lock up \<longrightarrow> lock (snd res) = lock up - 1)"
  have "P others uid iv mi ml ret up (r, up')"
  proof (rule update_interval_again.raw_induct [of P, OF _ assms(3)], goal_cases)
    case (1 rec others uid iv mi ml ret up res)
    have IH: "lock (snd y) = lock x - 1" if "rec others uid iv mi' ml' ret' x = Some y" "0 < lock x" "keeps_lock others" for mi' ml' ret' x y
      using 1(1) [OF that(1)] that(2,3) by (simp add: P_def)
    show ?case unfolding P_def
    proof (intro impI)
      assume k: "keeps_lock others" and l: "0 < lock up"
      have o: "lock (others x) = lock x" for x using k by (simp add: keeps_lock_def)
      have IH': "lock (snd y) = lock up - Suc 0" if "rec others uid iv mi' ml' ret' x = Some y" "lock x = lock up" for mi' ml' ret' x y
        using IH [OF that(1) _ k] that(2) l by simp
      have b1: "lock w = lock up" if "interval_batch others a b c up = (x, y, z, w)" for a b c x y z w
        using lock_batch [OF k l that] .
      have b2: "lock w = lock up"
        if "interval_batch others a b c (sensor_lock (others (set_dev d (sensor_unlock up)))) = (x, y, z, w)" for a b c d x y z w
        using lock_batch [OF k _ that] l by (simp add: o)
      show "lock (snd res) = lock up - 1"
        using 1(2) l by (auto simp: Let_def o dest!: b1 b2 IH' split: prod.splits option.splits sum.splits if_splits)
    qed
  qed
  then show ?thesis using assms by (simp add: P_def)
qed

lemma lock_update_latency_again:
  fixes up :: "'d sensor_upperhalf_s"
  assumes "keeps_lock others" "0 < lock up" "update_latency_again others uid lat ml ret up = Some (r, up')"
  shows "lock up' = lock up - 1"
proof -
  define P where "P = (\<lambda>(others :: 'd sensor_upperhalf_s \<Rightarrow> 'd sensor_upperhalf_s) (uid :: nat) (lat :: u32) (ml :: u32) (ret :: u32 res)
      (up :: 'd sensor_upperhalf_s) (res :: u32 res \<times> 'd sensor_upperhalf_s).
      keeps_lock others \<longrightarrow> 0 < lock up \<longrightarrow> lock (snd res) = lock up - 1)"
  have "P others uid lat ml ret up (r, up')"
  proof (rule update_latency_again.raw_induct [of P, OF _ assms(3)], goal_cases)
    case (1 rec others uid lat ml ret up res)
    have IH: "lock (snd y) = lock x - 1" if "rec others uid lat ml' ret' x = Some y" "0 < lock x" "keeps_lock others" for ml' ret' x y
      using 1(1) [OF that(1)] that(2,3) by (simp add: P_def)
    show ?case unfolding P_def
    proof (intro impI)
      assume k: "keeps_lock others" and l: "0 < lock up"
      have o: "lock (others x) = lock x" for x using k by (simp add: keeps_lock_def)
      show "lock (snd res) = lock up - 1"
        using 1(2) l k IH by (auto simp: Let_def o split: prod.splits option.splits sum.splits if_splits)
    qed
  qed
  then show ?thesis using assms by (simp add: P_def)
qed

section \<open>The operations\<close>

lemma lock_update:
  assumes "keeps_lock others"
  shows "sensor_update_interval others uid iv up = Some (r, up') \<Longrightarrow> lock up' = lock up"
    "sensor_update_latency others uid lat up = Some (r, up') \<Longrightarrow> lock up' = lock up"
    "lock (sensor_update_nonwakeup uid nw up) = lock up"
  using lock_update_interval_again [OF assms, of "sensor_lock up"] lock_update_latency_again [OF assms, of "sensor_lock up"]
  by (fastforce simp: sensor_update_interval_def sensor_update_latency_def sensor_update_nonwakeup_def Let_def
      split: if_splits option.splits)+

lemma lock_open: "lock (snd (sensor_open flags uid mem up)) = lock up"
  by (auto simp: sensor_open_def Let_def dest!: lock_dcall split: prod.splits sum.splits if_splits)

lemma lock_close:
  assumes "keeps_lock others" "sensor_close others flags uid up = Some (r, up')"
  shows "lock up' = lock up"
  using assms(2) lock_update(1,2) [OF assms(1)] lock_update(3) [OF assms(1)]
  by (auto simp: sensor_close_def Let_def split: option.splits prod.splits if_splits)

lemma lock_init: "sensor_init_buffers mb mt up = (r, up') \<Longrightarrow> lock up' = lock up"
  using lock_parts(8) [of mb mt up] by simp

lemma lock_push: "lock (snd (sensor_push_event mb mt d up)) = lock up" "lock (sensor_notify_event up) = lock up"
    "lock (snd (sensor_write mb mt d up)) = lock up"
proof -
  show p: "lock (snd (sensor_push_event mb mt d up)) = lock up"
    by (auto simp: sensor_push_event_def Let_def dest!: lock_init split: prod.splits sum.splits)
  show n: "lock (sensor_notify_event up) = lock up" by (simp add: sensor_notify_event_def)
  show "lock (snd (sensor_write mb mt d up)) = lock up" using p n by (simp add: sensor_write_def case_prod_beta)
qed

lemma lock_poll: "lock (snd (sensor_poll flags uid pfd setup up)) = lock up"
  by (simp add: sensor_poll_def Let_def)

lemma lock_need_op: "need_op f e up = Some (r, up') \<Longrightarrow> lock up' = lock up"
  by (auto simp: need_op_def dest: lock_dcall split: prod.splits)

lemma lock_ioctl:
  assumes "keeps_lock others" "sensor_ioctl others flags uid cmd up = Some (r, up')"
  shows "lock up' = lock up"
  using assms(2) lock_update [OF assms(1)] lock_flush [of flags uid up]
  by (cases cmd) (auto simp: Let_def dest: lock_need_op split: if_splits prod.splits)

lemma lock_read:
  assumes "null \<Longrightarrow> op_fetch (ops (lower up)) = None"
  shows "lock (snd (sensor_read flags uid null len up)) = lock up"
  using assms lock_parts(7) [of _ len] lock_parts(9) [of uid null len "sensor_lock up"]
  by (auto simp: sensor_read_def sensor_read_woken_def Let_def case_prod_beta split: option.splits)

section \<open>Properties\<close>

text \<open>C26: Every operation on a topic returns with its lock as it found it, on all paths, whatever the driver and other
  threads do in between, with one exception: a read that passes no buffer to a driver with \<^verbatim>\<open>fetch\<close>
  fails with the lock still held.\<close>

theorem sensor_lock_balanced:
  assumes "keeps_lock others"
  shows "lock (snd (sensor_open flags uid mem up)) = lock up \<and>
    (\<forall>r up'. sensor_close others flags uid up = Some (r, up') \<longrightarrow> lock up' = lock up) \<and>
    (\<forall>r up'. sensor_ioctl others flags uid cmd up = Some (r, up') \<longrightarrow> lock up' = lock up) \<and>
    lock (snd (sensor_write mb mt d up)) = lock up \<and> lock (snd (sensor_poll flags uid pfd setup up)) = lock up \<and>
    (len \<noteq> 0 \<longrightarrow> (if null \<and> op_fetch (ops (lower up)) \<noteq> None
       then sensor_read flags uid null len up = (Some (Inl EINVAL), sensor_lock up)
       else lock (snd (sensor_read flags uid null len up)) = lock up))"
proof -
  have "sensor_read flags uid null len up = (Some (Inl EINVAL), sensor_lock up)"
    if "null" "op_fetch (ops (lower up)) \<noteq> None" "len \<noteq> 0"
    using that by (auto simp: sensor_read_def)
  moreover have "lock (snd (sensor_read flags uid null len up)) = lock up" if "\<not> (null \<and> op_fetch (ops (lower up)) \<noteq> None)"
    using that by (intro lock_read) auto
  ultimately have rd: "len \<noteq> 0 \<longrightarrow> (if null \<and> op_fetch (ops (lower up)) \<noteq> None
       then sensor_read flags uid null len up = (Some (Inl EINVAL), sensor_lock up)
       else lock (snd (sensor_read flags uid null len up)) = lock up)" by simp
  show ?thesis
    by (intro conjI rd lock_open lock_push lock_poll) (blast intro: lock_close [OF assms] lock_ioctl [OF assms])+
qed

text \<open>A topic whose driver delivers the data itself.\<close>

definition fetch_topic :: "unit sensor_upperhalf_s" where
  "fetch_topic =
     (case sensor_custom_register True OK 2 (demo_lower\<lparr>ops := no_ops\<lparr>op_fetch := Some (\<lambda>n d. (Inr [1, 2], d))\<rparr>\<rparr>) of
        Inr up \<Rightarrow> snd (sensor_open reader 0 True up))"

theorem sensor_lock_balanced_witness:
  "lock fetch_topic = 0 \<and> fst (sensor_read reader 0 True 2 fetch_topic) = Some (Inl EINVAL) \<and>
   lock (snd (sensor_read reader 0 True 2 fetch_topic)) = 1"
proof -
  have f: "lock fetch_topic = 0" "op_fetch (ops (lower fetch_topic)) \<noteq> None"
    by (simp_all add: fetch_topic_def sensor_custom_register_def demo_lower_def no_ops_def Let_def sensor_open_def reader_def
        dcall_def count_open_def set_state_def sensor_pollnotify_def sensor_lock_def sensor_unlock_def)
  show ?thesis
    using sensor_lock_balanced [of id reader 0 True fetch_topic SNIOC_UPDATED None None "[]" "\<lparr>events = 0, revents = 0, has_cb = False, notified = 0\<rparr>" True 2 True] f
    by (simp add: keeps_lock_def)
qed

end
