(* ===== verification/Uart_Ring.thy ===== *)
theory Uart_Ring
  imports Fifo
begin

text \<open>
  The rings of the serial driver (\<^verbatim>\<open>struct uart_buffer_s\<close> of \<^verbatim>\<open>nuttx/include/nuttx/serial/serial.h\<close>), the statements
  by which the driver puts a character in and takes one out, and the proof that they implement a bounded
  queue.  One slot of a ring always stays free, so that equal indices mean an empty ring.
\<close>

section \<open>The ring\<close>

text \<open>
  The indices have the type \<^verbatim>\<open>int16_t\<close>; they stay below the size, which is at most 32767.
  \<open>lock\<close> is the address of the mutex of the ring.
\<close>

record uart_buffer_s =
  lock :: nat
  head :: nat
  tail :: nat
  size :: nat
  buffer :: "u8 list"

text \<open>The statements that add a character: the next head, the test, the store and the new head.\<close>

definition nexthead :: "uart_buffer_s \<Rightarrow> nat" where
  "nexthead b = (if head b + 1 \<ge> size b then 0 else head b + 1)"

definition store_char :: "u8 \<Rightarrow> uart_buffer_s \<Rightarrow> uart_buffer_s" where
  "store_char ch b = b\<lparr>buffer := (buffer b)[head b := ch]\<rparr>"

definition set_head :: "nat \<Rightarrow> uart_buffer_s \<Rightarrow> uart_buffer_s" where
  "set_head nh b = b\<lparr>head := nh\<rparr>"

definition add_char :: "u8 \<Rightarrow> uart_buffer_s \<Rightarrow> bool \<times> uart_buffer_s" where
  "add_char ch b =
     (let nh = nexthead b
      in if nh \<noteq> tail b then (True, set_head nh (store_char ch b)) else (False, b))"

text \<open>Taking the next character from the tail.\<close>

definition take_char :: "uart_buffer_s \<Rightarrow> u8 option \<times> uart_buffer_s" where
  "take_char b =
     (if head b \<noteq> tail b
      then (Some (buffer b ! tail b), b\<lparr>tail := (if tail b + 1 \<ge> size b then 0 else tail b + 1)\<rparr>)
      else (None, b))"

text \<open>The number of characters in a ring and the room in it, as the driver computes them.\<close>

definition ring_count :: "uart_buffer_s \<Rightarrow> nat" where
  "ring_count b = (if tail b \<le> head b then head b - tail b else size b - (tail b - head b))"

definition ring_space :: "uart_buffer_s \<Rightarrow> nat" where
  "ring_space b = (if head b < tail b then tail b - head b - 1 else size b - (head b - tail b) - 1)"

definition flush_ring :: "uart_buffer_s \<Rightarrow> uart_buffer_s" where
  "flush_ring b = b\<lparr>tail := head b\<rparr>"

section \<open>The ring is a bounded queue\<close>

definition ring_ok :: "uart_buffer_s \<Rightarrow> bool" where
  "ring_ok b \<longleftrightarrow> length (buffer b) = size b \<and> head b < size b \<and> tail b < size b \<and> size b \<le> 32767"

definition chars :: "uart_buffer_s \<Rightarrow> u8 list" where
  "chars b = ring_list (buffer b) (tail b) (ring_count b)"

lemma length_chars [simp]: "length (chars b) = ring_count b"
  by (simp add: chars_def)

lemma ring_count_less: "ring_ok b \<Longrightarrow> ring_count b < size b"
  by (auto simp: ring_ok_def ring_count_def)

lemma ring_space_count: "ring_ok b \<Longrightarrow> ring_space b = size b - 1 - length (chars b)"
  by (auto simp: ring_ok_def ring_count_def ring_space_def)

lemma chars_empty: "ring_ok b \<Longrightarrow> chars b = [] \<longleftrightarrow> head b = tail b"
  by (auto simp: ring_ok_def ring_count_def chars_def ring_list_def)

lemma flush_ring_ok: "ring_ok b \<Longrightarrow> ring_ok (flush_ring b) \<and> chars (flush_ring b) = []"
  by (simp add: ring_ok_def flush_ring_def chars_def ring_count_def)

lemma nexthead_tail: "ring_ok b \<Longrightarrow> nexthead b = tail b \<longleftrightarrow> Suc (ring_count b) = size b"
  by (auto simp: ring_ok_def ring_count_def nexthead_def)

lemma head_index:
  assumes "ring_ok b"
  shows "(tail b + ring_count b) mod size b = head b"
proof (cases "tail b \<le> head b")
  case False
  then have "tail b + ring_count b = head b + size b" using assms by (auto simp: ring_ok_def ring_count_def)
  then show ?thesis using assms by (simp add: ring_ok_def)
qed (use assms in \<open>simp add: ring_ok_def ring_count_def\<close>)

lemma ring_count_set_head:
  assumes "ring_ok b" "nexthead b \<noteq> tail b"
  shows "ring_count (set_head (nexthead b) (store_char ch b)) = Suc (ring_count b)"
    and "ring_ok (set_head (nexthead b) (store_char ch b))"
  using assms
  by (auto simp: ring_ok_def ring_count_def nexthead_def set_head_def store_char_def split: if_splits)

lemma add_char_ok:
  assumes "ring_ok b" "nexthead b \<noteq> tail b"
  shows "chars (set_head (nexthead b) (store_char ch b)) = chars b @ [ch]"
proof -
  have less: "ring_count b < size b" "length (buffer b) = size b"
    using ring_count_less [OF assms(1)] assms(1) by (simp_all add: ring_ok_def)
  have "chars (set_head (nexthead b) (store_char ch b)) =
      ring_list ((buffer b)[head b := ch]) (tail b) (Suc (ring_count b))"
    unfolding chars_def ring_count_set_head(1) [OF assms] by (simp add: set_head_def store_char_def)
  also have "\<dots> = chars b @ [ch]"
    using ring_list_snoc [of "ring_count b" "buffer b" "head b" "tail b" ch] head_index [OF assms(1)] less assms(1)
    by (simp add: chars_def ring_ok_def)
  finally show ?thesis .
qed

lemma take_char_ok:
  assumes "ring_ok b" "head b \<noteq> tail b"
  shows "fst (take_char b) = Some (hd (chars b))" "chars (snd (take_char b)) = tl (chars b)"
    "ring_ok (snd (take_char b))"
proof -
  let ?t = "if tail b + 1 \<ge> size b then 0 else tail b + 1"
  have cnt: "ring_count b = Suc (ring_count (snd (take_char b)))"
    and ok: "ring_ok (snd (take_char b))"
    using assms by (auto simp: ring_ok_def ring_count_def take_char_def)
  show "ring_ok (snd (take_char b))" by (rule ok)
  have len: "length (buffer b) = size b" "tail b < size b" using assms(1) by (simp_all add: ring_ok_def)
  have mod: "Suc (tail b) mod length (buffer b) = ?t mod length (buffer b)"
    using len by (cases "Suc (tail b) = size b") auto
  have l: "chars b = buffer b ! tail b # ring_list (buffer b) (Suc (tail b)) (ring_count (snd (take_char b)))"
    using ring_list_Suc [of "buffer b" "tail b"] len by (simp add: chars_def cnt)
  then show "fst (take_char b) = Some (hd (chars b))" using assms(2) by (simp add: take_char_def)
  have "chars (snd (take_char b)) = ring_list (buffer b) ?t (ring_count (snd (take_char b)))"
    using assms(2) by (simp add: chars_def take_char_def)
  then show "chars (snd (take_char b)) = tl (chars b)"
    using l ring_list_cong_pos [OF mod] by simp
qed

interpretation uaq: bounded_fifo add_char take_char chars ring_ok "\<lambda>b. size b - 1"
proof (unfold_locales, goal_cases)
  case (1 s)
  then show ?case using ring_count_less [of s] by simp
next
  case (2 s x)
  then have "nexthead s \<noteq> tail s" using nexthead_tail [of s] by simp
  with 2(1) show ?case
    using add_char_ok [of s x] ring_count_set_head(2) [of s x]
    by (simp add: add_char_def Let_def) (simp add: set_head_def store_char_def)
next
  case (3 s x)
  then have "nexthead s = tail s" using nexthead_tail [of s] ring_count_less [of s] by simp
  then show ?case by (simp add: add_char_def)
next
  case (4 s x xs)
  then have "head s \<noteq> tail s" using chars_empty [of s] by simp
  with 4 take_char_ok [OF 4(1)] show ?case by (simp add: take_char_def)
next
  case (5 s)
  then show ?case using chars_empty [of s] by (simp add: take_char_def)
qed

section \<open>Adding several characters\<close>

fun add_chars :: "u8 list \<Rightarrow> uart_buffer_s \<Rightarrow> uart_buffer_s" where
  "add_chars [] b = b"
| "add_chars (c # cs) b = add_chars cs (snd (add_char c b))"

lemma add_char_frame:
  "size (snd (add_char c b)) = size b" "tail (snd (add_char c b)) = tail b" "lock (snd (add_char c b)) = lock b"
  by (simp_all add: add_char_def Let_def set_head_def store_char_def)

lemma take_char_frame:
  "size (snd (take_char b)) = size b" "head (snd (take_char b)) = head b" "lock (snd (take_char b)) = lock b"
  by (simp_all add: take_char_def)

text \<open>What does not fit is dropped, the newest first.\<close>

lemma add_chars_ok:
  assumes "ring_ok b"
  shows "ring_ok (add_chars cs b) \<and> chars (add_chars cs b) = chars b @ take (size b - 1 - length (chars b)) cs \<and>
    size (add_chars cs b) = size b \<and> lock (add_chars cs b) = lock b"
  using assms
proof (induction cs arbitrary: b)
  case (Cons c cs)
  from Cons.prems show ?case
  proof (cases rule: uaq.put_cases [of b c])
    case ok
    with Cons.IH [OF ok(2)] have IH: "ring_ok (add_chars cs (snd (add_char c b)))"
        "chars (add_chars cs (snd (add_char c b))) =
          (chars b @ [c]) @ take (size b - 1 - length (chars b @ [c])) cs"
      by (simp_all add: add_char_frame)
    have "size b - 1 - length (chars b) = Suc (size b - 1 - length (chars b @ [c]))" using ok(5) by simp
    with IH show ?thesis using Cons.IH [OF ok(2)] by (simp add: add_char_frame)
  next
    case full
    with Cons.IH [OF Cons.prems] show ?thesis by simp
  qed
qed simp

section \<open>Two tasks that add to a ring\<close>

lemma take_ring_list: "m \<le> n \<Longrightarrow> take m (ring_list mem pos n) = ring_list mem pos m"
  by (simp add: ring_list_def take_map)

lemma tail_add_chars [simp]: "tail (add_chars cs b) = tail b"
  by (induction cs arbitrary: b) (simp_all add: add_char_frame)

text \<open>
  C37: Two tasks that add characters without a common lock, as a writer and the echo of a reader do, can lose them.
  A task has found room and computed the next head for its character \<open>a\<close>; before it stores
  the character others add \<open>cs\<close>.  When it continues, only the first of \<open>cs\<close> is left in the ring: the others
  and \<open>a\<close> are lost.\<close>

theorem interleaved_put_loses:
  assumes "ring_ok b" "cs \<noteq> []" "length cs + ring_count b < size b"
  shows "chars (set_head (nexthead b) (store_char a (add_chars cs b))) = chars b @ [hd cs]"
proof -
  let ?c = "add_chars cs b" and ?d = "set_head (nexthead b) (store_char a (add_chars cs b))"
  note c = add_chars_ok [OF assms(1), of cs]
  have room: "nexthead b \<noteq> tail b" using nexthead_tail [OF assms(1)] assms(2,3) by (cases cs) auto
  have chars: "chars ?c = chars b @ cs" using c assms(3) by simp
  then have cnt: "ring_count ?c = ring_count b + length cs" by (metis length_append length_chars)
  have "size ?c = size b" using c by blast
  then have "ring_count ?d = ring_count (set_head (nexthead b) (store_char a b))"
    unfolding ring_count_def by (simp add: set_head_def store_char_def)
  then have n: "ring_count ?d = Suc (ring_count b)" using ring_count_set_head(1) [OF assms(1) room] by simp
  have "ring_list (buffer ?d) (tail b) (Suc (ring_count ?c)) = chars ?c @ [a]"
    using ring_list_snoc [of "ring_count ?c" "buffer ?c" "head ?c" "tail b" a] head_index [of ?c] c cnt assms(3)
    by (simp add: set_head_def store_char_def chars_def ring_ok_def)
  then have "ring_list (buffer ?d) (tail b) (Suc (ring_count b)) = take (Suc (ring_count b)) (chars b @ cs @ [a])"
    using take_ring_list [of "Suc (ring_count b)" "Suc (ring_count ?c)" "buffer ?d" "tail b"] cnt chars by simp
  moreover have "tail ?d = tail b" by (simp add: set_head_def store_char_def)
  ultimately have "chars ?d = take (Suc (ring_count b)) (chars b @ cs @ [a])" by (simp add: chars_def [of ?d] n)
  also have "\<dots> = chars b @ [hd cs]" using assms(2) by (cases cs) simp_all
  finally show ?thesis .
qed

theorem interleaved_put_loses_witness:
  "chars (set_head (nexthead \<lparr>lock = 0, head = 0, tail = 0, size = 4, buffer = [0, 0, 0, 0]\<rparr>)
     (store_char 65 (add_chars [13, 10] \<lparr>lock = 0, head = 0, tail = 0, size = 4, buffer = [0, 0, 0, 0]\<rparr>))) = [13]"
  using interleaved_put_loses [of "\<lparr>lock = 0, head = 0, tail = 0, size = 4, buffer = [0, 0, 0, 0]\<rparr>" "[13, 10]" 65]
  by (simp add: ring_ok_def ring_count_def chars_def)

end
