(* ===== verification/Uio.thy ===== *)
theory Uio
  imports NxPrelude
begin

text \<open>
  Requests for several buffers at once (\<^verbatim>\<open>nuttx/fs/vfs/fs_uio.c\<close>): the read and write functions of a driver
  see the buffers of the caller through a position and copy bytes from and to it.  The contract is that
  the buffers behave like a single one, their concatenation.
\<close>

section \<open>Requests\<close>

definition SSIZE_MAX :: nat where
  "SSIZE_MAX = 2 ^ 31 - 1"

text \<open>
  A buffer is the list of its bytes, so \<^verbatim>\<open>iov_len\<close> is its length.  The pointer \<^verbatim>\<open>uio_iov\<close> splits the array
  of buffers in the ones that are done and the others.  All sizes are at most \<open>SSIZE_MAX\<close>, which
  \<open>uio_init\<close> makes sure of, so the arithmetic does not wrap around.
\<close>

record uio =
  uio_done :: "u8 list list"
  uio_iov :: "u8 list list"
  uio_resid :: nat
  uio_offset_in_iov :: nat

fun calc_resid_loop :: "nat \<Rightarrow> u8 list list \<Rightarrow> nat res" where
  "calc_resid_loop len [] = Inr len"
| "calc_resid_loop len (v # iov) =
     (if SSIZE_MAX - len < length v then Inl EINVAL else calc_resid_loop (len + length v) iov)"

definition uio_calc_resid :: "u8 list list \<Rightarrow> nat res" where
  "uio_calc_resid = calc_resid_loop 0"

definition uio_init :: "u8 list list \<Rightarrow> unit res \<times> uio" where
  "uio_init iov =
     (let u = \<lparr>uio_done = [], uio_iov = iov, uio_resid = 0, uio_offset_in_iov = 0\<rparr>
      in case uio_calc_resid iov of
           Inl e \<Rightarrow> (Inl e, u)
         | Inr resid \<Rightarrow> (OK, u\<lparr>uio_resid := resid\<rparr>))"

fun advance_loop :: "nat \<Rightarrow> nat \<Rightarrow> u8 list list \<Rightarrow> u8 list list \<Rightarrow> u8 list list \<times> u8 list list \<times> nat" where
  "advance_loop sz off past [] = (past, [], off)"
| "advance_loop sz off past (v # iov) =
     (if sz < length v - off then (past, v # iov, off + sz)
      else advance_loop (sz - (length v - off)) 0 (past @ [v]) iov)"

definition uio_advance :: "nat \<Rightarrow> uio \<Rightarrow> uio" where
  "uio_advance sz u =
     (case advance_loop sz (uio_offset_in_iov u) (uio_done u) (uio_iov u) of
        (past, iov, off) \<Rightarrow>
          \<lparr>uio_done = past, uio_iov = iov, uio_resid = uio_resid u - sz, uio_offset_in_iov = off\<rparr>)"

text \<open>The second loop of the copies: one buffer at a time, the first from an offset.\<close>

fun copyfrom_loop :: "u8 list list \<Rightarrow> nat \<Rightarrow> u8 list \<Rightarrow> u8 list list" where
  "copyfrom_loop [] off buf = []"
| "copyfrom_loop (v # iov) off buf =
     (if buf = [] then v # iov
      else let blen = min (length buf) (length v - off)
           in memcpy_at v off (take blen buf) # copyfrom_loop iov 0 (drop blen buf))"

fun copyto_loop :: "u8 list list \<Rightarrow> nat \<Rightarrow> nat \<Rightarrow> u8 list" where
  "copyto_loop [] off len = []"
| "copyto_loop (v # iov) off len =
     (if len = 0 then []
      else let blen = min len (length v - off)
           in take blen (drop off v) @ copyto_loop iov 0 (len - blen))"

text \<open>The first loop looks for the buffer that has the offset.\<close>

fun copyfrom_skip :: "u8 list list \<Rightarrow> nat \<Rightarrow> u8 list \<Rightarrow> u8 list list" where
  "copyfrom_skip [] off buf = []"
| "copyfrom_skip (v # iov) off buf =
     (if length v < off then v # copyfrom_skip iov (off - length v) buf
      else copyfrom_loop (v # iov) off buf)"

fun copyto_skip :: "u8 list list \<Rightarrow> nat \<Rightarrow> nat \<Rightarrow> u8 list" where
  "copyto_skip [] off len = []"
| "copyto_skip (v # iov) off len =
     (if length v < off then copyto_skip iov (off - length v) len else copyto_loop (v # iov) off len)"

definition uio_copyfrom :: "nat \<Rightarrow> u8 list \<Rightarrow> uio \<Rightarrow> uio" where
  "uio_copyfrom offset buf u =
     u\<lparr>uio_iov := copyfrom_skip (uio_iov u) (offset + uio_offset_in_iov u) buf\<rparr>"

definition uio_copyto :: "nat \<Rightarrow> nat \<Rightarrow> uio \<Rightarrow> u8 list" where
  "uio_copyto offset len u = copyto_skip (uio_iov u) (offset + uio_offset_in_iov u) len"

section \<open>One buffer\<close>

text \<open>
  \<open>uio_ok\<close> is what the functions assert.  \<open>uio_mem\<close> is the memory of the whole request, \<open>uio_flat\<close> what is
  left of it, and \<open>uio_pos\<close> the position between them.
\<close>

definition uio_ok :: "uio \<Rightarrow> bool" where
  "uio_ok u \<longleftrightarrow> uio_offset_in_iov u + uio_resid u = length (concat (uio_iov u)) \<and>
     (case uio_iov u of [] \<Rightarrow> True | v # _ \<Rightarrow> uio_offset_in_iov u \<le> length v)"

definition uio_flat :: "uio \<Rightarrow> u8 list" where
  "uio_flat u = drop (uio_offset_in_iov u) (concat (uio_iov u))"

definition uio_pos :: "uio \<Rightarrow> nat" where
  "uio_pos u = length (concat (uio_done u)) + uio_offset_in_iov u"

definition uio_mem :: "uio \<Rightarrow> u8 list" where
  "uio_mem u = concat (uio_done u) @ concat (uio_iov u)"

lemma length_uio_flat: "uio_ok u \<Longrightarrow> length (uio_flat u) = uio_resid u"
  unfolding uio_ok_def uio_flat_def length_drop by linarith

lemma uio_mem_pos: "uio_flat u = drop (uio_pos u) (uio_mem u)"
  by (simp add: uio_flat_def uio_pos_def uio_mem_def)

lemma calc_resid_loop_spec:
  "len \<le> SSIZE_MAX \<Longrightarrow> calc_resid_loop len iov =
     (if len + length (concat iov) \<le> SSIZE_MAX then Inr (len + length (concat iov)) else Inl EINVAL)"
  by (induction len iov rule: calc_resid_loop.induct) auto

lemma uio_init_ok:
  assumes "uio_init iov = (r, u)"
  shows "r = (if length (concat iov) \<le> SSIZE_MAX then OK else Inl EINVAL)"
    and "r = OK \<Longrightarrow> uio_ok u \<and> uio_flat u = concat iov \<and> uio_pos u = 0"
  using assms calc_resid_loop_spec [of 0 iov]
  by (auto simp: uio_init_def uio_calc_resid_def uio_ok_def uio_flat_def uio_pos_def Let_def
      split: if_splits list.splits)

lemma copyfrom_loop_concat:
  assumes "off + length buf \<le> length (concat iov)" "case iov of [] \<Rightarrow> True | v # _ \<Rightarrow> off \<le> length v"
  shows "concat (copyfrom_loop iov off buf) = memcpy_at (concat iov) off buf \<and>
    map length (copyfrom_loop iov off buf) = map length iov"
  using assms
proof (induction iov off buf rule: copyfrom_loop.induct)
  case (2 v iov off buf)
  show ?case
  proof (cases "buf = []")
    case False
    define blen where "blen = min (length buf) (length v - off)"
    have IH: "concat (copyfrom_loop iov 0 (drop blen buf)) = memcpy_at (concat iov) 0 (drop blen buf) \<and>
        map length (copyfrom_loop iov 0 (drop blen buf)) = map length iov"
      using 2 False by (intro 2(1)) (auto simp: blen_def split: list.splits)
    have "memcpy_at v off (take blen buf) @ memcpy_at (concat iov) 0 (drop blen buf) =
        memcpy_at (v @ concat iov) off buf"
    proof (cases "length buf \<le> length v - off")
      case True
      then show ?thesis using 2(3) by (simp add: memcpy_at_def blen_def)
    next
      case False
      then have "length buf + off - length v = length buf - (length v - off)" using 2(3) by simp
      with False show ?thesis using 2(3)
        by (simp add: memcpy_at_def blen_def add.commute)
    qed
    then show ?thesis using False IH 2(3) by (simp add: blen_def [symmetric] Let_def) (simp add: blen_def)
  qed simp
qed (simp add: memcpy_at_def)

lemma copyfrom_skip_concat:
  assumes "off + length buf \<le> length (concat iov)"
  shows "concat (copyfrom_skip iov off buf) = memcpy_at (concat iov) off buf \<and>
    map length (copyfrom_skip iov off buf) = map length iov"
  using assms
proof (induction iov off buf rule: copyfrom_skip.induct)
  case (2 v iov off buf)
  show ?case
  proof (cases "length v < off")
    case True
    with 2 have "concat (copyfrom_skip iov (off - length v) buf) = memcpy_at (concat iov) (off - length v) buf \<and>
        map length (copyfrom_skip iov (off - length v) buf) = map length iov" by simp
    with True show ?thesis by (simp add: memcpy_at_def)
  next
    case False
    with 2 copyfrom_loop_concat [of off buf "v # iov"] show ?thesis by simp
  qed
qed (simp add: memcpy_at_def)

lemma copyto_loop_concat:
  assumes "off + len \<le> length (concat iov)" "case iov of [] \<Rightarrow> True | v # _ \<Rightarrow> off \<le> length v"
  shows "copyto_loop iov off len = take len (drop off (concat iov))"
  using assms
proof (induction iov off len rule: copyto_loop.induct)
  case (2 v iov off len)
  show ?case
  proof (cases "len = 0")
    case False
    define blen where "blen = min len (length v - off)"
    have "copyto_loop iov 0 (len - blen) = take (len - blen) (drop 0 (concat iov))"
      using 2 False by (intro 2(1)) (auto simp: blen_def split: list.splits)
    moreover have "len - blen = len + off - length v" using 2(3) by (simp add: blen_def min_def)
    ultimately show ?thesis using False 2(3) by (simp add: blen_def [symmetric] Let_def) (simp add: blen_def min_def)
  qed simp
qed simp

lemma copyto_skip_concat:
  "off + len \<le> length (concat iov) \<Longrightarrow> copyto_skip iov off len = take len (drop off (concat iov))"
proof (induction iov off len rule: copyto_skip.induct)
  case (2 v iov off len)
  then show ?case using copyto_loop_concat [of off len "v # iov"] by (cases "length v < off") auto
qed simp

lemma advance_loop_concat:
  assumes "advance_loop sz off past iov = (past', iov', off')" "off + sz \<le> length (concat iov)"
    "case iov of [] \<Rightarrow> True | v # _ \<Rightarrow> off \<le> length v"
  shows "concat past' @ concat iov' = concat past @ concat iov"
    and "length (concat past') + off' = length (concat past) + off + sz"
    and "case iov' of [] \<Rightarrow> True | v # _ \<Rightarrow> off' \<le> length v"
proof -
  have "concat past' @ concat iov' = concat past @ concat iov \<and>
      length (concat past') + off' = length (concat past) + off + sz \<and>
      (case iov' of [] \<Rightarrow> True | v # _ \<Rightarrow> off' \<le> length v)"
    using assms
  proof (induction sz off past iov rule: advance_loop.induct)
    case (2 sz off past v iov)
    show ?case
    proof (cases "sz < length v - off")
      case False
      then have "concat past' @ concat iov' = concat (past @ [v]) @ concat iov \<and>
          length (concat past') + off' = length (concat (past @ [v])) + 0 + (sz - (length v - off)) \<and>
          (case iov' of [] \<Rightarrow> True | v # _ \<Rightarrow> off' \<le> length v)"
        using 2(2,3,4) by (intro 2(1)) (simp_all split: list.split)
      with False 2(3,4) show ?thesis by simp
    qed (use 2 in auto)
  qed simp
  then show "concat past' @ concat iov' = concat past @ concat iov"
    and "length (concat past') + off' = length (concat past) + off + sz"
    and "case iov' of [] \<Rightarrow> True | v # _ \<Rightarrow> off' \<le> length v" by blast+
qed

section \<open>The contract\<close>

lemma uio_copyfrom_flat:
  assumes "uio_ok u" "offset + length buf \<le> uio_resid u"
  shows "uio_ok (uio_copyfrom offset buf u)"
    and "uio_flat (uio_copyfrom offset buf u) = memcpy_at (uio_flat u) offset buf"
    and "uio_mem (uio_copyfrom offset buf u) = memcpy_at (uio_mem u) (uio_pos u + offset) buf"
    and "uio_pos (uio_copyfrom offset buf u) = uio_pos u"
    and "uio_resid (uio_copyfrom offset buf u) = uio_resid u"
proof -
  let ?off = "offset + uio_offset_in_iov u"
  have le: "?off + length buf \<le> length (concat (uio_iov u))" using assms by (simp add: uio_ok_def)
  note c = copyfrom_skip_concat [OF le]
  then have len: "length (concat (copyfrom_skip (uio_iov u) ?off buf)) = length (concat (uio_iov u))"
    by (metis length_concat)
  show "uio_ok (uio_copyfrom offset buf u)"
    using assms(1) len c
    by (cases "uio_iov u"; cases "copyfrom_skip (uio_iov u) ?off buf") (auto simp: uio_ok_def uio_copyfrom_def)
  show "uio_flat (uio_copyfrom offset buf u) = memcpy_at (uio_flat u) offset buf"
    using c le by (simp add: uio_copyfrom_def uio_flat_def memcpy_at_def drop_take add.commute add.left_commute)
  show "uio_mem (uio_copyfrom offset buf u) = memcpy_at (uio_mem u) (uio_pos u + offset) buf"
    using c by (simp add: uio_copyfrom_def uio_mem_def uio_pos_def memcpy_at_def add.commute add.left_commute)
qed (simp_all add: uio_copyfrom_def uio_pos_def)

lemma uio_copyto_flat:
  assumes "uio_ok u" "offset + len \<le> uio_resid u"
  shows "uio_copyto offset len u = take len (drop offset (uio_flat u))"
  using assms copyto_skip_concat [of "offset + uio_offset_in_iov u" len "uio_iov u"]
  by (simp add: uio_copyto_def uio_flat_def uio_ok_def add.commute)

lemma uio_advance_flat:
  assumes "uio_ok u" "sz \<le> uio_resid u"
  shows "uio_ok (uio_advance sz u)"
    and "uio_flat (uio_advance sz u) = drop sz (uio_flat u)"
    and "uio_mem (uio_advance sz u) = uio_mem u"
    and "uio_pos (uio_advance sz u) = uio_pos u + sz"
    and "uio_resid (uio_advance sz u) = uio_resid u - sz"
proof -
  obtain past iov off where a: "advance_loop sz (uio_offset_in_iov u) (uio_done u) (uio_iov u) = (past, iov, off)"
    by (metis prod_cases3)
  have adv: "uio_advance sz u = \<lparr>uio_done = past, uio_iov = iov, uio_resid = uio_resid u - sz, uio_offset_in_iov = off\<rparr>"
    by (simp add: uio_advance_def a)
  have le: "uio_offset_in_iov u + sz \<le> length (concat (uio_iov u))"
    and first: "case uio_iov u of [] \<Rightarrow> True | v # _ \<Rightarrow> uio_offset_in_iov u \<le> length v"
    using assms by (auto simp: uio_ok_def)
  note c = advance_loop_concat [OF a le first]
  show mem: "uio_mem (uio_advance sz u) = uio_mem u" using c(1) by (simp add: adv uio_mem_def)
  show pos: "uio_pos (uio_advance sz u) = uio_pos u + sz" using c(2) by (simp add: adv uio_pos_def)
  show "uio_flat (uio_advance sz u) = drop sz (uio_flat u)"
    unfolding uio_mem_pos mem pos by (simp add: add.commute)
  have "length (concat past) + length (concat iov) = length (concat (uio_done u)) + length (concat (uio_iov u))"
    using arg_cong [OF c(1), of length] by simp
  then show "uio_ok (uio_advance sz u)"
    using c(2,3) assms unfolding adv uio_ok_def uio.simps by (intro conjI) linarith+
  show "uio_resid (uio_advance sz u) = uio_resid u - sz" by (simp add: adv)
qed

end
