(* ===== verification/Serial.thy ===== *)
theory Serial
  imports NxMutex Uart_Ring Uio Poll "HOL-Library.Monad_Syntax"
begin

text \<open>
  The upper half of the serial driver (\<^verbatim>\<open>nuttx/drivers/serial/serial.c\<close> and \<^verbatim>\<open>serial_io.c\<close>): the interrupt side,
  which moves characters between the hardware and the rings, and the operations of the device files.
  The lower half of the driver is a parameter, a record of functions on the state of the device, to
  which a lower half has access.  The semaphores and mutexes are those of the kernel.
\<close>

section \<open>Data\<close>

abbreviation (input) CR :: u8 where "CR \<equiv> 13"
abbreviation (input) NL :: u8 where "NL \<equiv> 10"
abbreviation (input) ASCII_BS :: u8 where "ASCII_BS \<equiv> 8"
abbreviation (input) ASCII_DEL :: u8 where "ASCII_DEL \<equiv> 127"
abbreviation (input) ASCII_ESC :: u8 where "ASCII_ESC \<equiv> 27"
abbreviation (input) ASCII_LBRACKET :: u8 where "ASCII_LBRACKET \<equiv> 91"
abbreviation (input) ASCII_SPACE :: u8 where "ASCII_SPACE \<equiv> 32"

definition INLCR :: u32 where "INLCR = 0x40"
definition IGNCR :: u32 where "IGNCR = 0x80"
definition ICRNL :: u32 where "ICRNL = 0x100"
definition OPOST :: u32 where "OPOST = 0x1"
definition ONLCR :: u32 where "ONLCR = 0x4"
definition OCRNL :: u32 where "OCRNL = 0x8"
definition ONLRET :: u32 where "ONLRET = 0x20"
definition ISIG :: u32 where "ISIG = 0x1"
definition ICANON :: u32 where "ICANON = 0x2"
definition ECHO :: u32 where "ECHO = 0x8"
definition CREAD :: u32 where "CREAD = 0x80"
definition HUPCL :: u32 where "HUPCL = 0x400"
definition CLOCAL :: u32 where "CLOCAL = 0x800"

lemmas termios_flags = INLCR_def IGNCR_def ICRNL_def OPOST_def ONLCR_def OCRNL_def ONLRET_def ISIG_def ICANON_def
  ECHO_def CREAD_def HUPCL_def CLOCAL_def

definition SERIAL_NPOLLWAITERS :: nat where "SERIAL_NPOLLWAITERS = 4"
definition TICK_PER_SEC :: nat where "TICK_PER_SEC = 100"

text \<open>
  The device.  \<open>xmitsem\<close>, \<open>recvsem\<close>, \<open>closelock\<close> and the locks of the rings are addresses in the kernel.
  Besides the fields of \<^verbatim>\<open>struct uart_dev_s\<close> the record has the state that the driver reads and changes:
  the kernel, the clock, the depth of critical sections (followed in \<open>uart_poll\<close>) and whether
  the file descriptor of a blocked reader has been closed (\<^verbatim>\<open>f_inode\<close> is null).
\<close>

record 'd uart_dev_s =
  open_count :: u8
  escape :: u8
  isconsole :: bool
  unlinked :: bool
  tc_iflag :: u32
  tc_oflag :: u32
  tc_lflag :: u32
  xmitsem :: nat
  recvsem :: nat
  closelock :: nat
  xmit :: uart_buffer_s
  recv :: uart_buffer_s
  priv :: 'd
  fds :: "pollfd option list"
  kern :: kernel
  ticks :: nat
  crit :: nat
  closed :: bool

record termios =
  c_iflag :: u32
  c_oflag :: u32
  c_cflag :: u32
  c_lflag :: u32
  c_speed :: u32

text \<open>The commands of \<^verbatim>\<open>ioctl\<close>; a pointer argument to a structure is \<open>None\<close> when it is null.\<close>

datatype uart_cmd =
    FIONREAD | FIONWRITE | FIONSPACE | TCFLSH u32 | TCDRN | TCSBRK u32 | TCSBRKP u32
  | TCGETS "termios option" | TCSETS "termios option" | TIOCSBRK | TIOCCBRK | OtherCmd nat u32

text \<open>What a command stores through its pointer argument.\<close>

datatype uart_out = NoOut | Count nat | Termios termios

type_synonym 'd upd = "'d uart_dev_s \<Rightarrow> 'd uart_dev_s"

text \<open>
  The lower half.  A poll of a status register may change the state of the hardware.  \<open>op_recvbuf\<close>
  returns the characters received, \<open>op_sendbuf\<close> their number; none stands for a result that is not positive.
\<close>

record 'd uart_ops_s =
  op_setup :: "'d uart_dev_s \<Rightarrow> unit res \<times> 'd uart_dev_s"
  op_shutdown :: "'d upd"
  op_attach :: "'d uart_dev_s \<Rightarrow> unit res \<times> 'd uart_dev_s"
  op_detach :: "'d upd"
  op_ioctl :: "(uart_cmd \<Rightarrow> 'd uart_dev_s \<Rightarrow> (u32 res \<times> uart_out) \<times> 'd uart_dev_s) option"
  op_receive :: "('d uart_dev_s \<Rightarrow> u8 \<times> 'd uart_dev_s) option"
  op_rxint :: "bool \<Rightarrow> 'd upd"
  op_rxavailable :: "'d uart_dev_s \<Rightarrow> bool \<times> 'd uart_dev_s"
  op_send :: "u8 \<Rightarrow> 'd upd"
  op_txint :: "bool \<Rightarrow> 'd upd"
  op_txready :: "'d uart_dev_s \<Rightarrow> bool \<times> 'd uart_dev_s"
  op_txempty :: "'d uart_dev_s \<Rightarrow> bool \<times> 'd uart_dev_s"
  op_release :: "'d upd option"
  op_recvbuf :: "(nat \<Rightarrow> 'd uart_dev_s \<Rightarrow> u8 list \<times> 'd uart_dev_s) option"
  op_sendbuf :: "(u8 list \<Rightarrow> 'd uart_dev_s \<Rightarrow> nat \<times> 'd uart_dev_s) option"

text \<open>
  The environment of a call.  \<open>irqs\<close> are the interrupts that are served while the call runs; the call takes one at each
  point where it matters whether there was one.  \<open>waits\<close> has, for each time the call blocks, the result with which it is
  resumed and what the rest of the system does to the device until then; a call that blocks when the
  list is empty does not return.
\<close>

record 'd env =
  irqs :: "'d upd list"
  waits :: "(unit res \<times> 'd upd) list"

definition on_kern :: "(kernel \<Rightarrow> kernel) \<Rightarrow> 'd upd" where
  "on_kern f u = u\<lparr>kern := f (kern u)\<rparr>"

definition serve_irq :: "'d env \<Rightarrow> 'd uart_dev_s \<Rightarrow> 'd env \<times> 'd uart_dev_s" where
  "serve_irq E u = (case irqs E of [] \<Rightarrow> (E, u) | f # fs \<Rightarrow> (E\<lparr>irqs := fs\<rparr>, f u))"

definition blocked_call :: "'d env \<Rightarrow> 'd uart_dev_s \<Rightarrow> (unit res \<times> 'd env \<times> 'd uart_dev_s) option" where
  "blocked_call E u = (case waits E of [] \<Rightarrow> None | (r, f) # ws \<Rightarrow> Some (r, E\<lparr>waits := ws\<rparr>, f u))"

definition kcall :: "(kernel \<Rightarrow> wait_result \<times> kernel) \<Rightarrow> 'd env \<Rightarrow> 'd uart_dev_s \<Rightarrow>
    (unit res \<times> 'd env \<times> 'd uart_dev_s) option" where
  "kcall f E u =
     (case f (kern u) of
        (Returned r, k) \<Rightarrow> Some (r, E, u\<lparr>kern := k\<rparr>)
      | (Blocked, k) \<Rightarrow> blocked_call E (u\<lparr>kern := k\<rparr>))"

definition unlock :: "nat \<Rightarrow> 'd upd" where
  "unlock a = on_kern (\<lambda>k. snd (nxmutex_unlock a k))"

section \<open>Notification\<close>

definition uart_poll_notify :: "nat \<Rightarrow> nat \<Rightarrow> u32 \<Rightarrow> 'd upd" where
  "uart_poll_notify lo hi eventset u =
     (let u = on_kern sched_lock u;
          u = u\<lparr>fds := take lo (fds u) @ poll_notify (take (hi - lo) (drop lo (fds u))) eventset @ drop hi (fds u)\<rparr>
      in on_kern sched_unlock u)"

text \<open>The semaphore is posted until its value, counted from the one at the start, is one.\<close>

function wakeup_loop :: "nat \<Rightarrow> int \<Rightarrow> kernel \<Rightarrow> kernel" where
  "wakeup_loop a sval k = (if sval < 1 then wakeup_loop a (sval + 1) (snd (nxsem_post a k)) else k)"
  by auto
termination by (relation "measure (\<lambda>(a, sval, k). nat (1 - sval))") auto

declare wakeup_loop.simps [simp del]

definition uart_wakeup :: "nat \<Rightarrow> kernel \<Rightarrow> kernel" where
  "uart_wakeup a k = (case nxsem_get_value a k of Inl _ \<Rightarrow> k | Inr sval \<Rightarrow> wakeup_loop a sval k)"

definition uart_datareceived :: "'d upd" where
  "uart_datareceived u =
     (let u = uart_poll_notify 0 SERIAL_NPOLLWAITERS POLLIN u in on_kern (uart_wakeup (recvsem u)) u)"

definition uart_datasent :: "'d upd" where
  "uart_datasent u =
     (let u = uart_poll_notify 0 SERIAL_NPOLLWAITERS POLLOUT u in on_kern (uart_wakeup (xmitsem u)) u)"

definition uart_reset_sem :: "'d upd" where
  "uart_reset_sem u =
     on_kern (\<lambda>k. nxmutex_reset (lock (recv u)) (nxmutex_reset (lock (xmit u))
       (nxsem_reset (recvsem u) 0 (nxsem_reset (xmitsem u) 0 k)))) u"

section \<open>Interrupts\<close>

text \<open>One turn of the loop of \<^verbatim>\<open>uart_xmitchars\<close>, and the loop, with the number of characters sent.\<close>

definition xmit_turn :: "'d uart_ops_s \<Rightarrow> u16 \<Rightarrow> 'd uart_dev_s \<Rightarrow> u16 \<times> 'd uart_dev_s" where
  "xmit_turn ops nbytes u =
     (let b = xmit u;
          (nbytes, u) =
            (case op_sendbuf ops of
               Some sendbuf \<Rightarrow>
                 (let sent = (if tail b < head b then head b - tail b else size b - tail b);
                      (sent, u) = sendbuf (take sent (drop (tail b) (buffer b))) u
                  in if 0 < sent then (nbytes + of_nat sent, u\<lparr>xmit := (xmit u)\<lparr>tail := tail (xmit u) + sent\<rparr>\<rparr>)
                     else (nbytes, u))
             | None \<Rightarrow>
                 (nbytes + 1, op_send ops (buffer b ! tail b) (u\<lparr>xmit := b\<lparr>tail := tail b + 1\<rparr>\<rparr>)))
      in (nbytes, if tail (xmit u) \<ge> size (xmit u) then u\<lparr>xmit := (xmit u)\<lparr>tail := 0\<rparr>\<rparr> else u))"

partial_function (option) xmit_loop :: "'d uart_ops_s \<Rightarrow> u16 \<Rightarrow> 'd uart_dev_s \<Rightarrow> (u16 \<times> 'd uart_dev_s) option" where
  "xmit_loop ops nbytes u =
     (if head (xmit u) = tail (xmit u) then Some (nbytes, u)
      else case op_txready ops u of
             (ready, u) \<Rightarrow>
               if ready then (case xmit_turn ops nbytes u of (nbytes, u) \<Rightarrow> xmit_loop ops nbytes u)
               else Some (nbytes, u))"

definition uart_xmitchars :: "'d uart_ops_s \<Rightarrow> 'd uart_dev_s \<Rightarrow> 'd uart_dev_s option" where
  "uart_xmitchars ops u =
     do {
       (nbytes, u) \<leftarrow> xmit_loop ops 0 u;
       let u = (if head (xmit u) = tail (xmit u) then op_txint ops False u else u);
       Some (if nbytes \<noteq> 0 then uart_datasent u else u)
     }"

text \<open>One turn of the loop of \<^verbatim>\<open>uart_recvchars\<close>: characters that do not fit are received and dropped.\<close>

definition recv_chunk :: "uart_buffer_s \<Rightarrow> nat" where
  "recv_chunk b =
     (if tail b > head b then tail b - head b - 1
      else if tail b \<noteq> 0 then size b - head b else size b - head b - 1)"

definition recv_turn :: "'d uart_ops_s \<Rightarrow> 'd upd" where
  "recv_turn ops u =
     (let nh = nexthead (recv u);
          is_full = (nh = tail (recv u))
      in case op_recvbuf ops of
           Some recvbuf \<Rightarrow>
             (if \<not> is_full then
                (case recvbuf (recv_chunk (recv u)) u of
                   ([], u) \<Rightarrow> u
                 | (bs, u) \<Rightarrow>
                     (let b = recv u; h = head b + length bs
                      in u\<lparr>recv := b\<lparr>buffer := memcpy_at (buffer b) (head b) bs, head := (if h \<ge> size b then 0 else h)\<rparr>\<rparr>))
              else snd (recvbuf 1 u))
         | None \<Rightarrow>
             (case op_receive ops of
                Some receive \<Rightarrow>
                  (let (ch, u) = receive u
                   in if \<not> is_full then u\<lparr>recv := set_head nh (store_char ch (recv u))\<rparr> else u)
              | None \<Rightarrow> u))"

partial_function (option) recv_loop :: "'d uart_ops_s \<Rightarrow> 'd uart_dev_s \<Rightarrow> 'd uart_dev_s option" where
  "recv_loop ops u =
     (case op_rxavailable ops u of
        (available, u) \<Rightarrow> if available then recv_loop ops (recv_turn ops u) else Some u)"

definition uart_recvchars :: "'d uart_ops_s \<Rightarrow> 'd uart_dev_s \<Rightarrow> 'd uart_dev_s option" where
  "uart_recvchars ops u =
     do {
       u \<leftarrow> recv_loop ops u;
       Some (if ring_count (recv u) \<noteq> 0 then uart_datareceived u else u)
     }"

section \<open>Sending\<close>

partial_function (option) uart_putxmitchar :: "'d uart_ops_s \<Rightarrow> u8 \<Rightarrow> bool \<Rightarrow> 'd env \<Rightarrow> 'd uart_dev_s \<Rightarrow>
    (unit res \<times> 'd env \<times> 'd uart_dev_s) option" where
  "uart_putxmitchar ops ch oktoblock E u =
     (let nh = nexthead (xmit u)
      in if nh \<noteq> tail (xmit u) then Some (OK, E, u\<lparr>xmit := set_head nh (store_char ch (xmit u))\<rparr>)
         else if oktoblock then
           (case serve_irq E u of
              (E, u) \<Rightarrow>
                do {
                  (ret, E, u) \<leftarrow>
                    (if nh \<noteq> tail (xmit u) then Some (OK, E, u)
                     else do {
                       (ret, E, u) \<leftarrow> kcall (nxsem_wait (xmitsem u)) E (op_txint ops True u);
                       Some (ret, E, op_txint ops False u)
                     });
                  case ret of
                    Inl _ \<Rightarrow> Some (Inl EINTR, E, u)
                  | Inr _ \<Rightarrow> uart_putxmitchar ops ch oktoblock E u
                })
         else Some (Inl EAGAIN, E, u))"

text \<open>Sending without the ring, for output from interrupt handlers and the idle task.\<close>

partial_function (option) wait_txready :: "'d uart_ops_s \<Rightarrow> 'd uart_dev_s \<Rightarrow> 'd uart_dev_s option" where
  "wait_txready ops u = (case op_txready ops u of (ready, u) \<Rightarrow> if ready then Some u else wait_txready ops u)"

partial_function (option) uart_putchars :: "'d uart_ops_s \<Rightarrow> u8 list \<Rightarrow> 'd uart_dev_s \<Rightarrow> 'd uart_dev_s option" where
  "uart_putchars ops buf u =
     (if buf = [] then Some u
      else do {
        u \<leftarrow> wait_txready ops u;
        case op_sendbuf ops of
          Some sendbuf \<Rightarrow> (case sendbuf buf u of (n, u) \<Rightarrow> uart_putchars ops (drop n buf) u)
        | None \<Rightarrow> uart_putchars ops (tl buf) (op_send ops (hd buf) u)
      })"

text \<open>\<open>pend\<close> are the characters of the buffer from \<^verbatim>\<open>tail\<close> to \<^verbatim>\<open>head\<close>.\<close>

fun irqwrite_loop :: "'d uart_ops_s \<Rightarrow> u8 list \<Rightarrow> u8 list \<Rightarrow> 'd uart_dev_s \<Rightarrow> (u8 list \<times> 'd uart_dev_s) option" where
  "irqwrite_loop ops pend [] u = Some (pend, u)"
| "irqwrite_loop ops pend (ch # cs) u =
     (if ch = CR \<and> tc_oflag u AND OCRNL \<noteq> 0 then
        do {
          u \<leftarrow> uart_putchars ops pend u;
          u \<leftarrow> uart_putchars ops [NL] u;
          irqwrite_loop ops [] cs u
        }
      else if ch = NL \<and> tc_oflag u AND (ONLCR OR ONLRET) \<noteq> 0 then
        do {
          u \<leftarrow> uart_putchars ops pend u;
          u \<leftarrow> uart_putchars ops [CR] u;
          irqwrite_loop ops [ch] cs u
        }
      else irqwrite_loop ops (pend @ [ch]) cs u)"

definition uart_irqwrite :: "'d uart_ops_s \<Rightarrow> u8 list \<Rightarrow> 'd uart_dev_s \<Rightarrow> 'd uart_dev_s option" where
  "uart_irqwrite ops buf u =
     do {
       (pend, u) \<leftarrow> (if tc_oflag u AND OPOST \<noteq> 0 then irqwrite_loop ops [] buf u else Some (buf, u));
       uart_putchars ops pend u
     }"

fun uart_irqwritev :: "'d uart_ops_s \<Rightarrow> nat \<Rightarrow> u8 list list \<Rightarrow> 'd uart_dev_s \<Rightarrow> (nat res \<times> 'd uart_dev_s) option" where
  "uart_irqwritev ops sofar [] u = Some (Inr sofar, u)"
| "uart_irqwritev ops sofar (v # iov) u =
     (if v = [] then uart_irqwritev ops sofar iov u
      else do {
        u \<leftarrow> uart_irqwrite ops v u;
        if SSIZE_MAX - sofar < length v then Some (if sofar = 0 then Inl EOVERFLOW else Inr sofar, u)
        else uart_irqwritev ops (sofar + length v) iov u
      })"

text \<open>The body of the loop of \<^verbatim>\<open>uart_writev\<close> and the loop; \<open>n\<close> is \<^verbatim>\<open>buflen\<close>.\<close>

definition write_char :: "'d uart_ops_s \<Rightarrow> bool \<Rightarrow> u8 \<Rightarrow> 'd env \<Rightarrow> 'd uart_dev_s \<Rightarrow>
    (unit res \<times> 'd env \<times> 'd uart_dev_s) option" where
  "write_char ops oktoblock ch E u =
     (let post = (tc_oflag u AND OPOST \<noteq> 0);
          ch = (if post \<and> ch = CR \<and> tc_oflag u AND OCRNL \<noteq> 0 then NL else ch)
      in do {
        (ret, E, u) \<leftarrow>
          (if post \<and> ch = NL \<and> tc_oflag u AND (ONLCR OR ONLRET) \<noteq> 0
           then uart_putxmitchar ops CR oktoblock E u else Some (OK, E, u));
        case ret of
          Inl e \<Rightarrow> Some (Inl e, E, u)
        | Inr _ \<Rightarrow> uart_putxmitchar ops ch oktoblock E u
      })"

fun write_loop :: "'d uart_ops_s \<Rightarrow> bool \<Rightarrow> nat \<Rightarrow> nat \<Rightarrow> uio \<Rightarrow> 'd env \<Rightarrow> 'd uart_dev_s \<Rightarrow>
    (nat res \<times> uio \<times> 'd env \<times> 'd uart_dev_s) option" where
  "write_loop ops oktoblock nwritten 0 io E u = Some (Inr nwritten, io, E, u)"
| "write_loop ops oktoblock nwritten (Suc n) io E u =
     do {
       (ret, E, u) \<leftarrow> write_char ops oktoblock (hd (uio_copyto 0 1 io)) E u;
       case ret of
         Inl e \<Rightarrow> Some (if Suc n < nwritten then Inr (nwritten - Suc n) else Inl e, io, E, u)
       | Inr _ \<Rightarrow> write_loop ops oktoblock nwritten n (uio_advance 1 io) E u
     }"

text \<open>
  \<open>irqctx\<close>: the caller is an interrupt handler or the idle task.  \<open>nonblock\<close>: the file has \<^verbatim>\<open>O_NONBLOCK\<close>.
\<close>

definition uart_writev :: "'d uart_ops_s \<Rightarrow> bool \<Rightarrow> bool \<Rightarrow> uio \<Rightarrow> 'd env \<Rightarrow> 'd uart_dev_s \<Rightarrow>
    (nat res \<times> uio \<times> 'd env \<times> 'd uart_dev_s) option" where
  "uart_writev ops irqctx nonblock io E u =
     (if irqctx then
        do {
          (r, u) \<leftarrow> uart_irqwritev ops 0 (uio_iov io) u;
          Some (r, io, E, u)
        }
      else
        do {
          (ret, E, u) \<leftarrow> kcall (nxmutex_lock (lock (xmit u))) E u;
          case ret of
            Inl e \<Rightarrow> Some (Inl e, io, E, u)
          | Inr _ \<Rightarrow>
              do {
                (r, io, E, u) \<leftarrow>
                  write_loop ops (\<not> nonblock) (uio_resid io) (uio_resid io) io E (op_txint ops False u);
                let u = (if head (xmit u) \<noteq> tail (xmit u) then op_txint ops True u else u);
                Some (r, io, E, unlock (lock (xmit u)) u)
              }
        })"

section \<open>Draining and breaks\<close>

text \<open>\<^verbatim>\<open>nxsched_usleep\<close>: the caller waits and is resumed.\<close>

definition uart_sleep :: "'d env \<Rightarrow> 'd uart_dev_s \<Rightarrow> ('d env \<times> 'd uart_dev_s) option" where
  "uart_sleep E u = do { (_, E, u) \<leftarrow> blocked_call E u; Some (E, u) }"

partial_function (option) drain_loop :: "'d uart_ops_s \<Rightarrow> 'd env \<Rightarrow> 'd uart_dev_s \<Rightarrow>
    (unit res \<times> 'd env \<times> 'd uart_dev_s) option" where
  "drain_loop ops E u =
     (if head (xmit u) \<noteq> tail (xmit u) then
        do {
          (ret, E, u) \<leftarrow> kcall (nxsem_wait (xmitsem u)) E (op_txint ops True u);
          let u = op_txint ops False u;
          case ret of Inl e \<Rightarrow> Some (Inl e, E, u) | Inr _ \<Rightarrow> drain_loop ops E u
        }
      else Some (OK, E, u))"

partial_function (option) txempty_loop :: "'d uart_ops_s \<Rightarrow> nat \<Rightarrow> nat \<Rightarrow> 'd env \<Rightarrow> 'd uart_dev_s \<Rightarrow>
    (unit res \<times> 'd env \<times> 'd uart_dev_s) option" where
  "txempty_loop ops start timeout E u =
     (case op_txempty ops u of
        (isempty, u) \<Rightarrow>
          if isempty then Some (OK, E, u)
          else do {
            (E, u) \<leftarrow> uart_sleep E u;
            if ticks u - start \<ge> timeout then Some (Inl ETIMEDOUT, E, u) else txempty_loop ops start timeout E u
          })"

definition uart_tcdrain :: "'d uart_ops_s \<Rightarrow> nat \<Rightarrow> 'd env \<Rightarrow> 'd uart_dev_s \<Rightarrow>
    (unit res \<times> 'd env \<times> 'd uart_dev_s) option" where
  "uart_tcdrain ops timeout E u =
     do {
       (ret, E, u) \<leftarrow> kcall (nxmutex_lock (lock (xmit u))) E u;
       case ret of
         Inl e \<Rightarrow> Some (Inl e, E, u)
       | Inr _ \<Rightarrow>
           do {
             (ret, E, u) \<leftarrow> drain_loop ops E u;
             (ret, E, u) \<leftarrow>
               (case ret of Inl e \<Rightarrow> Some (Inl e, E, u) | Inr _ \<Rightarrow> txempty_loop ops (ticks u) timeout E u);
             Some (ret, E, unlock (lock (xmit u)) u)
           }
     }"

text \<open>The mutex is unlocked also when it could not be locked.\<close>

definition uart_tcsendbreak :: "'d uart_ops_s \<Rightarrow> u32 \<Rightarrow> 'd env \<Rightarrow> 'd uart_dev_s \<Rightarrow>
    (u32 res \<times> 'd env \<times> 'd uart_dev_s) option" where
  "uart_tcsendbreak ops ms E u =
     (case op_ioctl ops of
        None \<Rightarrow> Some (Inl ENOTTY, E, u)
      | Some ioctl \<Rightarrow>
          do {
            (ret, E, u) \<leftarrow> kcall (nxmutex_lock (lock (xmit u))) E u;
            (ret, E, u) \<leftarrow>
              (case ret of
                 Inl e \<Rightarrow> Some (Inl e, E, u)
               | Inr _ \<Rightarrow>
                   (case ioctl TIOCSBRK u of
                      ((Inl e, _), u) \<Rightarrow> Some (Inl e, E, u)
                    | ((Inr _, _), u) \<Rightarrow>
                        do {
                          (E, u) \<leftarrow> uart_sleep E u;
                          (case ioctl TIOCCBRK u of ((ret, _), u) \<Rightarrow> Some (ret, E, u))
                        }));
            Some (ret, E, unlock (lock (xmit u)) u)
          })"

section \<open>Opening and closing\<close>

text \<open>Starting up the port when it is opened first.\<close>

definition uart_startup :: "'d uart_ops_s \<Rightarrow> 'd uart_dev_s \<Rightarrow> unit res \<times> 'd uart_dev_s" where
  "uart_startup ops u =
     (case (if \<not> isconsole u then op_setup ops u else (OK, u)) of
        (Inl e, u) \<Rightarrow> (Inl e, u)
      | (Inr _, u) \<Rightarrow>
          (case op_attach ops u of
             (Inl e, u) \<Rightarrow> (Inl e, if \<not> isconsole u then op_shutdown ops u else u)
           | (Inr _, u) \<Rightarrow> (OK, op_rxint ops True u)))"

definition uart_open :: "'d uart_ops_s \<Rightarrow> 'd env \<Rightarrow> 'd uart_dev_s \<Rightarrow> (unit res \<times> 'd env \<times> 'd uart_dev_s) option" where
  "uart_open ops E u =
     do {
       (ret, E, u) \<leftarrow> kcall (nxmutex_lock (closelock u)) E u;
       case ret of
         Inl e \<Rightarrow> Some (Inl e, E, u)
       | Inr _ \<Rightarrow>
           (let tmp = open_count u + 1;
                (ret, u) =
                  (if tmp = 0 then (Inl EMFILE, u)
                   else if tmp = 1 then
                     (case uart_startup ops u of
                        (Inl e, u) \<Rightarrow> (Inl e, u)
                      | (Inr _, u) \<Rightarrow> (OK, u\<lparr>open_count := tmp\<rparr>))
                   else (OK, u\<lparr>open_count := tmp\<rparr>))
            in Some (ret, E, unlock (closelock u) u))
     }"

text \<open>Destroying the semaphores and the device, common to \<^verbatim>\<open>uart_close\<close> and \<^verbatim>\<open>uart_unlink\<close>.\<close>

definition uart_destroy :: "'d uart_ops_s \<Rightarrow> 'd upd" where
  "uart_destroy ops u =
     (let u = unlock (closelock u) u;
          u = on_kern (nxmutex_destroy (lock (xmit u))) u;
          u = on_kern (nxmutex_destroy (lock (recv u))) u;
          u = on_kern (nxmutex_destroy (closelock u)) u;
          u = on_kern (nxsem_destroy (xmitsem u)) u;
          u = on_kern (nxsem_destroy (recvsem u)) u
      in case op_release ops of None \<Rightarrow> u | Some release \<Rightarrow> release u)"

definition uart_close :: "'d uart_ops_s \<Rightarrow> bool \<Rightarrow> 'd env \<Rightarrow> 'd uart_dev_s \<Rightarrow> ('d env \<times> 'd uart_dev_s) option" where
  "uart_close ops nonblock E u =
     do {
       (_, E, u) \<leftarrow> kcall (nxmutex_lock (closelock u)) E u;
       if open_count u > 1 then
         (let u = u\<lparr>open_count := open_count u - 1\<rparr> in Some (E, unlock (closelock u) u))
       else
         do {
           let u = op_rxint ops False (u\<lparr>open_count := 0\<rparr>);
           (_, E, u) \<leftarrow> (if \<not> nonblock then uart_tcdrain ops (4 * TICK_PER_SEC) E u else Some (OK, E, u));
           let u = op_detach ops u;
           let u = (if \<not> isconsole u then op_shutdown ops u else u);
           let u = uart_reset_sem (uart_datareceived u);
           Some (E, if unlinked u then uart_destroy ops u else unlock (closelock u) u)
         }
     }"

definition uart_unlink :: "'d uart_ops_s \<Rightarrow> 'd env \<Rightarrow> 'd uart_dev_s \<Rightarrow> (unit res \<times> 'd env \<times> 'd uart_dev_s) option" where
  "uart_unlink ops E u =
     do {
       (ret, E, u) \<leftarrow> kcall (nxmutex_lock (closelock u)) E u;
       case ret of
         Inl e \<Rightarrow> Some (Inl e, E, u)
       | Inr _ \<Rightarrow>
           Some (OK, E, if open_count u \<le> 0 then uart_destroy ops u
                        else unlock (closelock u) (u\<lparr>unlinked := True\<rparr>))
     }"

text \<open>\<^verbatim>\<open>register_driver\<close>, which creates the device file, is the parameter \<open>register_driver\<close>.\<close>

definition uart_register :: "('d uart_dev_s \<Rightarrow> unit res) \<Rightarrow> 'd uart_dev_s \<Rightarrow> unit res \<times> 'd uart_dev_s" where
  "uart_register register_driver u =
     (let u = (if isconsole u
               then u\<lparr>tc_lflag := tc_lflag u OR (ISIG OR ECHO OR ICANON), tc_oflag := OPOST OR ONLCR,
                      tc_iflag := tc_iflag u OR ICRNL, escape := 0\<rparr>
               else u);
          u = on_kern (nxmutex_init (lock (xmit u))) u;
          u = on_kern (nxmutex_init (lock (recv u))) u;
          u = on_kern (nxmutex_init (closelock u)) u;
          u = on_kern (nxsem_init (xmitsem u) 0) u;
          u = on_kern (nxsem_init (recvsem u) 0) u
      in (register_driver u, u))"

section \<open>Reading\<close>

text \<open>The translation of an input character; \<open>None\<close> when it is discarded.\<close>

definition input_char :: "u32 \<Rightarrow> u8 \<Rightarrow> u8 option" where
  "input_char iflag ch =
     (if iflag AND (INLCR OR IGNCR OR ICRNL) \<noteq> 0 then
        (let ch = (if ch = NL \<and> iflag AND INLCR \<noteq> 0 then CR
                   else if ch = CR \<and> iflag AND ICRNL \<noteq> 0 then NL else ch)
         in if ch = CR \<and> iflag AND IGNCR \<noteq> 0 then None else Some ch)
      else Some ch)"

definition iscntrl :: "u8 \<Rightarrow> bool" where
  "iscntrl ch \<longleftrightarrow> ch < 32 \<or> ch = 127"

text \<open>Echoing a list of characters; the results of \<^verbatim>\<open>uart_putxmitchar\<close> are ignored.\<close>

fun echo_chars :: "'d uart_ops_s \<Rightarrow> u8 list \<Rightarrow> 'd env \<Rightarrow> 'd uart_dev_s \<Rightarrow> ('d env \<times> 'd uart_dev_s) option" where
  "echo_chars ops [] E u = Some (E, u)"
| "echo_chars ops (c # cs) E u =
     do { (_, E, u) \<leftarrow> uart_putxmitchar ops c True E u; echo_chars ops cs E u }"

text \<open>The local variables of \<^verbatim>\<open>uart_readv\<close>, and how a turn of its loop ends.\<close>

record read_s =
  recvd :: nat
  rd_io :: uio
  echoed :: bool

datatype read_flow = Again | Break "nat res"

text \<open>
  The echo of a character that has been stored.  The first result tells that the rest of the turn is
  skipped (\<^verbatim>\<open>continue\<close>), which happens inside escape sequences.
\<close>

definition echo_input :: "'d uart_ops_s \<Rightarrow> u8 \<Rightarrow> read_s \<Rightarrow> 'd env \<Rightarrow> 'd uart_dev_s \<Rightarrow>
    (bool \<times> read_s \<times> 'd env \<times> 'd uart_dev_s) option" where
  "echo_input ops ch l E u =
     (if tc_lflag u AND ECHO = 0 then Some (False, l, E, u)
      else if ch = ASCII_ESC then Some (True, l, E, u\<lparr>escape := 2\<rparr>)
      else if escape u > 0 \<and> \<not> (escape u = 2 \<and> ch \<noteq> ASCII_LBRACKET)
      then Some (True, l, E, u\<lparr>escape := escape u - 1\<rparr>)
      else
        (let u = (if escape u = 2 then u\<lparr>escape := 0\<rparr> else u)
         in if \<not> iscntrl ch \<or> ch = NL then
              do {
                (E, u) \<leftarrow> echo_chars ops (if ch = NL then [CR, ch] else [ch]) E u;
                Some (if tc_lflag u AND ICANON \<noteq> 0 then (False, l, E, op_txint ops True u)
                      else (False, l\<lparr>echoed := True\<rparr>, E, u))
              }
            else Some (False, l, E, u)))"

text \<open>A character has been taken from the ring.\<close>

definition read_char :: "'d uart_ops_s \<Rightarrow> u8 \<Rightarrow> read_s \<Rightarrow> 'd env \<Rightarrow> 'd uart_dev_s \<Rightarrow>
    (read_flow \<times> read_s \<times> 'd env \<times> 'd uart_dev_s) option" where
  "read_char ops ch l E u =
     (case input_char (tc_iflag u) ch of
        None \<Rightarrow> Some (Again, l, E, u)
      | Some ch \<Rightarrow>
          if tc_lflag u AND ICANON \<noteq> 0 \<and> (ch = ASCII_BS \<or> ch = ASCII_DEL) then
            (if recvd l > 0 then
               (let l = l\<lparr>rd_io := uio_copyfrom (recvd l) [0] (rd_io l), recvd := recvd l - 1\<rparr>
                in if tc_lflag u AND ECHO \<noteq> 0 then
                     do {
                       (E, u) \<leftarrow> echo_chars ops [ASCII_BS, ASCII_SPACE, ASCII_BS] E u;
                       Some (Again, l, E, op_txint ops True u)
                     }
                   else Some (Again, l, E, u))
             else Some (Again, l, E, u))
          else
            do {
              let l = l\<lparr>rd_io := uio_copyfrom (recvd l) [ch] (rd_io l), recvd := recvd l + 1\<rparr>;
              (skip, l, E, u) \<leftarrow> echo_input ops ch l E u;
              Some (if \<not> skip \<and> tc_lflag u AND ICANON \<noteq> 0 \<and> ch = NL then Break (Inr (recvd l)) else Again, l, E, u)
            })"

text \<open>The ring was found empty.\<close>

definition read_wait :: "'d uart_ops_s \<Rightarrow> bool \<Rightarrow> read_s \<Rightarrow> 'd env \<Rightarrow> 'd uart_dev_s \<Rightarrow>
    (read_flow \<times> read_s \<times> 'd env \<times> 'd uart_dev_s) option" where
  "read_wait ops nonblock l E u =
     (let u = op_rxint ops False u;
          still_empty = (head (recv u) = tail (recv u));
          u = op_rxint ops True u
      in if \<not> still_empty \<or> head (recv u) \<noteq> tail (recv u) then Some (Again, l, E, u)
         else if recvd l > 0 \<and> tc_lflag u AND ICANON = 0 then Some (Break (Inr (recvd l)), l, E, u)
         else if closed u then Some (Break (Inl EBADFD), l, E, u)
         else if nonblock then Some (Break (Inl EAGAIN), l, E, u)
         else
           do {
             (ret, E, u) \<leftarrow> kcall (nxsem_wait (recvsem u)) E (unlock (lock (recv u)) u);
             (_, E, u) \<leftarrow> kcall (nxmutex_lock (lock (recv u))) E u;
             Some (case ret of
                     Inl e \<Rightarrow> Break (if recvd l = 0 then Inl e else Inr (recvd l))
                   | Inr _ \<Rightarrow> Again, l, E, u)
           })"

definition read_turn :: "'d uart_ops_s \<Rightarrow> bool \<Rightarrow> read_s \<Rightarrow> 'd env \<Rightarrow> 'd uart_dev_s \<Rightarrow>
    (read_flow \<times> read_s \<times> 'd env \<times> 'd uart_dev_s) option" where
  "read_turn ops nonblock l E u =
     (case take_char (recv u) of
        (Some ch, b) \<Rightarrow> read_char ops ch l E (u\<lparr>recv := b\<rparr>)
      | (None, _) \<Rightarrow> (case serve_irq E u of (E, u) \<Rightarrow> read_wait ops nonblock l E u))"

partial_function (option) read_loop :: "'d uart_ops_s \<Rightarrow> bool \<Rightarrow> nat \<Rightarrow> read_s \<Rightarrow> 'd env \<Rightarrow> 'd uart_dev_s \<Rightarrow>
    (nat res \<times> read_s \<times> 'd env \<times> 'd uart_dev_s) option" where
  "read_loop ops nonblock buflen l E u =
     (if recvd l < buflen then
        (case serve_irq E u of
           (E, u) \<Rightarrow>
             do {
               (flow, l, E, u) \<leftarrow> read_turn ops nonblock l E u;
               case flow of
                 Again \<Rightarrow> read_loop ops nonblock buflen l E u
               | Break r \<Rightarrow> Some (r, l, E, u)
             })
      else Some (Inr (recvd l), l, E, u))"

definition uart_readv :: "'d uart_ops_s \<Rightarrow> bool \<Rightarrow> uio \<Rightarrow> 'd env \<Rightarrow> 'd uart_dev_s \<Rightarrow>
    (nat res \<times> uio \<times> 'd env \<times> 'd uart_dev_s) option" where
  "uart_readv ops nonblock io E u =
     do {
       (ret, E, u) \<leftarrow> kcall (nxmutex_lock (lock (recv u))) E u;
       case ret of
         Inl e \<Rightarrow> Some (Inl e, io, E, u)
       | Inr _ \<Rightarrow>
           do {
             (r, l, E, u) \<leftarrow>
               read_loop ops nonblock (uio_resid io) \<lparr>recvd = 0, rd_io = io, echoed = False\<rparr> E u;
             let u = (if echoed l then op_txint ops True u else u);
             let u = op_rxint ops True u;
             Some (r, case r of Inl _ \<Rightarrow> rd_io l | Inr n \<Rightarrow> uio_advance n (rd_io l), E, unlock (lock (recv u)) u)
           }
     }"

section \<open>Control\<close>

definition no_termios :: termios where
  "no_termios = \<lparr>c_iflag = 0, c_oflag = 0, c_cflag = 0, c_lflag = 0, c_speed = 0\<rparr>"

definition stored_termios :: "termios \<Rightarrow> uart_out \<Rightarrow> termios" where
  "stored_termios t out = (case out of Termios t' \<Rightarrow> t' | _ \<Rightarrow> t)"

definition uart_is_termios_hw_change :: "(uart_cmd \<Rightarrow> 'd uart_dev_s \<Rightarrow> (u32 res \<times> uart_out) \<times> 'd uart_dev_s) \<Rightarrow>
    termios option \<Rightarrow> 'd uart_dev_s \<Rightarrow> bool \<times> 'd uart_dev_s" where
  "uart_is_termios_hw_change ioctl new u =
     (case new of
        None \<Rightarrow> (False, u)
      | Some new \<Rightarrow>
          (case ioctl (TCGETS (Some no_termios)) u of
             ((Inl _, _), u) \<Rightarrow> (False, u)
           | ((Inr _, out), u) \<Rightarrow>
               (let old = stored_termios no_termios out
                in (c_speed old \<noteq> c_speed new \<or>
                    (c_cflag old XOR c_cflag new) AND NOT (HUPCL OR CREAD OR CLOCAL) \<noteq> 0, u))))"

text \<open>The commands that the lower half does not know.\<close>

definition uart_tty_ioctl :: "'d uart_ops_s \<Rightarrow> uart_cmd \<Rightarrow> 'd env \<Rightarrow> 'd uart_dev_s \<Rightarrow>
    ((u32 res \<times> uart_out) \<times> 'd env \<times> 'd uart_dev_s) option" where
  "uart_tty_ioctl ops cmd E u =
     (case cmd of
        FIONREAD \<Rightarrow> Some ((Inr 0, Count (ring_count (recv u))), E, u)
      | FIONWRITE \<Rightarrow> Some ((Inr 0, Count (ring_count (xmit u))), E, u)
      | FIONSPACE \<Rightarrow> Some ((Inr 0, Count (ring_space (xmit u))), E, u)
      | TCFLSH arg \<Rightarrow>
          (let u = (if arg = 0 \<or> arg = 2 then u\<lparr>recv := flush_ring (recv u)\<rparr> else u);
               u = (if arg = 1 \<or> arg = 2 then uart_datasent (u\<lparr>xmit := flush_ring (xmit u)\<rparr>) else u)
           in Some ((Inr 0, NoOut), E, u))
      | TCDRN \<Rightarrow>
          do {
            (ret, E, u) \<leftarrow> uart_tcdrain ops (10 * TICK_PER_SEC) E u;
            Some ((map_sum id (\<lambda>_. 0) ret, NoOut), E, u)
          }
      | TCSBRK arg \<Rightarrow>
          do { (ret, E, u) \<leftarrow> uart_tcsendbreak ops arg E u; Some ((ret, NoOut), E, u) }
      | TCSBRKP arg \<Rightarrow>
          do { (ret, E, u) \<leftarrow> uart_tcsendbreak ops (arg * 100) E u; Some ((ret, NoOut), E, u) }
      | _ \<Rightarrow> Some ((Inl ENOTTY, NoOut), E, u))"

definition uart_ioctl :: "'d uart_ops_s \<Rightarrow> uart_cmd \<Rightarrow> 'd env \<Rightarrow> 'd uart_dev_s \<Rightarrow>
    ((u32 res \<times> uart_out) \<times> 'd env \<times> 'd uart_dev_s) option" where
  "uart_ioctl ops cmd E u =
     do {
       let ((ret, out), u) =
         (case op_ioctl ops of
            None \<Rightarrow> ((Inl ENOTTY, NoOut), u)
          | Some ioctl \<Rightarrow>
              (case (case cmd of TCSETS t \<Rightarrow> uart_is_termios_hw_change ioctl t u | _ \<Rightarrow> (True, u)) of
                 (call, u) \<Rightarrow> if call then ioctl cmd u else ((Inl ENOTTY, NoOut), u)));
       ((ret, out), E, u) \<leftarrow>
         (if ret = Inl ENOTTY then uart_tty_ioctl ops cmd E u else Some ((ret, out), E, u));
       Some
         (if ret = Inr 0 \<or> ret = Inl ENOTTY then
            (case cmd of
               TCGETS None \<Rightarrow> ((Inl EINVAL, out), E, u)
             | TCGETS (Some t) \<Rightarrow>
                 ((Inr 0, Termios ((stored_termios t out)
                     \<lparr>c_iflag := tc_iflag u, c_oflag := tc_oflag u, c_lflag := tc_lflag u\<rparr>)), E, u)
             | TCSETS None \<Rightarrow> ((Inl EINVAL, out), E, u)
             | TCSETS (Some t) \<Rightarrow>
                 ((Inr 0, out), E, u\<lparr>tc_iflag := c_iflag t, tc_oflag := c_oflag t, tc_lflag := c_lflag t\<rparr>)
             | _ \<Rightarrow> ((ret, out), E, u))
          else ((ret, out), E, u))
     }"

section \<open>Polling\<close>

text \<open>The first free slot for a thread that polls.\<close>

fun free_slot :: "pollfd option list \<Rightarrow> nat option" where
  "free_slot [] = None"
| "free_slot (None # fs) = Some 0"
| "free_slot (Some _ # fs) = map_option Suc (free_slot fs)"

definition enter_critical_section :: "'d upd" where
  "enter_critical_section u = u\<lparr>crit := crit u + 1\<rparr>"

definition leave_critical_section :: "'d upd" where
  "leave_critical_section u = u\<lparr>crit := crit u - 1\<rparr>"

text \<open>
  \<open>slot\<close> is the field \<^verbatim>\<open>priv\<close> of the caller's structure, a pointer into \<open>fds\<close> or null; the second result
  is its new value.
\<close>

definition uart_poll_setup :: "pollfd \<Rightarrow> 'd env \<Rightarrow> 'd uart_dev_s \<Rightarrow>
    ((unit res \<times> nat option) \<times> 'd env \<times> 'd uart_dev_s) option" where
  "uart_poll_setup pfd E u =
     (let u = enter_critical_section u
      in case free_slot (take SERIAL_NPOLLWAITERS (fds u)) of
           None \<Rightarrow> Some ((Inl EBUSY, None), E, leave_critical_section u)
         | Some i \<Rightarrow>
             do {
               let u = leave_critical_section (u\<lparr>fds := (fds u)[i := Some pfd]\<rparr>);
               (_, E, u) \<leftarrow> kcall (nxmutex_lock (lock (xmit u))) E u;
               let eventset = (if nexthead (xmit u) \<noteq> tail (xmit u) then POLLOUT else 0);
               (_, E, u) \<leftarrow> kcall (nxmutex_lock (lock (recv u))) E (unlock (lock (xmit u)) u);
               let eventset = eventset OR (if head (recv u) \<noteq> tail (recv u) then POLLIN else 0);
               Some ((OK, Some i), E, uart_poll_notify i (i + 1) eventset (unlock (lock (recv u)) u))
             })"

definition uart_poll :: "bool \<Rightarrow> pollfd \<Rightarrow> nat option \<Rightarrow> 'd env \<Rightarrow> 'd uart_dev_s \<Rightarrow>
    ((unit res \<times> nat option) \<times> 'd env \<times> 'd uart_dev_s) option" where
  "uart_poll setup pfd slot E u =
     (if setup then uart_poll_setup pfd E u
      else
        (let u = enter_critical_section u
         in case slot of
              Some i \<Rightarrow> Some ((OK, None), E, leave_critical_section (u\<lparr>fds := (fds u)[i := None]\<rparr>))
            | None \<Rightarrow> Some ((OK, None), E, u)))"

end
