(* ===== verification/Serial_Interrupt.thy ===== *)
theory Serial_Interrupt
  imports Serial
begin

text \<open>
  The interrupt side of the serial driver: waking the threads that wait for a device, and moving
  characters between the hardware and the rings.
\<close>

section \<open>Waking\<close>

lemma kinv_lock: "kinv k \<Longrightarrow> kinv (sched_lock k)" "kinv k \<Longrightarrow> kinv (sched_unlock k)"
  using sem_inv_lock [of k] sem_inv_unlock [of k] kinv_within [of k]
    within_step_ops(1,2) [OF kinv_self running_live(1)] by (auto simp: kinv_def)

lemma sems_lock [simp]: "sems (sched_lock k) = sems k" "sems (sched_unlock k) = sems k"
  using frameD(1) [OF frame_merge_pending] by (simp_all add: sched_lock_def sched_unlock_def Let_def)

lemma runnable_lock [simp]: "runnable (sched_lock k) = runnable k" "runnable (sched_unlock k) = runnable k"
  by (simp_all add: sched_lock_def sched_unlock_def Let_def)

lemma wakeup_loop_ok:
  assumes "kinv k" "\<not> NXSEM_IS_MUTEX (sems k a)" "sval = semcount (sems k a)"
  shows "kinv (wakeup_loop a sval k) \<and> (\<forall>b. b \<noteq> a \<longrightarrow> sems (wakeup_loop a sval k) b = sems k b) \<and>
    semcount (sems (wakeup_loop a sval k) a) = max 1 sval \<and> waitlist (sems (wakeup_loop a sval k) a) = [] \<and>
    runnable (wakeup_loop a sval k) = runnable k \<union> set (waitlist (sems k a))"
  using assms
proof (induction a sval k rule: wakeup_loop.induct)
  case (1 a sval k)
  have inv: "sem_inv k" "tids_ok k" using 1(2) by (simp_all add: kinv_def)
  show ?case
  proof (cases "sval < 1")
    case True
    obtain r k' where eq: "nxsem_post a k = (r, k')" by fastforce
    have max: "semcount (sems k a) < SEM_VALUE_MAX" using True 1(4) by (simp add: SEM_VALUE_MAX_def)
    note p = post_counting [OF inv 1(3) max eq]
    have "kinv k'" using kinv_post [OF 1(2)] max eq by (metis snd_conv)
    moreover have "\<not> NXSEM_IS_MUTEX (sems k' a)" using 1(3) p(4) by (simp add: NXSEM_IS_MUTEX_def)
    ultimately have IH: "kinv (wakeup_loop a (sval + 1) k') \<and>
        (\<forall>b. b \<noteq> a \<longrightarrow> sems (wakeup_loop a (sval + 1) k') b = sems k' b) \<and>
        semcount (sems (wakeup_loop a (sval + 1) k') a) = max 1 (sval + 1) \<and>
        waitlist (sems (wakeup_loop a (sval + 1) k') a) = [] \<and>
        runnable (wakeup_loop a (sval + 1) k') = runnable k' \<union> set (waitlist (sems k' a))"
      using 1(1) [OF True] 1(4) p(5) eq by simp
    moreover have "set (take 1 (waitlist (sems k a))) \<union> set (tl (waitlist (sems k a))) = set (waitlist (sems k a))"
      by (cases "waitlist (sems k a)") auto
    moreover have "wakeup_loop a sval k = wakeup_loop a (sval + 1) k'"
      using True eq by (simp add: wakeup_loop.simps [of a sval])
    moreover have "sems k' b = sems k b" if "b \<noteq> a" for b using fun_cong [OF p(3), of b] that by simp
    ultimately show ?thesis using p(6,7) True by auto
  next
    case False
    then have "waitlist (sems k a) = []"
      using val_ok_waits [OF inv(1) 1(3)] 1(4) by (auto simp: semcount_def)
    with False 1 show ?thesis by (simp add: wakeup_loop.simps)
  qed
qed

text \<open>
  Waking makes every waiter ready and leaves the semaphore available, so that a thread that was about
  to wait goes on as well.
\<close>

lemma uart_wakeup_ok:
  assumes "kinv k" "\<not> NXSEM_IS_MUTEX (sems k a)"
  shows "kinv (uart_wakeup a k)" "b \<noteq> a \<Longrightarrow> sems (uart_wakeup a k) b = sems k b"
    "semcount (sems (uart_wakeup a k) a) = max 1 (semcount (sems k a))" "waitlist (sems (uart_wakeup a k) a) = []"
    "runnable (uart_wakeup a k) = runnable k \<union> set (waitlist (sems k a))"
  using wakeup_loop_ok [OF assms refl] assms(2) by (simp_all add: uart_wakeup_def nxsem_get_value_def)

lemma poll_notify_frame:
  "uart_poll_notify lo hi ev u =
     u\<lparr>kern := sched_unlock (sched_lock (kern u)), fds := fds (uart_poll_notify lo hi ev u)\<rparr>"
  by (simp add: uart_poll_notify_def on_kern_def Let_def)

lemma datareceived_frame:
  "uart_datareceived u = u\<lparr>kern := uart_wakeup (recvsem u) (sched_unlock (sched_lock (kern u))),
     fds := fds (uart_datareceived u)\<rparr>"
  using poll_notify_frame [of 0 SERIAL_NPOLLWAITERS POLLIN u]
  by (cases "uart_poll_notify 0 SERIAL_NPOLLWAITERS POLLIN u"; cases u) (simp add: uart_datareceived_def on_kern_def)

lemma datasent_frame:
  "uart_datasent u = u\<lparr>kern := uart_wakeup (xmitsem u) (sched_unlock (sched_lock (kern u))),
     fds := fds (uart_datasent u)\<rparr>"
  using poll_notify_frame [of 0 SERIAL_NPOLLWAITERS POLLOUT u]
  by (cases "uart_poll_notify 0 SERIAL_NPOLLWAITERS POLLOUT u"; cases u) (simp add: uart_datasent_def on_kern_def)

text \<open>\<open>all_woken\<close>: the waiters of a semaphore have been made ready and the semaphore is available.\<close>

definition all_woken :: "nat \<Rightarrow> kernel \<Rightarrow> kernel \<Rightarrow> bool" where
  "all_woken a k k' \<longleftrightarrow> kinv k' \<and> waitlist (sems k' a) = [] \<and> semcount (sems k' a) = max 1 (semcount (sems k a)) \<and>
     runnable k' = runnable k \<union> set (waitlist (sems k a))"

lemma wakeup_all_woken:
  assumes "kinv k" "\<not> NXSEM_IS_MUTEX (sems k a)"
  shows "all_woken a k (uart_wakeup a (sched_unlock (sched_lock k)))"
  using uart_wakeup_ok [of "sched_unlock (sched_lock k)" a] kinv_lock assms by (simp add: all_woken_def)

section \<open>Receiving\<close>

text \<open>
  A lower half that delivers the characters \<open>q\<close> of its receive FIFO one by one.  Status polls and
  the receive function change nothing but the hardware.
\<close>

definition rx_hw :: "'d uart_ops_s \<Rightarrow> ('d \<Rightarrow> u8 list) \<Rightarrow> bool" where
  "rx_hw ops q \<longleftrightarrow> op_recvbuf ops = None \<and>
     (\<forall>u. \<exists>d. op_rxavailable ops u = (q (priv u) \<noteq> [], u\<lparr>priv := d\<rparr>) \<and> q d = q (priv u)) \<and>
     (\<exists>receive. op_receive ops = Some receive \<and>
       (\<forall>u. q (priv u) \<noteq> [] \<longrightarrow> (\<exists>d. receive u = (hd (q (priv u)), u\<lparr>priv := d\<rparr>) \<and> q d = tl (q (priv u)))))"

lemma recv_turn_hw:
  assumes "rx_hw ops q" "q (priv u) = c # cs"
  shows "\<exists>d. recv_turn ops u = u\<lparr>priv := d, recv := snd (add_char c (recv u))\<rparr> \<and> q d = cs"
proof -
  obtain receive d where r: "op_recvbuf ops = None" "op_receive ops = Some receive" "receive u = (c, u\<lparr>priv := d\<rparr>)"
      "q d = cs" using assms unfolding rx_hw_def by (metis list.sel(1,3) list.distinct(1))
  then have "recv_turn ops u = u\<lparr>priv := d, recv := snd (add_char c (recv u))\<rparr>"
    by (simp add: recv_turn_def add_char_def Let_def)
  with r(4) show ?thesis by blast
qed

lemma recv_loop_hw:
  assumes "rx_hw ops q"
  shows "\<exists>d. recv_loop ops u = Some (u\<lparr>priv := d, recv := add_chars (q (priv u)) (recv u)\<rparr>) \<and> q d = []"
proof (induction "q (priv u)" arbitrary: u)
  case Nil
  obtain d where "op_rxavailable ops u = (False, u\<lparr>priv := d\<rparr>)" "q d = q (priv u)"
    using assms Nil unfolding rx_hw_def by metis
  with Nil show ?case by (subst recv_loop.simps) (auto intro!: exI [of _ d])
next
  case (Cons c cs)
  obtain d where d: "op_rxavailable ops u = (True, u\<lparr>priv := d\<rparr>)" "q d = q (priv u)"
    using assms Cons.hyps(2) unfolding rx_hw_def by (metis list.distinct(1))
  have "q (priv (u\<lparr>priv := d\<rparr>)) = c # cs" using d(2) Cons.hyps(2) by simp
  from recv_turn_hw [OF assms this] obtain d2 where
    t: "recv_turn ops (u\<lparr>priv := d\<rparr>) = u\<lparr>priv := d2, recv := snd (add_char c (recv u))\<rparr>" "q d2 = cs" by auto
  let ?u = "u\<lparr>priv := d2, recv := snd (add_char c (recv u))\<rparr>"
  obtain d3 where "recv_loop ops ?u = Some (?u\<lparr>priv := d3, recv := add_chars (q (priv ?u)) (recv ?u)\<rparr>)" "q d3 = []"
    using Cons.hyps(1) [of ?u] t(2) by auto
  with d(1) t Cons.hyps(2) [symmetric] show ?case by (subst recv_loop.simps) auto
qed

section \<open>Transmitting\<close>

text \<open>
  A lower half that sends one character at a time and tells when it can take the next; \<open>out\<close> is
  what it has sent.
\<close>

definition tx_hw :: "'d uart_ops_s \<Rightarrow> ('d \<Rightarrow> u8 list) \<Rightarrow> bool" where
  "tx_hw ops out \<longleftrightarrow> op_sendbuf ops = None \<and>
     (\<forall>u. \<exists>d. snd (op_txready ops u) = u\<lparr>priv := d\<rparr> \<and> out d = out (priv u)) \<and>
     (\<forall>b u. \<exists>d. op_txint ops b u = u\<lparr>priv := d\<rparr> \<and> out d = out (priv u)) \<and>
     (\<forall>c u. \<exists>d. op_send ops c u = u\<lparr>priv := d\<rparr> \<and> out d = out (priv u) @ [c])"

lemma tx_hw_ready: "tx_hw ops out \<Longrightarrow> \<exists>b d. op_txready ops u = (b, u\<lparr>priv := d\<rparr>) \<and> out d = out (priv u)"
  unfolding tx_hw_def by (metis prod.collapse)

lemma tx_hw_send: "tx_hw ops out \<Longrightarrow> \<exists>d. op_send ops c u = u\<lparr>priv := d\<rparr> \<and> out d = out (priv u) @ [c]"
  unfolding tx_hw_def by blast

lemma tx_hw_int: "tx_hw ops out \<Longrightarrow> \<exists>d. op_txint ops b u = u\<lparr>priv := d\<rparr> \<and> out d = out (priv u)"
  unfolding tx_hw_def by blast

lemma xmit_turn_hw:
  assumes "tx_hw ops out" "ring_ok (xmit u)" "head (xmit u) \<noteq> tail (xmit u)"
  shows "\<exists>d. xmit_turn ops n u = (n + 1, u\<lparr>priv := d, xmit := snd (take_char (xmit u))\<rparr>) \<and>
    out d = out (priv u) @ [hd (chars (xmit u))]"
proof -
  have c: "buffer (xmit u) ! tail (xmit u) = hd (chars (xmit u))"
    using take_char_ok(1) [OF assms(2,3)] assms(3) by (simp add: take_char_def)
  let ?u = "u\<lparr>xmit := (xmit u)\<lparr>tail := tail (xmit u) + 1\<rparr>\<rparr>"
  obtain d where d: "op_send ops (hd (chars (xmit u))) ?u = ?u\<lparr>priv := d\<rparr>"
      "out d = out (priv u) @ [hd (chars (xmit u))]"
    using tx_hw_send [OF assms(1), of "hd (chars (xmit u))" ?u] by auto
  have "op_sendbuf ops = None" using assms(1) by (simp add: tx_hw_def)
  then have "xmit_turn ops n u = (n + 1, u\<lparr>priv := d, xmit := snd (take_char (xmit u))\<rparr>)"
    using d(1) assms(3) by (simp add: xmit_turn_def Let_def c take_char_def)
  with d(2) show ?thesis by blast
qed

lemma xmit_loop_hw:
  assumes "tx_hw ops out" "ring_ok (xmit u)"
  shows "\<exists>d b sent. xmit_loop ops n u = Some (n + of_nat (length sent), u\<lparr>priv := d, xmit := b\<rparr>) \<and> ring_ok b \<and>
    chars (xmit u) = sent @ chars b \<and> out d = out (priv u) @ sent \<and> size b = size (xmit u)"
  using assms(2)
proof (induction "chars (xmit u)" arbitrary: u n)
  case Nil
  then have "head (xmit u) = tail (xmit u)" using chars_empty by metis
  then have "xmit_loop ops n u = Some (n, u)" by (simp add: xmit_loop.simps)
  with Nil show ?case by (intro exI [of _ "priv u"] exI [of _ "xmit u"] exI [of _ "[]"]) simp
next
  case (Cons c cs)
  have ne: "head (xmit u) \<noteq> tail (xmit u)" using chars_empty [OF Cons.prems] Cons.hyps(2) by auto
  obtain b d where r: "op_txready ops u = (b, u\<lparr>priv := d\<rparr>)" "out d = out (priv u)"
    using tx_hw_ready [OF assms(1)] by blast
  show ?case
  proof (cases b)
    case False
    then have "xmit_loop ops n u = Some (n, u\<lparr>priv := d\<rparr>)" using ne r(1) by (simp add: xmit_loop.simps)
    with Cons.prems r(2) show ?thesis by (intro exI [of _ d] exI [of _ "xmit u"] exI [of _ "[]"]) simp
  next
    case True
    let ?u = "u\<lparr>priv := d\<rparr>"
    obtain d2 where t: "xmit_turn ops n ?u = (n + 1, u\<lparr>priv := d2, xmit := snd (take_char (xmit u))\<rparr>)"
        "out d2 = out d @ [c]"
      using xmit_turn_hw [OF assms(1), of ?u n] Cons.prems Cons.hyps(2) [symmetric] ne by auto
    let ?u2 = "u\<lparr>priv := d2, xmit := snd (take_char (xmit u))\<rparr>"
    have tk: "chars (xmit ?u2) = cs" "ring_ok (xmit ?u2)"
      using take_char_ok(2,3) [OF Cons.prems ne] Cons.hyps(2) [symmetric] by simp_all
    obtain d3 b3 sent where IH:
      "xmit_loop ops (n + 1) ?u2 = Some (n + 1 + of_nat (length sent), ?u2\<lparr>priv := d3, xmit := b3\<rparr>)" "ring_ok b3"
      "chars (xmit ?u2) = sent @ chars b3" "out d3 = out (priv ?u2) @ sent" "size b3 = size (xmit ?u2)"
      using Cons.hyps(1) [OF tk(1) [symmetric] tk(2)] by blast
    have "xmit_loop ops n u = Some (n + of_nat (length (c # sent)), u\<lparr>priv := d3, xmit := b3\<rparr>)"
      using ne r(1) True t(1) IH(1) by (subst xmit_loop.simps) (simp add: algebra_simps)
    moreover have "chars (xmit u) = (c # sent) @ chars b3" "out d3 = out (priv u) @ c # sent" "size b3 = size (xmit u)"
      using IH tk(1) t(2) r(2) Cons.hyps(2) [symmetric] by (simp_all add: take_char_frame)
    ultimately show ?thesis using IH(2) by blast
  qed
qed

section \<open>Properties\<close>

text \<open>
  A lower half for examples: two lists are the receive FIFO and what has been sent; the
  transmitter is always ready.
\<close>

definition wire_ops :: "(u8 list \<times> u8 list) uart_ops_s" where
  "wire_ops =
     \<lparr>op_setup = \<lambda>u. (OK, u), op_shutdown = id, op_attach = \<lambda>u. (OK, u), op_detach = id, op_ioctl = None,
      op_receive = Some (\<lambda>u. (hd (fst (priv u)), u\<lparr>priv := (tl (fst (priv u)), snd (priv u))\<rparr>)),
      op_rxint = \<lambda>_. id, op_rxavailable = \<lambda>u. (fst (priv u) \<noteq> [], u),
      op_send = \<lambda>c u. u\<lparr>priv := (fst (priv u), snd (priv u) @ [c])\<rparr>,
      op_txint = \<lambda>_. id, op_txready = \<lambda>u. (True, u), op_txempty = \<lambda>u. (True, u), op_release = None,
      op_recvbuf = None, op_sendbuf = None\<rparr>"

lemma wire_hw: "rx_hw wire_ops fst" "tx_hw wire_ops snd"
proof -
  have ops: "op_recvbuf wire_ops = None" "op_sendbuf wire_ops = None"
    "op_receive wire_ops = Some (\<lambda>u. (hd (fst (priv u)), u\<lparr>priv := (tl (fst (priv u)), snd (priv u))\<rparr>))"
    "op_rxavailable wire_ops = (\<lambda>u. (fst (priv u) \<noteq> [], u))" "op_txready wire_ops = (\<lambda>u. (True, u))"
    "op_txint wire_ops = (\<lambda>_. id)" "op_send wire_ops = (\<lambda>c u. u\<lparr>priv := (fst (priv u), snd (priv u) @ [c])\<rparr>)"
    by (simp_all add: wire_ops_def)
  have id: "\<exists>d. u = u\<lparr>priv := d\<rparr> \<and> f d = f (priv u)" for u :: "(u8 list \<times> u8 list) uart_dev_s" and f :: "u8 list \<times> u8 list \<Rightarrow> u8 list"
    by (intro exI [of _ "priv u"]) simp
  have rcv: "\<exists>d. (hd (fst (priv u)), u\<lparr>priv := (tl (fst (priv u)), snd (priv u))\<rparr>) = (hd (fst (priv u)), u\<lparr>priv := d\<rparr>) \<and>
      fst d = tl (fst (priv u))" for u :: "(u8 list \<times> u8 list) uart_dev_s"
    by (rule exI [of _ "(tl (fst (priv u)), snd (priv u))"]) simp
  show "rx_hw wire_ops fst" unfolding rx_hw_def ops option.inject
    by (intro conjI allI refl exI [of _ "\<lambda>u. (hd (fst (priv u)), u\<lparr>priv := (tl (fst (priv u)), snd (priv u))\<rparr>)"] impI rcv)
      (simp only: prod.inject simp_thms id)
  have snt: "\<exists>d. u\<lparr>priv := (fst (priv u), snd (priv u) @ [c])\<rparr> = u\<lparr>priv := d\<rparr> \<and> snd d = snd (priv u) @ [c]"
    for u :: "(u8 list \<times> u8 list) uart_dev_s" and c
    by (rule exI [of _ "(fst (priv u), snd (priv u) @ [c])"]) simp
  show "tx_hw wire_ops snd" unfolding tx_hw_def ops snd_conv id_apply
    by (intro conjI allI refl id snt)
qed

definition empty_ring :: "nat \<Rightarrow> nat \<Rightarrow> uart_buffer_s" where
  "empty_ring a n = \<lparr>lock = a, head = 0, tail = 0, size = n, buffer = replicate n 0\<rparr>"

lemma empty_ring_ok: "0 < n \<Longrightarrow> n \<le> 32767 \<Longrightarrow> ring_ok (empty_ring a n)" "chars (empty_ring a n) = []"
  by (simp_all add: ring_ok_def empty_ring_def chars_def ring_count_def)

text \<open>A port with rings of four bytes; locks and semaphores are at the addresses 1 to 5.\<close>

definition demo_port :: "u8 list \<Rightarrow> (u8 list \<times> u8 list) uart_dev_s" where
  "demo_port rx =
     \<lparr>open_count = 1, escape = 0, isconsole = False, unlinked = False, tc_iflag = 0, tc_oflag = 0, tc_lflag = 0,
      xmitsem = 4, recvsem = 5, closelock = 3, xmit = empty_ring 1 4, recv = empty_ring 2 4,
      priv = (rx, []), fds = [None, None, None, None],
      kern = nxmutex_init 1 (nxmutex_init 2 (nxmutex_init 3 demo_kernel)), ticks = 0, crit = 0, closed = False\<rparr>"

lemma sems_mutex_init_other: "b \<noteq> a \<Longrightarrow> sems (nxmutex_init a k) b = sems k b"
  by (simp add: nxmutex_init_def nxsem_set_protocol_def nxsem_init_def SEM_TYPE_MUTEX_def Let_def)

lemma demo_port_ok:
  "ring_ok (recv (demo_port rx))" "ring_ok (xmit (demo_port rx))" "kinv (kern (demo_port rx))"
  "\<not> NXSEM_IS_MUTEX (sems (kern (demo_port rx)) (recvsem (demo_port rx)))"
  "\<not> NXSEM_IS_MUTEX (sems (kern (demo_port rx)) (xmitsem (demo_port rx)))"
proof -
  show "kinv (kern (demo_port rx))"
    by (simp add: demo_port_def kinv_mutex_init demo_kinv sems_mutex_init_other demo_count)
qed (simp_all add: demo_port_def empty_ring_ok sems_mutex_init_other demo_count)

text \<open>
  C15: The receive interrupt ends with an empty hardware FIFO.  It appends to the receive ring, in order, as many of the characters
  as fit; the rest is dropped.  When there is anything to read, no thread is left waiting for input: all
  that were are ready to run, and the semaphore lets the next one pass.\<close>

theorem uart_rx_interrupt:
  assumes "rx_hw ops q" "ring_ok (recv u)" "kinv (kern u)" "\<not> NXSEM_IS_MUTEX (sems (kern u) (recvsem u))"
  shows "\<exists>u'. uart_recvchars ops u = Some u' \<and> q (priv u') = [] \<and> ring_ok (recv u') \<and>
    chars (recv u') = chars (recv u) @ take (size (recv u) - 1 - length (chars (recv u))) (q (priv u)) \<and>
    (if chars (recv u') = [] then kern u' = kern u else all_woken (recvsem u) (kern u) (kern u'))"
proof -
  obtain d where d: "recv_loop ops u = Some (u\<lparr>priv := d, recv := add_chars (q (priv u)) (recv u)\<rparr>)" "q d = []"
    using recv_loop_hw [OF assms(1)] by blast
  define u1 where "u1 = u\<lparr>priv := d, recv := add_chars (q (priv u)) (recv u)\<rparr>"
  note a = add_chars_ok [OF assms(2), of "q (priv u)"]
  have res: "uart_recvchars ops u = Some (if ring_count (recv u1) \<noteq> 0 then uart_datareceived u1 else u1)"
    using d(1) by (simp add: uart_recvchars_def u1_def)
  have dr: "recv (uart_datareceived u1) = recv u1" "priv (uart_datareceived u1) = priv u1"
    "all_woken (recvsem u) (kern u) (kern (uart_datareceived u1))"
    using wakeup_all_woken [OF assms(3,4)] by (subst datareceived_frame, simp add: u1_def)+
  have "chars (recv u1) = [] \<longleftrightarrow> ring_count (recv u1) = 0" by (metis length_0_conv length_chars)
  then show ?thesis using res dr a d(2) by (auto simp: u1_def)
qed

theorem uart_rx_interrupt_witness:
  "\<exists>u'. uart_recvchars wire_ops (demo_port [65, 66, 67, 68]) = Some u' \<and> chars (recv u') = [65, 66, 67]"
proof -
  obtain u' where "uart_recvchars wire_ops (demo_port [65, 66, 67, 68]) = Some u'"
      "chars (recv u') = chars (recv (demo_port [65, 66, 67, 68])) @
        take (size (recv (demo_port [65, 66, 67, 68])) - 1 - length (chars (recv (demo_port [65, 66, 67, 68]))))
          (fst (priv (demo_port [65, 66, 67, 68])))"
    using uart_rx_interrupt [OF wire_hw(1) demo_port_ok(1,3,4), of "[65, 66, 67, 68]"] by blast
  then show ?thesis by (simp add: demo_port_def empty_ring_ok del: length_chars) (simp add: empty_ring_def)
qed

text \<open>
  The transmit interrupt takes the oldest characters out of the transmit ring and sends exactly these, in order,
  as long as the hardware takes them.  When it has sent any, no thread is left waiting for
  room in the ring.\<close>

theorem uart_tx_interrupt:
  assumes "tx_hw ops out" "ring_ok (xmit u)" "kinv (kern u)" "\<not> NXSEM_IS_MUTEX (sems (kern u) (xmitsem u))"
  shows "\<exists>u' sent. uart_xmitchars ops u = Some u' \<and> ring_ok (xmit u') \<and> chars (xmit u) = sent @ chars (xmit u') \<and>
    out (priv u') = out (priv u) @ sent \<and>
    (if sent = [] then kern u' = kern u else all_woken (xmitsem u) (kern u) (kern u'))"
proof -
  obtain d b sent where l: "xmit_loop ops 0 u = Some (of_nat (length sent), u\<lparr>priv := d, xmit := b\<rparr>)"
      "ring_ok b" "chars (xmit u) = sent @ chars b" "out d = out (priv u) @ sent"
    using xmit_loop_hw [OF assms(1,2), of 0] by auto
  let ?u1 = "u\<lparr>priv := d, xmit := b\<rparr>"
  have swap: "u\<lparr>xmit := b, priv := x\<rparr> = u\<lparr>priv := x, xmit := b\<rparr>" for x by (cases u) simp
  obtain d2 where d2: "(if head b = tail b then op_txint ops False ?u1 else ?u1) = u\<lparr>priv := d2, xmit := b\<rparr>" "out d2 = out d"
  proof (cases "head b = tail b")
    case True
    obtain x where "op_txint ops False ?u1 = ?u1\<lparr>priv := x\<rparr>" "out x = out (priv ?u1)"
      using tx_hw_int [OF assms(1)] by blast
    with True show ?thesis using swap [of x] by (intro that [of x]) simp_all
  qed (use that [of d] in simp)
  define u2 where "u2 = u\<lparr>priv := d2, xmit := b\<rparr>"
  have "length sent < 2 ^ 16"
    using arg_cong [OF l(3), of length] ring_count_less [OF assms(2)] assms(2) by (simp add: ring_ok_def)
  then have n: "(of_nat (length sent) :: u16) = 0 \<longleftrightarrow> sent = []"
    using dvd_imp_le [of 65536 "length sent"] by (auto simp: word_of_nat_eq_0_iff)
  have res: "uart_xmitchars ops u = Some (if sent \<noteq> [] then uart_datasent u2 else u2)"
    using l(1) d2(1) n by (simp add: uart_xmitchars_def u2_def)
  have ds: "xmit (uart_datasent u2) = b" "priv (uart_datasent u2) = d2"
    "all_woken (xmitsem u) (kern u) (kern (uart_datasent u2))"
    using wakeup_all_woken [OF assms(3,4)] by (subst datasent_frame, simp add: u2_def)+
  then show ?thesis
    using res l(2,3,4) d2(2)
    by (intro exI [of _ "if sent \<noteq> [] then uart_datasent u2 else u2"] exI [of _ sent]) (simp add: u2_def)
qed

theorem uart_tx_interrupt_witness:
  "\<exists>u'. uart_xmitchars wire_ops ((demo_port [])\<lparr>xmit := add_chars [72, 73] (empty_ring 1 4)\<rparr>) = Some u' \<and>
     snd (priv u') @ chars (xmit u') = [72, 73]"
proof -
  let ?b = "add_chars [72, 73] (empty_ring 1 4)" and ?u = "(demo_port [])\<lparr>xmit := add_chars [72, 73] (empty_ring 1 4)\<rparr>"
  have b: "ring_ok ?b \<and> chars ?b = [72, 73]"
    using add_chars_ok [OF empty_ring_ok(1) [of 4 1], of "[72, 73]"]
    by (simp add: empty_ring_ok del: length_chars) (simp add: empty_ring_def)
  then obtain u' sent where "uart_xmitchars wire_ops ?u = Some u'"
      "chars (xmit ?u) = sent @ chars (xmit u')" "snd (priv u') = snd (priv ?u) @ sent"
    using uart_tx_interrupt [OF wire_hw(2), of ?u] demo_port_ok(3,5) [of "[]"] by auto
  moreover have "snd (priv ?u) = []" by (simp add: demo_port_def)
  ultimately show ?thesis using b by simp
qed

end
