(* ===== verification/Serial_Env.thy ===== *)
theory Serial_Env
  imports Serial
begin

text \<open>
  What the environment of a call may do to a device, as a relation between its states before and after.  Any such
  relation that ignores the kernel and can be iterated carries over from the interrupts and the
  other threads to the blocking calls.
\<close>

definition keeps :: "('d uart_dev_s \<Rightarrow> 'd uart_dev_s \<Rightarrow> bool) \<Rightarrow> 'd upd \<Rightarrow> bool" where
  "keeps R f \<longleftrightarrow> (\<forall>u. R u (f u))"

definition env_keeps :: "('d uart_dev_s \<Rightarrow> 'd uart_dev_s \<Rightarrow> bool) \<Rightarrow> 'd env \<Rightarrow> bool" where
  "env_keeps R E \<longleftrightarrow> (\<forall>f \<in> set (irqs E). keeps R f) \<and> (\<forall>w \<in> set (waits E). keeps R (snd w))"

lemma keepsD: "keeps R f \<Longrightarrow> R u (f u)"
  by (simp add: keeps_def)

locale dev_rel =
  fixes R :: "'d uart_dev_s \<Rightarrow> 'd uart_dev_s \<Rightarrow> bool"
  assumes rel_refl: "R u u"
    and rel_trans: "R u v \<Longrightarrow> R v w \<Longrightarrow> R u w"
    and rel_kern: "R u (u\<lparr>kern := k\<rparr>)"
begin

lemma serve_irq_rel:
  assumes "env_keeps R E" "serve_irq E u = (E', u')"
  shows "R u u'" "env_keeps R E'"
  using assms rel_refl by (auto simp: serve_irq_def env_keeps_def intro: keepsD split: list.splits)

lemma blocked_call_rel:
  assumes "env_keeps R E" "blocked_call E u = Some (r, E', u')"
  shows "R u u'" "env_keeps R E'"
  using assms by (auto simp: blocked_call_def env_keeps_def intro: keepsD split: list.splits)

lemma kcall_rel:
  assumes "env_keeps R E" "kcall f E u = Some (r, E', u')"
  shows "R u u'" "env_keeps R E'"
proof -
  obtain w k where w: "f (kern u) = (w, k)" by fastforce
  have "R u u' \<and> env_keeps R E'"
  proof (cases w)
    case Blocked
    with w assms(2) have "blocked_call E (u\<lparr>kern := k\<rparr>) = Some (r, E', u')" by (simp add: kcall_def)
    with assms(1) show ?thesis using blocked_call_rel rel_trans rel_kern by blast
  qed (use w assms rel_kern in \<open>auto simp: kcall_def\<close>)
  then show "R u u'" "env_keeps R E'" by blast+
qed

lemma unlock_rel: "R u (unlock a u)"
  using rel_kern by (simp add: unlock_def on_kern_def)

end

end
