(* ===== verification/Serial_Read.thy ===== *)
theory Serial_Read
  imports Serial_Interrupt Serial_Env
begin

text \<open>
  Reading from a serial device that does not edit lines and does not echo, such as the port of the camera, while
  interrupts add characters to the ring and the reader waits whenever it is empty.
\<close>

section \<open>What the rest of the system does\<close>

text \<open>
  \<open>rx_rel\<close>: characters have been added to the receive ring and the modes of the device are the same.
  This holds for the receive interrupt, and for all that happens while a reader waits as long as
  there is no other reader.
\<close>

definition rx_rel :: "'d uart_dev_s \<Rightarrow> 'd uart_dev_s \<Rightarrow> bool" where
  "rx_rel u u' \<longleftrightarrow> tc_iflag u' = tc_iflag u \<and> tc_lflag u' = tc_lflag u \<and>
     (ring_ok (recv u) \<longrightarrow> ring_ok (recv u') \<and> (\<exists>xs. chars (recv u') = chars (recv u) @ xs))"

interpretation rx: dev_rel rx_rel
  by unfold_locales (fastforce simp: rx_rel_def)+

text \<open>The receive interrupt is one of these.\<close>

lemma rx_interrupt_rel:
  assumes "rx_hw ops q" "uart_recvchars ops u = Some u'"
  shows "rx_rel u u'"
proof -
  obtain d where d: "recv_loop ops u = Some (u\<lparr>priv := d, recv := add_chars (q (priv u)) (recv u)\<rparr>)"
    using recv_loop_hw [OF assms(1)] by blast
  let ?u1 = "u\<lparr>priv := d, recv := add_chars (q (priv u)) (recv u)\<rparr>"
  have "rx_rel u ?u1" using add_chars_ok [of "recv u" "q (priv u)"] by (simp add: rx_rel_def)
  moreover have "rx_rel ?u1 (uart_datareceived ?u1)" by (subst datareceived_frame) (simp add: rx_rel_def)
  ultimately show ?thesis
    using assms(2) d by (auto simp: uart_recvchars_def intro: rx.rel_trans split: if_splits)
qed

section \<open>The loop\<close>

definition plain_input :: "'d uart_dev_s \<Rightarrow> bool" where
  "plain_input u \<longleftrightarrow> tc_lflag u AND ICANON = 0 \<and> tc_lflag u AND ECHO = 0"

text \<open>The characters \<open>ys\<close> have been taken from the ring and translated while others were added.\<close>

definition consumed :: "'d uart_dev_s \<Rightarrow> 'd uart_dev_s \<Rightarrow> u8 list \<Rightarrow> bool" where
  "consumed u u' ys \<longleftrightarrow> tc_iflag u' = tc_iflag u \<and> tc_lflag u' = tc_lflag u \<and> ring_ok (recv u') \<and>
     (\<exists>cs xs. cs @ chars (recv u') = chars (recv u) @ xs \<and> ys = List.map_filter (input_char (tc_iflag u)) cs)"

lemma map_filter_append: "List.map_filter f (xs @ ys) = List.map_filter f xs @ List.map_filter f ys"
  by (simp add: List.map_filter_def)

lemma consumed_trans:
  assumes "consumed u v ys" "consumed v w zs"
  shows "consumed u w (ys @ zs)"
proof -
  obtain cs xs where 1: "cs @ chars (recv v) = chars (recv u) @ xs" "ys = List.map_filter (input_char (tc_iflag u)) cs"
    using assms(1) by (auto simp: consumed_def)
  obtain ds zs' where 2: "ds @ chars (recv w) = chars (recv v) @ zs'" "zs = List.map_filter (input_char (tc_iflag u)) ds"
    using assms by (auto simp: consumed_def)
  have "(cs @ ds) @ chars (recv w) = chars (recv u) @ xs @ zs'"
    using 1(1) 2(1) by (metis append_assoc)
  then show ?thesis
    using assms 1(2) 2(2) unfolding consumed_def by (metis map_filter_append)
qed

lemma rx_rel_consumed:
  assumes "rx_rel u v" "ring_ok (recv u)"
  shows "consumed u v []"
proof -
  obtain xs where "chars (recv v) = chars (recv u) @ xs" using assms by (auto simp: rx_rel_def)
  then have "[] @ chars (recv v) = chars (recv u) @ xs \<and> [] = List.map_filter (input_char (tc_iflag u)) []"
    by (simp add: List.map_filter_def)
  then show ?thesis using assms unfolding rx_rel_def consumed_def by blast
qed

lemma consumed_rx: "consumed u v ys \<Longrightarrow> rx_rel v w \<Longrightarrow> consumed u w ys"
  using consumed_trans [of u v ys w "[]"] rx_rel_consumed [of v w] by (simp add: consumed_def)

lemma take_char_consumed:
  assumes "ring_ok (recv u)" "take_char (recv u) = (Some ch, b)"
  shows "consumed u (u\<lparr>recv := b\<rparr>) (case input_char (tc_iflag u) ch of None \<Rightarrow> [] | Some c \<Rightarrow> [c])"
proof -
  have ne: "head (recv u) \<noteq> tail (recv u)" using assms(2) by (auto simp: take_char_def split: if_splits)
  have "chars (recv u) \<noteq> []" using chars_empty [OF assms(1)] ne by simp
  then have "[ch] @ chars b = chars (recv u)" "ring_ok b"
    using take_char_ok [OF assms(1) ne] assms(2) by (simp_all add: hd_Cons_tl)
  then show ?thesis
    unfolding consumed_def
    by (intro conjI exI [of _ "[ch]"] exI [of _ "[]"]) (simp_all add: List.map_filter_def split: option.split)
qed

text \<open>The characters \<open>g\<close> have been stored in the caller's buffers.\<close>

definition stored :: "uio \<Rightarrow> read_s \<Rightarrow> u8 list \<Rightarrow> bool" where
  "stored io l g \<longleftrightarrow> uio_ok (rd_io l) \<and> uio_pos (rd_io l) = uio_pos io \<and> uio_resid (rd_io l) = uio_resid io \<and>
     recvd l = length g \<and> length g \<le> uio_resid io \<and> \<not> echoed l \<and>
     uio_mem (rd_io l) = memcpy_at (uio_mem io) (uio_pos io) g"

lemma memcpy_at_snoc:
  assumes "p + length g < length m"
  shows "memcpy_at (memcpy_at m p g) (p + length g) [c] = memcpy_at m p (g @ [c])"
  using assms by (simp add: memcpy_at_def min_def)

lemma uio_room: "uio_ok io \<Longrightarrow> length (uio_mem io) = uio_pos io + uio_resid io"
  using length_uio_flat [of io] by (simp add: uio_mem_def uio_pos_def uio_ok_def)

lemma stored_snoc:
  assumes "stored io l g" "length g < uio_resid io" "uio_ok io"
  shows "stored io (l\<lparr>rd_io := uio_copyfrom (recvd l) [c] (rd_io l), recvd := recvd l + 1\<rparr>) (g @ [c])"
proof -
  have ok: "uio_ok (rd_io l)" "recvd l + length [c] \<le> uio_resid (rd_io l)" using assms by (simp_all add: stored_def)
  show ?thesis
    using uio_copyfrom_flat [OF ok] assms memcpy_at_snoc [of "uio_pos io" g "uio_mem io" c] uio_room [OF assms(3)]
    by (simp add: stored_def)
qed

text \<open>One turn of the loop.\<close>

lemma read_char_plain:
  assumes "plain_input u" "read_char ops ch l E u = Some (flow, l', E', u')" "stored io l g"
    "length g < uio_resid io" "uio_ok io"
  shows "flow = Again" "E' = E" "u' = u"
    "stored io l' (g @ (case input_char (tc_iflag u) ch of None \<Rightarrow> [] | Some c \<Rightarrow> [c]))"
  using assms stored_snoc [OF assms(3,4,5)]
  by (auto simp: read_char_def plain_input_def echo_input_def split: option.splits)

lemma read_wait_plain:
  assumes rx: "env_keeps rx_rel E" "\<And>b. keeps rx_rel (op_rxint ops b)" and u: "plain_input u"
    and w: "read_wait ops nonblock l E u = Some (flow, l', E', u')"
  shows "env_keeps rx_rel E'" "rx_rel u u'" "l' = l" "flow = Break (Inr n) \<Longrightarrow> n = recvd l \<and> 0 < n"
    "flow = Break (Inl e) \<Longrightarrow> recvd l = 0"
proof -
  define v where "v = op_rxint ops True (op_rxint ops False u)"
  have v: "rx_rel u v" unfolding v_def using keepsD [OF rx(2)] rx.rel_trans by blast
  have "env_keeps rx_rel E' \<and> rx_rel u u' \<and> l' = l \<and> (flow = Break (Inr n) \<longrightarrow> n = recvd l \<and> 0 < n) \<and>
      (flow = Break (Inl e) \<longrightarrow> recvd l = 0)"
  proof (cases "(\<exists>f. flow = f \<and> read_wait ops nonblock l E u = Some (f, l, E, v) \<and>
      (\<forall>n. f = Break (Inr n) \<longrightarrow> n = recvd l \<and> 0 < n) \<and> (\<forall>e. f = Break (Inl e) \<longrightarrow> recvd l = 0))")
    case True
    with w v rx(1) show ?thesis by auto
  next
    case False
    have lf: "tc_lflag v AND ICANON = 0" using u v by (simp add: plain_input_def rx_rel_def)
    have zero: "recvd l = 0"
      and "read_wait ops nonblock l E u = do {
             (ret, E, u) \<leftarrow> kcall (nxsem_wait (recvsem (unlock (lock (recv v)) v))) E (unlock (lock (recv v)) v);
             (_, E, u) \<leftarrow> kcall (nxmutex_lock (lock (recv u))) E u;
             Some (case ret of Inl e \<Rightarrow> Break (if recvd l = 0 then Inl e else Inr (recvd l)) | Inr _ \<Rightarrow> Again, l, E, u) }"
      using False w lf unfolding read_wait_def Let_def v_def [symmetric]
      by (auto simp: unlock_def on_kern_def split: if_splits)
    with w obtain ret E1 u1 r2 where
      k: "kcall (nxsem_wait (recvsem (unlock (lock (recv v)) v))) E (unlock (lock (recv v)) v) = Some (ret, E1, u1)"
         "kcall (nxmutex_lock (lock (recv u1))) E1 u1 = Some (r2, E', u')" "l' = l"
         "flow = (case ret of Inl e \<Rightarrow> Break (if recvd l = 0 then Inl e else Inr (recvd l)) | Inr _ \<Rightarrow> Again)"
      by (auto simp: bind_eq_Some_conv)
    have "rx_rel u u'" "env_keeps rx_rel E'"
      using rx.kcall_rel [OF rx(1) k(1)] rx.kcall_rel [OF _ k(2)] v rx.unlock_rel rx.rel_trans by blast+
    then show ?thesis using k(3,4) zero by (auto split: sum.splits)
  qed
  then show "env_keeps rx_rel E'" "rx_rel u u'" "l' = l" "flow = Break (Inr n) \<Longrightarrow> n = recvd l \<and> 0 < n"
    "flow = Break (Inl e) \<Longrightarrow> recvd l = 0" by blast+
qed

lemma read_turn_plain:
  assumes rx: "env_keeps rx_rel E" "\<And>b. keeps rx_rel (op_rxint ops b)" and u: "plain_input u" "ring_ok (recv u)"
    and g: "stored io l g" "length g < uio_resid io" "uio_ok io"
    and t: "read_turn ops nonblock l E u = Some (flow, l', E', u')"
  shows "\<exists>ys. env_keeps rx_rel E' \<and> consumed u u' ys \<and> stored io l' (g @ ys) \<and>
    (\<forall>n. flow = Break (Inr n) \<longrightarrow> n = length (g @ ys) \<and> 0 < n) \<and> (\<forall>e. flow = Break (Inl e) \<longrightarrow> g @ ys = [])"
proof -
  obtain c b where tc: "take_char (recv u) = (c, b)" by fastforce
  show ?thesis
  proof (cases c)
    case (Some ch)
    have t': "read_char ops ch l E (u\<lparr>recv := b\<rparr>) = Some (flow, l', E', u')"
      using t tc Some by (simp add: read_turn_def)
    have "plain_input (u\<lparr>recv := b\<rparr>)" using u(1) by (simp add: plain_input_def)
    note rc = read_char_plain [OF this t' g]
    show ?thesis
      using rc take_char_consumed [OF u(2), of ch b] tc Some rx(1)
      by (intro exI [of _ "case input_char (tc_iflag u) ch of None \<Rightarrow> [] | Some c \<Rightarrow> [c]"]) simp
  next
    case None
    obtain E1 u1 where s: "serve_irq E u = (E1, u1)" by fastforce
    note s' = rx.serve_irq_rel [OF rx(1) s]
    have t': "read_wait ops nonblock l E1 u1 = Some (flow, l', E', u')"
      using t tc None s by (simp add: read_turn_def)
    have "plain_input u1" using u(1) s'(1) by (simp add: plain_input_def rx_rel_def)
    note rw = read_wait_plain [OF s'(2) rx(2) this t']
    have "consumed u u' []" using rx_rel_consumed [OF rx.rel_trans [OF s'(1) rw(2)] u(2)] .
    then show ?thesis
      using rw(1,3) rw(4,5) g(1) by (intro exI [of _ "[]"]) (auto simp: stored_def)
  qed
qed

text \<open>The loop has returned: \<open>g\<close> was stored before and the rest was taken from the ring.\<close>

definition read_done :: "uio \<Rightarrow> u8 list \<Rightarrow> 'd uart_dev_s \<Rightarrow> nat res \<Rightarrow> read_s \<Rightarrow> 'd uart_dev_s \<Rightarrow> bool" where
  "read_done io g u r l' u' \<longleftrightarrow> (\<exists>ys. consumed u u' ys \<and> stored io l' (g @ ys) \<and>
     (case r of Inr n \<Rightarrow> n = length (g @ ys) \<and> (n = 0 \<longrightarrow> uio_resid io = 0) | Inl e \<Rightarrow> g @ ys = []))"

lemma read_done_trans:
  assumes "consumed u v ys" "read_done io (g @ ys) v r l' u'"
  shows "read_done io g u r l' u'"
proof -
  obtain zs where "consumed v u' zs" "stored io l' ((g @ ys) @ zs)"
      "case r of Inr n \<Rightarrow> n = length ((g @ ys) @ zs) \<and> (n = 0 \<longrightarrow> uio_resid io = 0) | Inl e \<Rightarrow> (g @ ys) @ zs = []"
    using assms(2) unfolding read_done_def by blast
  then show ?thesis
    unfolding read_done_def using consumed_trans [OF assms(1)] by (intro exI [of _ "ys @ zs"]) (auto split: sum.splits)
qed

lemma read_done_now:
  assumes "consumed u u' ys" "stored io l' (g @ ys)"
    "\<And>n. r = Inr n \<Longrightarrow> n = length (g @ ys) \<and> (n = 0 \<longrightarrow> uio_resid io = 0)" "\<And>e. r = Inl e \<Longrightarrow> g @ ys = []"
  shows "read_done io g u r l' u'"
  using assms unfolding read_done_def by (intro exI [of _ ys]) (auto split: sum.split)

lemma read_loop_plain:
  fixes u :: "'d uart_dev_s"
  assumes "read_loop ops nonblock (uio_resid io) l E u = Some (r, l', E', u')" "env_keeps rx_rel E"
    "\<forall>b. keeps rx_rel (op_rxint ops b)" "plain_input u" "ring_ok (recv u)" "stored io l g" "uio_ok io"
  shows "read_done io g u r l' u'"
proof -
  define P where "P = (\<lambda>(ops :: 'd uart_ops_s) (nonblock :: bool) buflen l (E :: 'd env) (u :: 'd uart_dev_s)
      (res :: nat res \<times> read_s \<times> 'd env \<times> 'd uart_dev_s).
    buflen = uio_resid io \<longrightarrow> env_keeps rx_rel E \<longrightarrow> (\<forall>b. keeps rx_rel (op_rxint ops b)) \<longrightarrow> plain_input u \<longrightarrow> ring_ok (recv u) \<longrightarrow>
      (\<forall>g. stored io l g \<longrightarrow> read_done io g u (fst res) (fst (snd res)) (snd (snd (snd res)))))"
  have "P ops nonblock (uio_resid io) l E u (r, l', E', u')"
  proof (rule read_loop.raw_induct [of P, OF _ assms(1)], goal_cases)
    case (1 read_loop ops nonblock buflen l E u res)
    obtain r l' E' u' where res: "res = (r, l', E', u')" by (cases res) auto
    show ?case
      unfolding P_def res fst_conv snd_conv
    proof (intro impI allI)
      fix g
      assume h: "buflen = uio_resid io" "env_keeps rx_rel E" "\<forall>b. keeps rx_rel (op_rxint ops b)" "plain_input u" "ring_ok (recv u)"
        "stored io l g"
      show "read_done io g u r l' u'"
      proof (cases "recvd l < buflen")
        case False
        then have "r = Inr (recvd l)" "l' = l" "u' = u" using 1(2) res by auto
        with False h show ?thesis
          using rx_rel_consumed [of u u] rx.rel_refl by (intro read_done_now [of u u' "[]"]) (auto simp: stored_def)
      next
        case True
        obtain E1 u1 where s: "serve_irq E u = (E1, u1)" by fastforce
        note s' = rx.serve_irq_rel [OF h(2) s]
        have u1: "plain_input u1" "ring_ok (recv u1)" using h(4,5) s'(1) by (simp_all add: plain_input_def rx_rel_def)
        obtain flow l2 E2 u2 where t: "read_turn ops nonblock l E1 u1 = Some (flow, l2, E2, u2)"
          and rest: "(case flow of Again \<Rightarrow> read_loop ops nonblock buflen l2 E2 u2 | Break r \<Rightarrow> Some (r, l2, E2, u2)) = Some res"
          using 1(2) True s by (auto simp: bind_eq_Some_conv)
        have less: "length g < uio_resid io" using True h(1,6) by (simp add: stored_def)
        obtain ys where ys: "env_keeps rx_rel E2" "consumed u1 u2 ys" "stored io l2 (g @ ys)"
            "\<And>n. flow = Break (Inr n) \<Longrightarrow> n = length (g @ ys) \<and> 0 < n" "\<And>e. flow = Break (Inl e) \<Longrightarrow> g @ ys = []"
          using read_turn_plain [OF s'(2) spec [OF h(3)] u1 h(6) less assms(7) t] by blast
        have c: "consumed u u2 ys" using consumed_trans [OF rx_rel_consumed [OF s'(1) h(5)] ys(2)] by simp
        show ?thesis
        proof (cases flow)
          case (Break r2)
          with rest res have "r = r2" "l' = l2" "u' = u2" by simp_all
          with Break ys(3,4,5) c show ?thesis by (intro read_done_now [of u u' ys]) auto
        next
          case Again
          then have "read_loop ops nonblock buflen l2 E2 u2 = Some res" using rest by simp
          from 1(1) [OF this] have "P ops nonblock buflen l2 E2 u2 res" .
          moreover have "plain_input u2" "ring_ok (recv u2)"
            using ys(2) u1(1) by (simp_all add: consumed_def plain_input_def)
          ultimately have "read_done io (g @ ys) u2 r l' u'"
            unfolding P_def res fst_conv snd_conv using h(1,3) ys(1,3) by blast
          then show ?thesis by (rule read_done_trans [OF c])
        qed
      qed
    qed
  qed
  then show ?thesis unfolding P_def fst_conv snd_conv using assms by blast
qed

section \<open>Returning\<close>

text \<open>When there is something in the ring, each turn takes a character, until the request is satisfied or the ring is empty.\<close>

lemma read_wait_some:
  assumes "0 < recvd l" "plain_input u" "\<forall>b. keeps rx_rel (op_rxint ops b)"
  shows "\<exists>flow u'. read_wait ops nonblock l E u = Some (flow, l, E, u') \<and> rx_rel u u' \<and>
    (flow = Again \<longrightarrow> (ring_ok (recv u) \<longrightarrow> head (recv u') \<noteq> tail (recv u'))) \<and>
    (flow = Again \<or> flow = Break (Inr (recvd l)))"
proof -
  define v where "v = op_rxint ops False u"
  define w where "w = op_rxint ops True v"
  have r: "rx_rel u v" "rx_rel v w" unfolding v_def w_def using assms(3) keepsD by blast+
  have lf: "tc_lflag w AND ICANON = 0" using assms(2) r by (simp add: plain_input_def rx_rel_def)
  have "head (recv w) \<noteq> tail (recv w)" if "ring_ok (recv u)" "head (recv v) \<noteq> tail (recv v)"
    using that r chars_empty [of "recv v"] chars_empty [of "recv w"] by (auto simp: rx_rel_def)
  then show ?thesis
    using assms(1) lf rx.rel_trans [OF r]
    unfolding read_wait_def Let_def v_def [symmetric] w_def [symmetric] by auto
qed

lemma read_loop_returns:
  assumes "env_keeps rx_rel E" "\<forall>b. keeps rx_rel (op_rxint ops b)" "plain_input u" "ring_ok (recv u)"
    "tc_iflag u AND (INLCR OR IGNCR OR ICRNL) = 0" "uio_ok io" "stored io l g"
    "0 < recvd l \<or> head (recv u) \<noteq> tail (recv u)"
  shows "\<exists>n l' E' u'. read_loop ops nonblock (uio_resid io) l E u = Some (Inr n, l', E', u')"
  using assms
proof (induction "2 * (uio_resid io - recvd l) + (if head (recv u) = tail (recv u) then 1 else 0)"
    arbitrary: l E u g rule: less_induct)
  case less
  show ?case
  proof (cases "recvd l < uio_resid io")
    case False
    then show ?thesis by (simp add: read_loop.simps)
  next
    case True
    obtain E1 u1 where s: "serve_irq E u = (E1, u1)" by fastforce
    note s' = rx.serve_irq_rel [OF less.prems(1) s]
    have u1: "plain_input u1" "ring_ok (recv u1)" "tc_iflag u1 = tc_iflag u"
      using less.prems(3,4) s'(1) by (simp_all add: plain_input_def rx_rel_def)
    have step: "read_loop ops nonblock (uio_resid io) l E u =
        do { (flow, l, E, u) \<leftarrow> read_turn ops nonblock l E1 u1;
             case flow of Again \<Rightarrow> read_loop ops nonblock (uio_resid io) l E u | Break r \<Rightarrow> Some (r, l, E, u) }"
      using True s by (subst read_loop.simps) simp
    show ?thesis
    proof (cases "head (recv u1) = tail (recv u1)")
      case False
      obtain ch b where tc: "take_char (recv u1) = (Some ch, b)" using False by (simp add: take_char_def)
      let ?u = "u1\<lparr>recv := b\<rparr>"
      let ?l = "l\<lparr>rd_io := uio_copyfrom (recvd l) [ch] (rd_io l), recvd := recvd l + 1\<rparr>"
      have turn: "read_turn ops nonblock l E1 u1 = Some (Again, ?l, E1, ?u)"
        using tc u1 less.prems(5)
        by (simp add: read_turn_def read_char_def input_char_def echo_input_def plain_input_def)
      have "ring_ok b" using take_char_ok(3) [OF u1(2) False] tc by simp
      moreover have "stored io ?l (g @ [ch])"
        using stored_snoc [OF less.prems(7) _ less.prems(6), of ch] less.prems(7) True by (simp add: stored_def)
      ultimately have "\<exists>n l' E' u'. read_loop ops nonblock (uio_resid io) ?l E1 ?u = Some (Inr n, l', E', u')"
        using True u1 less.prems by (intro less.hyps [of ?l ?u E1 "g @ [ch]"]) (auto simp: plain_input_def s')
      then show ?thesis using step turn by simp
    next
      case True
      have "chars (recv u1) = []" using chars_empty [OF u1(2)] True by simp
      then have emp: "head (recv u) = tail (recv u)"
        using s'(1) less.prems(4) chars_empty [of "recv u"] by (auto simp: rx_rel_def)
      then have pos: "0 < recvd l" using less.prems(8) by simp
      obtain E2 u2 where s2: "serve_irq E1 u1 = (E2, u2)" by fastforce
      note s2' = rx.serve_irq_rel [OF s'(2) s2]
      have u2: "plain_input u2" "ring_ok (recv u2)" "tc_iflag u2 = tc_iflag u"
        using u1 s2'(1) by (simp_all add: plain_input_def rx_rel_def)
      obtain flow u3 where w: "read_wait ops nonblock l E2 u2 = Some (flow, l, E2, u3)" "rx_rel u2 u3"
          "flow = Again \<Longrightarrow> head (recv u3) \<noteq> tail (recv u3)" "flow = Again \<or> flow = Break (Inr (recvd l))"
        using read_wait_some [OF pos u2(1) less.prems(2)] u2(2) by blast
      have u3: "plain_input u3" "ring_ok (recv u3)" "tc_iflag u3 = tc_iflag u"
        using u2 w(2) by (simp_all add: plain_input_def rx_rel_def)
      have turn: "read_turn ops nonblock l E1 u1 = Some (flow, l, E2, u3)"
        using True s2 w(1) by (simp add: read_turn_def take_char_def)
      show ?thesis
      proof (cases flow)
        case Again
        have "\<exists>n l' E' u'. read_loop ops nonblock (uio_resid io) l E2 u3 = Some (Inr n, l', E', u')"
          using u3 w(3) [OF Again] emp pos less.prems s2'(2) by (intro less.hyps [of l u3 E2 g]) auto
        then show ?thesis using step turn Again by simp
      qed (use step turn w(4) in simp)
    qed
  qed
qed

section \<open>An example\<close>

text \<open>A port with characters in its receive ring, and a request for three bytes in two buffers.\<close>

definition filled_port :: "u8 list \<Rightarrow> (u8 list \<times> u8 list) uart_dev_s" where
  "filled_port cs = (demo_port [])\<lparr>recv := add_chars cs (empty_ring 2 4)\<rparr>"

definition request :: uio where
  "request = snd (uio_init [[0], [0, 0]])"

lemma request_ok: "uio_ok request" "uio_mem request = [0, 0, 0]" "uio_pos request = 0" "uio_resid request = 3"
  by (simp_all add: request_def uio_init_def uio_calc_resid_def uio_ok_def uio_mem_def uio_pos_def SSIZE_MAX_def)

lemma wire_rx: "keeps rx_rel (op_rxint wire_ops b)"
  by (simp add: wire_ops_def keeps_def rx.rel_refl)

lemma filled_port_ok:
  "ring_ok (recv (filled_port cs))" "chars (recv (filled_port [65, 66])) = [65, 66]" "plain_input (filled_port cs)"
  "tc_iflag (filled_port cs) = 0" "NXSEM_IS_MUTEX (sems (kern (filled_port cs)) (lock (recv (filled_port cs))))"
  "semval (sems (kern (filled_port cs)) (lock (recv (filled_port cs)))) = NXSEM_NO_MHOLDER"
proof -
  note a = add_chars_ok [OF empty_ring_ok(1) [of 4 2]]
  show "ring_ok (recv (filled_port cs))" using a by (simp add: filled_port_def)
  show "chars (recv (filled_port [65, 66])) = [65, 66]"
    using a [of "[65, 66]"] by (simp add: filled_port_def empty_ring_ok del: length_chars) (simp add: empty_ring_def)
  have "lock (recv (filled_port cs)) = 2" using a [of cs] by (simp add: filled_port_def) (simp add: empty_ring_def)
  then show "NXSEM_IS_MUTEX (sems (kern (filled_port cs)) (lock (recv (filled_port cs))))"
    "semval (sems (kern (filled_port cs)) (lock (recv (filled_port cs)))) = NXSEM_NO_MHOLDER"
    by (simp_all add: filled_port_def demo_port_def sems_mutex_init_other sems_mutex_init mutex_init_is_mutex)
qed (simp_all add: filled_port_def demo_port_def plain_input_def)

lemma filled_port_read:
  "\<exists>io' E' u'. uart_readv wire_ops True request \<lparr>irqs = [], waits = []\<rparr> (filled_port [65, 66]) = Some (Inr 2, io', E', u')"
proof -
  have "kcall (nxmutex_lock (lock (recv (filled_port [65, 66])))) E (filled_port [65, 66]) = Some (OK, E, (filled_port [65, 66])
      \<lparr>kern := set_semval (lock (recv (filled_port [65, 66]))) (of_nat (this_task (kern (filled_port [65, 66])))) (kern (filled_port [65, 66]))\<rparr>)" for E
    using filled_port_ok(5,6) [of "[65, 66]"] by (simp add: kcall_def nxmutex_lock_def nxsem_wait_def)
  then show ?thesis
    by (simp add: uart_readv_def request_ok Let_def filled_port_def read_loop.simps serve_irq_def read_turn_def take_char_def
        empty_ring_def add_char_def nexthead_def set_head_def store_char_def wire_ops_def read_char_def input_char_def
        echo_input_def demo_port_def read_wait_def)
qed

section \<open>Properties\<close>

text \<open>
  C13: A read from a port without line editing and echo takes the oldest characters, in order, and stores exactly
  these, translated as the input modes say, in the caller's buffers from their position on, whatever arrives
  meanwhile and however often the reader waits: what it took followed by what is left in the ring is what was there
  followed by what arrived.  It returns the number stored, which is not zero unless nothing was
  asked for, and the position moves by it.  When it fails nothing was stored and no character is lost but those
  that the modes discard.\<close>

theorem serial_read_in_order:
  assumes "uart_readv ops nonblock io E u = Some (r, io', E', u')" "env_keeps rx_rel E" "\<forall>b. keeps rx_rel (op_rxint ops b)"
    "plain_input u" "ring_ok (recv u)" "uio_ok io"
  shows "\<exists>cs xs. cs @ chars (recv u') = chars (recv u) @ xs \<and> ring_ok (recv u') \<and>
    (let ys = List.map_filter (input_char (tc_iflag u)) cs
     in uio_mem io' = memcpy_at (uio_mem io) (uio_pos io) ys \<and>
        (case r of
           Inr n \<Rightarrow> n = length ys \<and> n \<le> uio_resid io \<and> (n = 0 \<longrightarrow> uio_resid io = 0) \<and> uio_pos io' = uio_pos io + n
         | Inl e \<Rightarrow> ys = [] \<and> uio_pos io' = uio_pos io))"
proof -
  obtain ret E1 u1 where k: "kcall (nxmutex_lock (lock (recv u))) E u = Some (ret, E1, u1)"
    using assms(1) by (auto simp: uart_readv_def bind_eq_Some_conv)
  note k' = rx.kcall_rel [OF assms(2) k]
  have u1: "plain_input u1" "ring_ok (recv u1)" using assms(4,5) k'(1) by (simp_all add: plain_input_def rx_rel_def)
  have fin: "\<exists>ys. consumed u u' ys \<and> uio_mem io' = memcpy_at (uio_mem io) (uio_pos io) ys \<and>
    (case r of
       Inr n \<Rightarrow> n = length ys \<and> n \<le> uio_resid io \<and> (n = 0 \<longrightarrow> uio_resid io = 0) \<and> uio_pos io' = uio_pos io + n
     | Inl e \<Rightarrow> ys = [] \<and> uio_pos io' = uio_pos io)"
  proof (cases ret)
    case (Inl e)
    then have "r = Inl e" "io' = io" "u' = u1" using assms(1) k by (simp_all add: uart_readv_def)
    with rx_rel_consumed [OF k'(1) assms(5)] show ?thesis by (intro exI [of _ "[]"]) simp
  next
    case (Inr x)
    let ?l = "\<lparr>recvd = 0, rd_io = io, echoed = False\<rparr>"
    obtain l2 E2 u2 where loop: "read_loop ops nonblock (uio_resid io) ?l E1 u1 = Some (r, l2, E2, u2)"
      and io': "io' = (case r of Inl _ \<Rightarrow> rd_io l2 | Inr n \<Rightarrow> uio_advance n (rd_io l2))"
      and u': "\<not> echoed l2 \<Longrightarrow> u' = unlock (lock (recv (op_rxint ops True u2))) (op_rxint ops True u2)"
      using assms(1) k Inr by (auto simp: uart_readv_def bind_eq_Some_conv Let_def)
    have "stored io ?l []" using assms(6) by (simp add: stored_def)
    from read_loop_plain [OF loop k'(2) assms(3) u1 this assms(6)] obtain ys where
      ys: "consumed u1 u2 ys" "stored io l2 ys"
        "case r of Inr n \<Rightarrow> n = length ys \<and> (n = 0 \<longrightarrow> uio_resid io = 0) | Inl e \<Rightarrow> ys = []"
      unfolding read_done_def append_Nil by blast
    have "rx_rel u2 u'"
      using u' ys(2) keepsD assms(3) rx.rel_trans rx.unlock_rel by (metis stored_def)
    then have "consumed u u' ys"
      using consumed_trans [OF rx_rel_consumed [OF k'(1) assms(5)] consumed_rx [OF ys(1)]] by simp
    moreover have "uio_mem io' = memcpy_at (uio_mem io) (uio_pos io) ys"
      using ys(2,3) io' uio_advance_flat(3) [of "rd_io l2" "length ys"] by (auto simp: stored_def split: sum.splits)
    ultimately show ?thesis
      using ys(2,3) io' uio_advance_flat(4) [of "rd_io l2" "length ys"]
      by (intro exI [of _ ys]) (auto simp: stored_def split: sum.splits)
  qed
  then show ?thesis unfolding consumed_def Let_def by blast
qed

theorem serial_read_in_order_witness:
  "\<exists>io' E' u'. uart_readv wire_ops True request \<lparr>irqs = [], waits = []\<rparr> (filled_port [65, 66]) = Some (Inr 2, io', E', u') \<and>
     uio_mem io' = [65, 66, 0]"
proof -
  obtain io' E' u' where r: "uart_readv wire_ops True request \<lparr>irqs = [], waits = []\<rparr> (filled_port [65, 66]) = Some (Inr 2, io', E', u')"
    using filled_port_read by blast
  from serial_read_in_order [OF r] obtain cs xs where
    c: "cs @ chars (recv u') = chars (recv (filled_port [65, 66])) @ xs"
      "uio_mem io' = memcpy_at (uio_mem request) (uio_pos request) (List.map_filter (input_char (tc_iflag (filled_port [65, 66]))) cs)"
      "length (List.map_filter (input_char (tc_iflag (filled_port [65, 66]))) cs) = 2"
    by (auto simp: filled_port_ok wire_rx env_keeps_def request_ok Let_def)
  have "input_char (tc_iflag (filled_port [65, 66])) = Some" by (simp add: fun_eq_iff filled_port_ok input_char_def)
  then have "length cs = 2" "uio_mem io' = memcpy_at (uio_mem request) (uio_pos request) cs"
    using c by (simp_all add: List.map_filter_def)
  moreover from this have "cs = [65, 66]"
    using arg_cong [OF c(1), of "take 2"] by (simp add: filled_port_ok)
  ultimately show ?thesis using r by (simp add: request_ok memcpy_at_def)
qed



section \<open>Reading lines without blocking\<close>

text \<open>A lower half that does not add to the ring when its receive interrupt is switched.\<close>

definition rx_quiet :: "'d uart_ops_s \<Rightarrow> bool" where
  "rx_quiet ops \<longleftrightarrow> (\<forall>b u. \<exists>d. op_rxint ops b u = u\<lparr>priv := d\<rparr>)"

lemma rx_quietD: "rx_quiet ops \<Longrightarrow> \<exists>d. op_rxint ops b u = u\<lparr>priv := d\<rparr>"
  by (simp add: rx_quiet_def)

definition line_input :: "'d uart_dev_s \<Rightarrow> bool" where
  "line_input u \<longleftrightarrow> tc_lflag u AND ICANON \<noteq> 0 \<and> tc_lflag u AND ECHO = 0 \<and>
     tc_iflag u AND (INLCR OR IGNCR OR ICRNL) = 0 \<and> \<not> closed u"

lemma line_loop_loses:
  assumes "rx_quiet ops" "irqs E = []" "line_input u" "ring_ok (recv u)" "recvd l + length (chars (recv u)) < n"
    "set (chars (recv u)) \<inter> {NL, ASCII_BS, ASCII_DEL} = {}" "\<not> echoed l"
  shows "\<exists>l' u'. read_loop ops True n l E u = Some (Inl EAGAIN, l', E, u') \<and> chars (recv u') = [] \<and>
    uio_pos (rd_io l') = uio_pos (rd_io l) \<and> \<not> echoed l'"
  using assms(3-7)
proof (induction "chars (recv u)" arbitrary: u l)
  case Nil
  obtain d where d: "op_rxint ops False u = u\<lparr>priv := d\<rparr>" using rx_quietD [OF assms(1)] by blast
  obtain d2 where d2: "op_rxint ops True (u\<lparr>priv := d\<rparr>) = u\<lparr>priv := d2\<rparr>"
    using rx_quietD [OF assms(1), of True "u\<lparr>priv := d\<rparr>"] by auto
  have "head (recv u) = tail (recv u)" using chars_empty [OF Nil(3)] Nil(1) by simp
  then have "read_loop ops True n l E u = Some (Inl EAGAIN, l, E, u\<lparr>priv := d2\<rparr>)"
    using Nil(2,4) d d2 assms(2) by (subst read_loop.simps)
      (auto simp: serve_irq_def read_turn_def take_char_def read_wait_def line_input_def Let_def)
  with Nil show ?case by simp
next
  case (Cons c cs)
  have ne: "head (recv u) \<noteq> tail (recv u)" using chars_empty [OF Cons(4)] Cons(2) by auto
  note tk = take_char_ok [OF Cons(4) ne]
  define b where "b = snd (take_char (recv u))"
  have b: "take_char (recv u) = (Some c, b)" "chars b = cs" "ring_ok b"
    using tk Cons(2) [symmetric] by (simp_all add: b_def prod_eq_iff)
  let ?u = "u\<lparr>recv := b\<rparr>"
  let ?l = "l\<lparr>rd_io := uio_copyfrom (recvd l) [c] (rd_io l), recvd := recvd l + 1\<rparr>"
  have c: "c \<noteq> NL" "c \<noteq> ASCII_BS" "c \<noteq> ASCII_DEL" using Cons(6) Cons(2) [symmetric] by auto
  have less: "recvd l < n" using Cons(5) by simp
  have "read_turn ops True l E u = Some (Again, ?l, E, ?u)"
    using b(1) Cons(3) c by (simp add: read_turn_def read_char_def input_char_def line_input_def echo_input_def)
  then have "read_loop ops True n l E u = read_loop ops True n ?l E ?u"
    using less assms(2) by (subst read_loop.simps) (simp add: serve_irq_def)
  moreover have "\<exists>l' u'. read_loop ops True n ?l E ?u = Some (Inl EAGAIN, l', E, u') \<and> chars (recv u') = [] \<and>
      uio_pos (rd_io l') = uio_pos (rd_io ?l) \<and> \<not> echoed l'"
    using Cons(3,5,6,7) Cons(2) [symmetric] b(2,3)
    by (intro Cons(1)) (auto simp: line_input_def simp del: length_chars)
  ultimately show ?case by (simp add: uio_copyfrom_def uio_pos_def)
qed

text \<open>
  C35: On a port that reads lines, as the console does, a read without blocking that finds a line not yet complete fails
  with \<^verbatim>\<open>EAGAIN\<close> after it has taken all characters from the ring.  The caller's position has not moved,
  and the characters are in neither the ring nor a later read: the beginning of the line is lost.\<close>

theorem nonblocking_line_read_loses:
  assumes "rx_quiet ops" "irqs E = []" "line_input u" "ring_ok (recv u)" "length (chars (recv u)) < uio_resid io"
    "set (chars (recv u)) \<inter> {NL, ASCII_BS, ASCII_DEL} = {}"
    "NXSEM_IS_MUTEX (sems (kern u) (lock (recv u)))" "semval (sems (kern u) (lock (recv u))) = NXSEM_NO_MHOLDER"
  shows "\<exists>io' u'. uart_readv ops True io E u = Some (Inl EAGAIN, io', E, u') \<and> chars (recv u') = [] \<and>
    uio_pos io' = uio_pos io"
proof -
  let ?u = "u\<lparr>kern := set_semval (lock (recv u)) (of_nat (this_task (kern u))) (kern u)\<rparr>"
  let ?l = "\<lparr>recvd = 0, rd_io = io, echoed = False\<rparr>"
  have k: "kcall (nxmutex_lock (lock (recv u))) E u = Some (OK, E, ?u)"
    using assms(7,8) by (simp add: kcall_def nxmutex_lock_def nxsem_wait_def)
  obtain l' u' where l: "read_loop ops True (uio_resid io) ?l E ?u = Some (Inl EAGAIN, l', E, u')" "chars (recv u') = []"
      "uio_pos (rd_io l') = uio_pos io" "\<not> echoed l'"
    using line_loop_loses [of ops E ?u ?l "uio_resid io"] assms by (auto simp: line_input_def)
  obtain d where "op_rxint ops True u' = u'\<lparr>priv := d\<rparr>" using rx_quietD [OF assms(1)] by blast
  with k l show ?thesis by (simp add: uart_readv_def Let_def unlock_def on_kern_def)
qed

theorem nonblocking_line_read_loses_witness:
  "\<exists>io' u'. uart_readv wire_ops True request \<lparr>irqs = [], waits = []\<rparr> ((filled_port [65, 66])\<lparr>tc_lflag := ICANON\<rparr>) =
     Some (Inl EAGAIN, io', \<lparr>irqs = [], waits = []\<rparr>, u') \<and> chars (recv u') = []"
proof -
  let ?u = "(filled_port [65, 66])\<lparr>tc_lflag := ICANON\<rparr>"
  have "\<exists>d. u = u\<lparr>priv := d\<rparr>" for u :: "(u8 list \<times> u8 list) uart_dev_s"
    by (intro exI [of _ "priv u"]) simp
  then have "rx_quiet wire_ops" by (simp add: rx_quiet_def wire_ops_def)
  moreover have "line_input ?u" by (simp add: line_input_def filled_port_def demo_port_def termios_flags)
  moreover have "chars (recv ?u) = [65, 66]" "ring_ok (recv ?u)" using filled_port_ok by simp_all
  ultimately show ?thesis
    using nonblocking_line_read_loses [of wire_ops "\<lparr>irqs = [], waits = []\<rparr>" ?u request] request_ok(4) filled_port_ok(5,6) [of "[65, 66]"]
    by (auto simp del: length_chars)
qed

end
