(* ===== verification/Serial_Write.thy ===== *)
theory Serial_Write
  imports Serial_Interrupt Serial_Env "HOL-Library.Sublist"
begin

text \<open>
  Writing to a serial device while the transmit interrupt empties the ring and the writer waits
  whenever it is full, and writing from interrupt handlers.
\<close>

section \<open>What is sent\<close>

text \<open>What the hardware has sent, followed by what is in the transmit ring.\<close>

definition sent_stream :: "('d \<Rightarrow> u8 list) \<Rightarrow> 'd uart_dev_s \<Rightarrow> u8 list" where
  "sent_stream out u = out (priv u) @ chars (xmit u)"

text \<open>
  \<open>tx_rel\<close>: characters may have moved from the ring to the line, and the output modes are the same.  This
  holds for the transmit interrupt, and for all that happens while a writer waits with the lock of the ring
  held, as long as nothing is echoed.
\<close>

definition tx_rel :: "('d \<Rightarrow> u8 list) \<Rightarrow> 'd uart_dev_s \<Rightarrow> 'd uart_dev_s \<Rightarrow> bool" where
  "tx_rel out u u' \<longleftrightarrow> (ring_ok (xmit u) \<longrightarrow>
     ring_ok (xmit u') \<and> tc_oflag u' = tc_oflag u \<and> sent_stream out u' = sent_stream out u)"

interpretation tx: dev_rel "tx_rel out" for out
  by unfold_locales (auto simp: tx_rel_def sent_stream_def)

lemma tx_interrupt_rel:
  assumes "tx_hw ops out" "uart_xmitchars ops u = Some u'"
  shows "tx_rel out u u'"
proof (cases "ring_ok (xmit u)")
  case True
  obtain d b sent where l: "xmit_loop ops 0 u = Some (0 + of_nat (length sent), u\<lparr>priv := d, xmit := b\<rparr>)"
      "ring_ok b" "chars (xmit u) = sent @ chars b" "out d = out (priv u) @ sent"
    using xmit_loop_hw [OF assms(1) True, of 0] by auto
  let ?u1 = "u\<lparr>priv := d, xmit := b\<rparr>"
  have int: "tx_rel out v (op_txint ops False v)" for v
    using tx_hw_int [OF assms(1), of False v] by (auto simp: tx_rel_def sent_stream_def)
  have snt: "tx_rel out v (uart_datasent v)" for v
    by (subst datasent_frame) (simp add: tx_rel_def sent_stream_def)
  define v where "v = (if head (xmit ?u1) = tail (xmit ?u1) then op_txint ops False ?u1 else ?u1)"
  have "tx_rel out u ?u1" using l by (simp add: tx_rel_def sent_stream_def)
  then have v: "tx_rel out u v" unfolding v_def using tx.rel_trans [OF _ int] by simp
  have "u' = v \<or> u' = uart_datasent v"
    using assms(2) l(1) unfolding uart_xmitchars_def by (auto simp: Let_def v_def)
  then show ?thesis using v tx.rel_trans [OF v snt] by auto
qed (simp add: tx_rel_def)

section \<open>Writing\<close>

text \<open>The output processing of a character.\<close>

definition output_chars :: "u32 \<Rightarrow> u8 \<Rightarrow> u8 list" where
  "output_chars oflag ch =
     (if oflag AND OPOST \<noteq> 0 then
        (let ch = (if ch = CR \<and> oflag AND OCRNL \<noteq> 0 then NL else ch)
         in if ch = NL \<and> oflag AND (ONLCR OR ONLRET) \<noteq> 0 then [CR, ch] else [ch])
      else [ch])"

text \<open>One wait for room in the ring.\<close>

lemma put_wait_rel:
  assumes "env_keeps (tx_rel out) E" "\<forall>b. keeps (tx_rel out) (op_txint ops b)"
    "(if nh \<noteq> tail (xmit u) then Some (OK, E, u)
      else do { (ret, E, u) \<leftarrow> kcall (nxsem_wait (xmitsem u)) E (op_txint ops True u);
                Some (ret, E, op_txint ops False u) }) = Some (ret, E', u')"
  shows "tx_rel out u u' \<and> env_keeps (tx_rel out) E'"
proof (cases "nh \<noteq> tail (xmit u)")
  case True
  with assms(1,3) tx.rel_refl show ?thesis by auto
next
  case False
  then obtain v where k: "kcall (nxsem_wait (xmitsem u)) E (op_txint ops True u) = Some (ret, E', v)"
      "u' = op_txint ops False v" using assms(3) by (auto simp: bind_eq_Some_conv)
  have "tx_rel out u (op_txint ops True u)" "tx_rel out v u'" using assms(2) k(2) keepsD by blast+
  then show ?thesis using tx.kcall_rel [OF assms(1) k(1)] tx.rel_trans by blast
qed

lemma putxmitchar_stream:
  fixes u :: "'d uart_dev_s"
  assumes "uart_putxmitchar ops ch ok E u = Some (r, E', u')" "env_keeps (tx_rel out) E"
    "\<forall>b. keeps (tx_rel out) (op_txint ops b)" "ring_ok (xmit u)"
  shows "env_keeps (tx_rel out) E' \<and> ring_ok (xmit u') \<and> tc_oflag u' = tc_oflag u \<and>
    sent_stream out u' = sent_stream out u @ (case r of Inr _ \<Rightarrow> [ch] | Inl _ \<Rightarrow> [])"
proof -
  define P where "P = (\<lambda>(ops :: 'd uart_ops_s) (ch :: u8) (ok :: bool) (E :: 'd env) (u :: 'd uart_dev_s)
      (res :: unit res \<times> 'd env \<times> 'd uart_dev_s).
    env_keeps (tx_rel out) E \<longrightarrow> (\<forall>b. keeps (tx_rel out) (op_txint ops b)) \<longrightarrow> ring_ok (xmit u) \<longrightarrow>
      (case res of (r, E', u') \<Rightarrow> env_keeps (tx_rel out) E' \<and> ring_ok (xmit u') \<and> tc_oflag u' = tc_oflag u \<and>
        sent_stream out u' = sent_stream out u @ (case r of Inr _ \<Rightarrow> [ch] | Inl _ \<Rightarrow> [])))"
  have "P ops ch ok E u (r, E', u')"
  proof (rule uart_putxmitchar.raw_induct [of P, OF _ assms(1)], goal_cases)
    case (1 put ops ch ok E u res)
    obtain r E' u' where res: "res = (r, E', u')" by (cases res) auto
    show ?case
      unfolding P_def res prod.case
    proof (intro impI)
      assume h: "env_keeps (tx_rel out) E" "\<forall>b. keeps (tx_rel out) (op_txint ops b)" "ring_ok (xmit u)"
      consider (room) "nexthead (xmit u) \<noteq> tail (xmit u)" | (again) "nexthead (xmit u) = tail (xmit u)" "\<not> ok"
        | (full) "nexthead (xmit u) = tail (xmit u)" "ok" by blast
      then show "env_keeps (tx_rel out) E' \<and> ring_ok (xmit u') \<and> tc_oflag u' = tc_oflag u \<and>
          sent_stream out u' = sent_stream out u @ (case r of Inr _ \<Rightarrow> [ch] | Inl _ \<Rightarrow> [])"
      proof cases
        case room
        with 1(2) res h show ?thesis
          using add_char_ok [OF h(3) room, of ch] ring_count_set_head(2) [OF h(3) room, of ch]
          by (auto simp: sent_stream_def)
      next
        case again
        with 1(2) res h show ?thesis by auto
      next
        case full
        obtain E1 u1 where s: "serve_irq E u = (E1, u1)" by fastforce
        obtain ret E2 u2 where w:
          "(if nexthead (xmit u) \<noteq> tail (xmit u1) then Some (OK, E1, u1)
            else do { (ret, E, u) \<leftarrow> kcall (nxsem_wait (xmitsem u1)) E1 (op_txint ops True u1);
                      Some (ret, E, op_txint ops False u) }) = Some (ret, E2, u2)"
          and rest: "(case ret of Inl _ \<Rightarrow> Some (Inl EINTR, E2, u2) | Inr _ \<Rightarrow> put ops ch ok E2 u2) = Some res"
          using 1(2) full s by (auto simp: bind_eq_Some_conv Let_def)
        note s' = tx.serve_irq_rel [OF h(1) s]
        have "tx_rel out u1 u2 \<and> env_keeps (tx_rel out) E2" by (rule put_wait_rel [OF s'(2) h(2) w])
        then have w': "tx_rel out u u2" "env_keeps (tx_rel out) E2" using s'(1) tx.rel_trans by blast+
        then have u2: "ring_ok (xmit u2)" "tc_oflag u2 = tc_oflag u" "sent_stream out u2 = sent_stream out u"
          using h(3) by (simp_all add: tx_rel_def)
        show ?thesis
        proof (cases ret)
          case (Inl e)
          with rest res u2 w'(2) show ?thesis by auto
        next
          case (Inr x)
          then have "put ops ch ok E2 u2 = Some res" using rest by simp
          from 1(1) [OF this] show ?thesis using w'(2) h(2) u2 unfolding P_def res by simp
        qed
      qed
    qed
  qed
  then show ?thesis unfolding P_def prod.case using assms by blast
qed

lemma write_char_stream:
  assumes "write_char ops ok ch E u = Some (r, E', u')" "env_keeps (tx_rel out) E"
    "\<forall>b. keeps (tx_rel out) (op_txint ops b)" "ring_ok (xmit u)"
  shows "env_keeps (tx_rel out) E' \<and> ring_ok (xmit u') \<and> tc_oflag u' = tc_oflag u \<and>
    (\<exists>part. sent_stream out u' = sent_stream out u @ part \<and>
      (case r of Inr _ \<Rightarrow> part = output_chars (tc_oflag u) ch
       | Inl _ \<Rightarrow> strict_prefix part (output_chars (tc_oflag u) ch)))"
proof -
  define post where "post = (tc_oflag u AND OPOST \<noteq> 0)"
  define c where "c = (if post \<and> ch = CR \<and> tc_oflag u AND OCRNL \<noteq> 0 then NL else ch)"
  define nl where "nl = (post \<and> c = NL \<and> tc_oflag u AND (ONLCR OR ONLRET) \<noteq> 0)"
  have out: "output_chars (tc_oflag u) ch = (if nl then [CR, c] else [c])"
    by (simp add: output_chars_def post_def c_def nl_def Let_def)
  obtain ret E1 u1 where p1: "(if nl then uart_putxmitchar ops CR ok E u else Some (OK, E, u)) = Some (ret, E1, u1)"
    and p2: "(case ret of Inl e \<Rightarrow> Some (Inl e, E1, u1) | Inr _ \<Rightarrow> uart_putxmitchar ops c ok E1 u1) = Some (r, E', u')"
    using assms(1) unfolding write_char_def Let_def post_def [symmetric] c_def [symmetric] nl_def [symmetric]
    by (auto simp: bind_eq_Some_conv)
  have u1: "env_keeps (tx_rel out) E1 \<and> ring_ok (xmit u1) \<and> tc_oflag u1 = tc_oflag u \<and>
      sent_stream out u1 = sent_stream out u @ (case ret of Inr _ \<Rightarrow> if nl then [CR] else [] | Inl _ \<Rightarrow> [])"
    using p1 putxmitchar_stream [of ops CR ok E u ret E1 u1 out] assms by (cases nl) (auto split: sum.splits)
  show ?thesis
  proof (cases ret)
    case (Inl e)
    with p2 u1 out show ?thesis by (auto simp: strict_prefix_def)
  next
    case (Inr x)
    then have "uart_putxmitchar ops c ok E1 u1 = Some (r, E', u')" using p2 by simp
    from putxmitchar_stream [OF this _ assms(3)] u1 Inr show ?thesis
      by (intro conjI exI [of _ "(if nl then [CR] else []) @ (case r of Inr _ \<Rightarrow> [c] | Inl _ \<Rightarrow> [])"])
        (auto simp: out strict_prefix_def split: sum.splits)
  qed
qed

text \<open>The characters of a request that have been written, and a part of the next when the ring got full in the middle of it.\<close>

definition on_line :: "('d \<Rightarrow> u8 list) \<Rightarrow> 'd uart_dev_s \<Rightarrow> 'd uart_dev_s \<Rightarrow> u8 list \<Rightarrow> nat \<Rightarrow> bool" where
  "on_line out u u' cs n \<longleftrightarrow> (\<exists>part.
     sent_stream out u' = sent_stream out u @ concat (map (output_chars (tc_oflag u)) (take n cs)) @ part \<and>
     (if n < length cs then strict_prefix part (output_chars (tc_oflag u) (cs ! n)) else part = []))"

lemma write_loop_stream:
  assumes "write_loop ops ok len n io E u = Some (r, io', E', u')" "env_keeps (tx_rel out) E"
    "\<forall>b. keeps (tx_rel out) (op_txint ops b)" "ring_ok (xmit u)" "uio_ok io" "uio_resid io = n" "n \<le> len"
  shows "ring_ok (xmit u') \<and> env_keeps (tx_rel out) E' \<and>
    (\<exists>m \<le> n. on_line out u u' (uio_flat io) m \<and> uio_pos io' = uio_pos io + m \<and> uio_mem io' = uio_mem io \<and>
      (case r of Inr k \<Rightarrow> k = len - n + m \<and> (0 < k \<or> len = 0) | Inl _ \<Rightarrow> n = len \<and> m = 0 \<and> 0 < n))"
  using assms
proof (induction n arbitrary: io E u)
  case 0
  then have "uio_flat io = []" using length_uio_flat [of io] by simp
  with 0 show ?case by (auto simp: on_line_def)
next
  case (Suc n)
  have flat: "uio_flat io = hd (uio_copyto 0 1 io) # uio_flat (uio_advance 1 io)"
    using uio_copyto_flat [of io 0 1] uio_advance_flat(2) [of io 1] Suc.prems(5,6) length_uio_flat [of io]
    by (cases "uio_flat io") auto
  then have first: "hd (uio_copyto 0 1 io) = uio_flat io ! 0" by (metis nth_Cons_0)
  obtain ret E1 u1 where w: "write_char ops ok (hd (uio_copyto 0 1 io)) E u = Some (ret, E1, u1)"
    and rest: "(case ret of Inl e \<Rightarrow> Some (if Suc n < len then Inr (len - Suc n) else Inl e, io, E1, u1)
      | Inr _ \<Rightarrow> write_loop ops ok len n (uio_advance 1 io) E1 u1) = Some (r, io', E', u')"
    using Suc.prems(1) by (auto simp: bind_eq_Some_conv)
  obtain part where w': "env_keeps (tx_rel out) E1" "ring_ok (xmit u1)" "tc_oflag u1 = tc_oflag u"
      "sent_stream out u1 = sent_stream out u @ part"
      "case ret of Inr _ \<Rightarrow> part = output_chars (tc_oflag u) (uio_flat io ! 0)
       | Inl _ \<Rightarrow> strict_prefix part (output_chars (tc_oflag u) (uio_flat io ! 0))"
    using write_char_stream [OF w Suc.prems(2,3,4)] unfolding first by blast
  show ?case
  proof (cases ret)
    case (Inl e)
    then have res: "r = (if Suc n < len then Inr (len - Suc n) else Inl e)" "io' = io" "E' = E1" "u' = u1"
      using rest by auto
    have "on_line out u u' (uio_flat io) 0"
      unfolding on_line_def using w'(4,5) Inl res(4) flat by (intro exI [of _ part]) simp
    with res w'(1,2) Suc.prems(7) show ?thesis by (intro conjI exI [of _ 0]) auto
  next
    case (Inr x)
    then have "write_loop ops ok len n (uio_advance 1 io) E1 u1 = Some (r, io', E', u')" using rest by simp
    note IH = Suc.IH [OF this w'(1) Suc.prems(3) w'(2)]
    note adv = uio_advance_flat [OF Suc.prems(5), of 1]
    obtain m where m: "m \<le> n" "on_line out u1 u' (uio_flat (uio_advance 1 io)) m" "ring_ok (xmit u')" "env_keeps (tx_rel out) E'"
        "uio_pos io' = uio_pos (uio_advance 1 io) + m" "uio_mem io' = uio_mem (uio_advance 1 io)"
        "case r of Inr k \<Rightarrow> k = len - n + m \<and> (0 < k \<or> len = 0) | Inl _ \<Rightarrow> n = len \<and> m = 0 \<and> 0 < n"
      using IH adv Suc.prems(6,7) by auto
    have "on_line out u u' (uio_flat io) (Suc m)"
      using m(2) w'(3,4,5) Inr unfolding on_line_def flat by auto
    then show ?thesis
      using m adv Suc.prems(6,7) by (intro conjI exI [of _ "Suc m"]) (auto split: sum.splits)
  qed
qed

section \<open>Writing without the ring\<close>

text \<open>
  Output from interrupt handlers and the idle task waits until the hardware is ready; \<open>busy\<close> bounds for how many polls it
  is not.
\<close>

definition tx_gets_ready :: "'d uart_ops_s \<Rightarrow> ('d \<Rightarrow> nat) \<Rightarrow> bool" where
  "tx_gets_ready ops busy \<longleftrightarrow> (\<forall>u. fst (op_txready ops u) \<or> busy (priv (snd (op_txready ops u))) < busy (priv u))"

lemma wait_txready_ok:
  assumes "tx_hw ops out" "tx_gets_ready ops busy"
  shows "\<exists>d. wait_txready ops u = Some (u\<lparr>priv := d\<rparr>) \<and> out d = out (priv u)"
proof (induction "busy (priv u)" arbitrary: u rule: less_induct)
  case less
  obtain b d where r: "op_txready ops u = (b, u\<lparr>priv := d\<rparr>)" "out d = out (priv u)"
    using tx_hw_ready [OF assms(1)] by blast
  show ?case
  proof (cases b)
    case True
    with r show ?thesis by (intro exI [of _ d]) (simp add: wait_txready.simps)
  next
    case False
    then have "busy d < busy (priv u)" using assms(2) r(1) by (auto simp: tx_gets_ready_def dest: spec [of _ u])
    then obtain d2 where "wait_txready ops (u\<lparr>priv := d\<rparr>) = Some (u\<lparr>priv := d2\<rparr>)" "out d2 = out d"
      using less [of "u\<lparr>priv := d\<rparr>"] by auto
    with False r show ?thesis by (intro exI [of _ d2]) (simp add: wait_txready.simps [of ops u])
  qed
qed

lemma putchars_ok:
  assumes "tx_hw ops out" "tx_gets_ready ops busy"
  shows "\<exists>d. uart_putchars ops cs u = Some (u\<lparr>priv := d\<rparr>) \<and> out d = out (priv u) @ cs"
proof (induction cs arbitrary: u)
  case Nil
  then show ?case by (intro exI [of _ "priv u"]) (simp add: uart_putchars.simps)
next
  case (Cons c cs)
  obtain d where w: "wait_txready ops u = Some (u\<lparr>priv := d\<rparr>)" "out d = out (priv u)"
    using wait_txready_ok [OF assms] by blast
  obtain d2 where snd: "op_send ops c (u\<lparr>priv := d\<rparr>) = u\<lparr>priv := d2\<rparr>" "out d2 = out d @ [c]"
    using tx_hw_send [OF assms(1), of c "u\<lparr>priv := d\<rparr>"] by auto
  obtain d3 where "uart_putchars ops cs (u\<lparr>priv := d2\<rparr>) = Some (u\<lparr>priv := d3\<rparr>)" "out d3 = out d2 @ cs"
    using Cons [of "u\<lparr>priv := d2\<rparr>"] by auto
  moreover have "op_sendbuf ops = None" using assms(1) by (simp add: tx_hw_def)
  ultimately show ?case
    using w snd by (intro exI [of _ d3]) (simp add: uart_putchars.simps [of ops "c # cs"])
qed

text \<open>The processing of this path; unlike in \<^verbatim>\<open>uart_writev\<close> a return that was mapped to a newline is final.\<close>

definition irq_output_chars :: "u32 \<Rightarrow> u8 \<Rightarrow> u8 list" where
  "irq_output_chars oflag ch =
     (if oflag AND OPOST \<noteq> 0 then
        (if ch = CR \<and> oflag AND OCRNL \<noteq> 0 then [NL]
         else if ch = NL \<and> oflag AND (ONLCR OR ONLRET) \<noteq> 0 then [CR, NL] else [ch])
      else [ch])"

lemma irqwrite_loop_ok:
  assumes "tx_hw ops out" "tx_gets_ready ops busy" "tc_oflag u AND OPOST \<noteq> 0"
  shows "\<exists>d pend'. irqwrite_loop ops pend cs u = Some (pend', u\<lparr>priv := d\<rparr>) \<and>
    out d @ pend' = out (priv u) @ pend @ concat (map (irq_output_chars (tc_oflag u)) cs)"
  using assms(3)
proof (induction cs arbitrary: pend u)
  case Nil
  then show ?case by (intro exI [of _ "priv u"]) simp
next
  case (Cons c cs)
  have two: "\<exists>d. do { u \<leftarrow> uart_putchars ops pend u; uart_putchars ops [x] u } = Some (u\<lparr>priv := d\<rparr>) \<and>
      out d = out (priv u) @ pend @ [x]" for x
  proof -
    obtain d where "uart_putchars ops pend u = Some (u\<lparr>priv := d\<rparr>)" "out d = out (priv u) @ pend"
      using putchars_ok [OF assms(1,2)] by blast
    moreover obtain d2 where "uart_putchars ops [x] (u\<lparr>priv := d\<rparr>) = Some (u\<lparr>priv := d2\<rparr>)" "out d2 = out d @ [x]"
      using putchars_ok [OF assms(1,2), of "[x]" "u\<lparr>priv := d\<rparr>"] by auto
    ultimately show ?thesis by (intro exI [of _ d2]) simp
  qed
  show ?case
  proof (cases "irq_output_chars (tc_oflag u) c = [c]")
    case True
    then have "irqwrite_loop ops pend (c # cs) u = irqwrite_loop ops (pend @ [c]) cs u"
      using Cons.prems by (auto simp: irq_output_chars_def split: if_splits)
    with Cons.IH [OF Cons.prems, of "pend @ [c]"] True show ?thesis by simp
  next
    case False
    then obtain x p where xp: "irq_output_chars (tc_oflag u) c = [x] @ p"
      "irqwrite_loop ops pend (c # cs) u =
         do { u \<leftarrow> do { u \<leftarrow> uart_putchars ops pend u; uart_putchars ops [x] u }; irqwrite_loop ops p cs u }"
      using Cons.prems by (auto simp: irq_output_chars_def split: if_splits)
    obtain d where d: "do { u \<leftarrow> uart_putchars ops pend u; uart_putchars ops [x] u } = Some (u\<lparr>priv := d\<rparr>)"
        "out d = out (priv u) @ pend @ [x]" using two [of x] by blast
    obtain d2 pend' where "irqwrite_loop ops p cs (u\<lparr>priv := d\<rparr>) = Some (pend', u\<lparr>priv := d2\<rparr>)"
        "out d2 @ pend' = out d @ p @ concat (map (irq_output_chars (tc_oflag u)) cs)"
      using Cons.IH [of "u\<lparr>priv := d\<rparr>" p] Cons.prems by auto
    with xp d show ?thesis by (intro exI [of _ d2] exI [of _ pend']) simp
  qed
qed

lemma irqwrite_ok:
  assumes "tx_hw ops out" "tx_gets_ready ops busy"
  shows "\<exists>d. uart_irqwrite ops cs u = Some (u\<lparr>priv := d\<rparr>) \<and>
    out d = out (priv u) @ concat (map (irq_output_chars (tc_oflag u)) cs)"
proof -
  obtain d pend where p: "(if tc_oflag u AND OPOST \<noteq> 0 then irqwrite_loop ops [] cs u else Some (cs, u)) = Some (pend, u\<lparr>priv := d\<rparr>)"
      "out d @ pend = out (priv u) @ concat (map (irq_output_chars (tc_oflag u)) cs)"
  proof (cases "tc_oflag u AND OPOST \<noteq> 0")
    case True
    with irqwrite_loop_ok [OF assms this, of "[]" cs] show ?thesis by (auto intro: that)
  next
    case False
    moreover have "concat (map (irq_output_chars (tc_oflag u)) cs) = cs"
      using False by (induction cs) (simp_all add: irq_output_chars_def)
    ultimately show ?thesis by (intro that [of cs "priv u"]) simp_all
  qed
  obtain d2 where "uart_putchars ops pend (u\<lparr>priv := d\<rparr>) = Some (u\<lparr>priv := d2\<rparr>)" "out d2 = out d @ pend"
    using putchars_ok [OF assms, of pend "u\<lparr>priv := d\<rparr>"] by auto
  with p show ?thesis unfolding uart_irqwrite_def by (intro exI [of _ d2]) simp
qed

lemma irqwritev_ok:
  assumes "tx_hw ops out" "tx_gets_ready ops busy" "n + length (concat iov) \<le> SSIZE_MAX"
  shows "\<exists>d. uart_irqwritev ops n iov u = Some (Inr (n + length (concat iov)), u\<lparr>priv := d\<rparr>) \<and>
    out d = out (priv u) @ concat (map (irq_output_chars (tc_oflag u)) (concat iov))"
  using assms(3)
proof (induction iov arbitrary: n u)
  case Nil
  then show ?case by (intro exI [of _ "priv u"]) simp
next
  case (Cons v iov)
  show ?case
  proof (cases "v = []")
    case False
    obtain d where d: "uart_irqwrite ops v u = Some (u\<lparr>priv := d\<rparr>)"
        "out d = out (priv u) @ concat (map (irq_output_chars (tc_oflag u)) v)"
      using irqwrite_ok [OF assms(1,2)] by blast
    obtain d2 where "uart_irqwritev ops (n + length v) iov (u\<lparr>priv := d\<rparr>) =
          Some (Inr (n + length v + length (concat iov)), u\<lparr>priv := d2\<rparr>)"
        "out d2 = out d @ concat (map (irq_output_chars (tc_oflag u)) (concat iov))"
      using Cons.IH [of "n + length v" "u\<lparr>priv := d\<rparr>"] Cons.prems by auto
    moreover have "\<not> SSIZE_MAX - n < length v" using Cons.prems by auto
    ultimately show ?thesis using False d by (intro exI [of _ d2]) (simp add: algebra_simps)
  qed (use Cons in simp)
qed

text \<open>
  A write from an interrupt handler sends everything before it returns; its processing agrees with that of other writes
  unless returns are mapped to newlines and newlines get returns.
\<close>

lemma irqwrite_complete:
  assumes "tx_hw ops out" "tx_gets_ready ops busy" "length (concat (uio_iov io)) \<le> SSIZE_MAX"
    "tc_oflag u AND OCRNL = 0 \<or> tc_oflag u AND (ONLCR OR ONLRET) = 0"
  shows "\<exists>d. uart_writev ops True nonblock io E u = Some (Inr (length (concat (uio_iov io))), io, E, u\<lparr>priv := d\<rparr>) \<and>
    out d = out (priv u) @ concat (map (output_chars (tc_oflag u)) (concat (uio_iov io)))"
proof -
  have "irq_output_chars (tc_oflag u) = output_chars (tc_oflag u)"
    using assms(4) by (auto simp: irq_output_chars_def output_chars_def fun_eq_iff Let_def)
  with irqwritev_ok [OF assms(1,2), of 0 "uio_iov io" u] assms(3) show ?thesis
    by (auto simp: uart_writev_def)
qed

lemma irqwrite_differs:
  "output_chars (OPOST OR OCRNL OR ONLCR) CR = [CR, NL] \<and> irq_output_chars (OPOST OR OCRNL OR ONLCR) CR = [NL]"
  by (simp add: output_chars_def irq_output_chars_def termios_flags)

section \<open>Examples\<close>

text \<open>The lock of the ring is free.\<close>

lemma free_xmit_lock:
  assumes "NXSEM_IS_MUTEX (sems (kern u) (lock (xmit u)))" "semval (sems (kern u) (lock (xmit u))) = NXSEM_NO_MHOLDER"
  shows "kcall (nxmutex_lock (lock (xmit u))) E u =
    Some (OK, E, u\<lparr>kern := set_semval (lock (xmit u)) (of_nat (this_task (kern u))) (kern u)\<rparr>)"
  using assms by (simp add: kcall_def nxmutex_lock_def nxsem_wait_def)

text \<open>A console port whose transmit ring has one free slot left, and a request to write a newline.\<close>

definition tight_port :: "(u8 list \<times> u8 list) uart_dev_s" where
  "tight_port = (demo_port [])\<lparr>tc_oflag := OPOST OR ONLCR, xmit := add_chars [65, 66] (empty_ring 1 4)\<rparr>"

definition newline :: uio where
  "newline = snd (uio_init [[NL]])"

lemma newline_ok: "uio_ok newline" "uio_flat newline = [NL]" "uio_resid newline = 1" "uio_copyto 0 1 newline = [NL]"
  by (simp_all add: newline_def uio_init_def uio_calc_resid_def uio_ok_def uio_flat_def uio_copyto_def SSIZE_MAX_def)

lemma tight_port_ok:
  "ring_ok (xmit tight_port)" "chars (xmit tight_port) = [65, 66]" "ring_space (xmit tight_port) = 1"
  "NXSEM_IS_MUTEX (sems (kern tight_port) (lock (xmit tight_port)))"
  "semval (sems (kern tight_port) (lock (xmit tight_port))) = NXSEM_NO_MHOLDER"
proof -
  note a = add_chars_ok [OF empty_ring_ok(1) [of 4 1], of "[65, 66]"]
  show ok: "ring_ok (xmit tight_port)" using a by (simp add: tight_port_def)
  show ch: "chars (xmit tight_port) = [65, 66]"
    using a by (simp add: tight_port_def empty_ring_ok del: length_chars) (simp add: empty_ring_def)
  have "size (xmit tight_port) = 4" using a by (simp add: tight_port_def) (simp add: empty_ring_def)
  then show "ring_space (xmit tight_port) = 1" using ring_space_count [OF ok] ch by (simp del: length_chars)
  have "lock (xmit tight_port) = 1" using a by (simp add: tight_port_def) (simp add: empty_ring_def)
  then show "NXSEM_IS_MUTEX (sems (kern tight_port) (lock (xmit tight_port)))"
    "semval (sems (kern tight_port) (lock (xmit tight_port))) = NXSEM_NO_MHOLDER"
    by (simp_all add: tight_port_def demo_port_def sems_mutex_init mutex_init_is_mutex)
qed

definition console_port :: "(u8 list \<times> u8 list) uart_dev_s" where
  "console_port = (demo_port [])\<lparr>tc_oflag := OPOST OR ONLCR\<rparr>"

lemma console_port_ok:
  "ring_ok (xmit console_port)" "sent_stream snd console_port = []" "tc_oflag console_port AND OPOST \<noteq> 0"
  "tc_oflag console_port AND (ONLCR OR ONLRET) \<noteq> 0"
  "NXSEM_IS_MUTEX (sems (kern console_port) (lock (xmit console_port)))"
  "semval (sems (kern console_port) (lock (xmit console_port))) = NXSEM_NO_MHOLDER"
proof -
  have "lock (xmit console_port) = 1" by (simp add: console_port_def demo_port_def empty_ring_def)
  then show "NXSEM_IS_MUTEX (sems (kern console_port) (lock (xmit console_port)))"
    "semval (sems (kern console_port) (lock (xmit console_port))) = NXSEM_NO_MHOLDER"
    by (simp_all add: console_port_def demo_port_def sems_mutex_init mutex_init_is_mutex)
qed (simp_all add: console_port_def demo_port_def empty_ring_ok sent_stream_def termios_flags)

lemma console_port_write:
  "\<exists>io' E' u'. uart_writev wire_ops False False newline E console_port = Some (Inr 1, io', E', u')"
  using free_xmit_lock [OF console_port_ok(5,6), of E] newline_ok(3,4) console_port_ok(3,4)
  by (simp add: uart_writev_def Let_def write_char_def uart_putxmitchar.simps wire_ops_def nexthead_def set_head_def
      store_char_def) (simp add: console_port_def demo_port_def empty_ring_def)

section \<open>Properties\<close>



text \<open>
  C36: With one free slot in the transmit ring and output processing that sends a return before a newline, writing a newline
  without blocking fails with \<^verbatim>\<open>EAGAIN\<close>, as if nothing had been done, but the return is already in the stream.  A
  caller that repeats the write when there is room sends a second return.\<close>

theorem nonblocking_write_repeats_return:
  assumes "tx_hw ops out" "ring_ok (xmit u)" "ring_space (xmit u) = 1"
    "tc_oflag u AND OPOST \<noteq> 0" "tc_oflag u AND (ONLCR OR ONLRET) \<noteq> 0"
    "NXSEM_IS_MUTEX (sems (kern u) (lock (xmit u)))" "semval (sems (kern u) (lock (xmit u))) = NXSEM_NO_MHOLDER"
  shows "\<exists>u'. uart_writev ops False True newline E u = Some (Inl EAGAIN, newline, E, u') \<and>
    sent_stream out u' = sent_stream out u @ [CR]"
proof -
  let ?u1 = "u\<lparr>kern := set_semval (lock (xmit u)) (of_nat (this_task (kern u))) (kern u)\<rparr>"
  obtain d where d: "op_txint ops False ?u1 = ?u1\<lparr>priv := d\<rparr>" "out d = out (priv u)"
    using tx_hw_int [OF assms(1), of False ?u1] by auto
  let ?b = "set_head (nexthead (xmit u)) (store_char CR (xmit u))"
  have "Suc (ring_count (xmit u)) \<noteq> size (xmit u)" "Suc (Suc (ring_count (xmit u))) = size (xmit u)"
    using ring_space_count [OF assms(2)] assms(3) by simp_all
  then have room: "nexthead (xmit u) \<noteq> tail (xmit u)" and size: "Suc (Suc (ring_count (xmit u))) = size (xmit u)"
    using nexthead_tail [OF assms(2)] by simp_all
  note b = ring_count_set_head [OF assms(2) room, of CR] add_char_ok [OF assms(2) room, of CR]
  have full: "nexthead ?b = tail ?b"
    using nexthead_tail [OF b(2)] b(1) size by (simp add: set_head_def store_char_def)
  define v where "v = (if head ?b \<noteq> tail ?b then op_txint ops True (?u1\<lparr>priv := d, xmit := ?b\<rparr>) else ?u1\<lparr>priv := d, xmit := ?b\<rparr>)"
  have "write_char ops False NL E (?u1\<lparr>priv := d\<rparr>) = Some (Inl EAGAIN, E, ?u1\<lparr>priv := d, xmit := ?b\<rparr>)"
    using room full assms(4,5) by (simp add: write_char_def uart_putxmitchar.simps)
  then have "uart_writev ops False True newline E u = Some (Inl EAGAIN, newline, E, unlock (lock (xmit v)) v)"
    using free_xmit_lock [OF assms(6,7), of E] d(1) newline_ok(3,4) by (simp add: uart_writev_def v_def Let_def)
  moreover obtain d2 where "out (priv v) = out d2" "out d2 = out d" "xmit v = ?b"
    using tx_hw_int [OF assms(1), of True "?u1\<lparr>priv := d, xmit := ?b\<rparr>"] by (auto simp: v_def)
  ultimately show ?thesis
    using b(3) d(2) by (auto simp: sent_stream_def unlock_def on_kern_def)
qed

theorem nonblocking_write_repeats_return_witness:
  "\<exists>u'. uart_writev wire_ops False True newline \<lparr>irqs = [], waits = []\<rparr> tight_port = Some (Inl EAGAIN, newline, \<lparr>irqs = [], waits = []\<rparr>, u') \<and>
     sent_stream snd u' = [65, 66, CR]"
proof -
  have "sent_stream snd tight_port = [65, 66]"
    using tight_port_ok(2) by (simp add: sent_stream_def) (simp add: tight_port_def demo_port_def)
  moreover have "tc_oflag tight_port AND OPOST \<noteq> 0" "tc_oflag tight_port AND (ONLCR OR ONLRET) \<noteq> 0"
    by (simp_all add: tight_port_def termios_flags)
  ultimately show ?thesis
    using nonblocking_write_repeats_return [OF wire_hw(2) tight_port_ok(1,3) _ _ tight_port_ok(4,5)] by simp
qed

end
