(* ===== verification/Serial_Control.thy ===== *)
theory Serial_Control
  imports Serial_Interrupt
begin

text \<open>
  The operations of a serial port besides reading and writing: opening and closing, the queries and settings, and
  polling, with the locks free.
\<close>

section \<open>Calls that do not block\<close>

lemma kcall_free:
  assumes "NXSEM_IS_MUTEX (sems (kern u) a)" "semval (sems (kern u) a) = NXSEM_NO_MHOLDER"
  shows "kcall (nxmutex_lock a) E u = Some (OK, E, u\<lparr>kern := set_semval a (of_nat (this_task (kern u))) (kern u)\<rparr>)"
  using free_lock(1) [OF assms] by (simp add: kcall_def)

lemma unlock_free:
  assumes "NXSEM_IS_MUTEX (sems (kern u) a)" "semval (sems (kern u) a) = NXSEM_NO_MHOLDER" "kinv (kern u)"
    "kern v = set_semval a (of_nat (this_task (kern u))) (kern u)"
  shows "unlock a v = v\<lparr>kern := kern u\<rparr>"
  using free_lock(2) [OF assms(1,2,3)] assms(4) by (simp add: unlock_def on_kern_def)

section \<open>Opening and closing\<close>

text \<open>
  A port that is open is opened again by counting, up to 255 times; one more is refused.  Closing counts
  back.  Neither touches the hardware, the rings or, once the call has returned, the lock.
\<close>

lemma reopen:
  assumes "open_count u \<noteq> 0" "NXSEM_IS_MUTEX (sems (kern u) (closelock u))"
    "semval (sems (kern u) (closelock u)) = NXSEM_NO_MHOLDER" "kinv (kern u)"
  shows "uart_open ops E u = Some
    (if open_count u = 255 then (Inl EMFILE, E, u) else (OK, E, u\<lparr>open_count := open_count u + 1\<rparr>))"
proof -
  have "(255 :: u8) = - 1" by simp
  then have "open_count u + 1 = 0 \<longleftrightarrow> open_count u = 255" by (simp only: add_eq_0_iff2)
  then show ?thesis
    using assms kcall_free [OF assms(2,3), of E] by (simp add: uart_open_def unlock_free Let_def)
qed

lemma close_not_last:
  assumes "1 < open_count u" "NXSEM_IS_MUTEX (sems (kern u) (closelock u))"
    "semval (sems (kern u) (closelock u)) = NXSEM_NO_MHOLDER" "kinv (kern u)"
  shows "uart_close ops nonblock E u = Some (E, u\<lparr>open_count := open_count u - 1\<rparr>)"
  using assms kcall_free [OF assms(2,3), of E] by (simp add: uart_close_def unlock_free Let_def)

text \<open>When starting the port fails at the first opening, it stays closed; a port that was set up and could not be attached is shut down.\<close>

lemma failed_first_open:
  assumes "open_count u = 0" "NXSEM_IS_MUTEX (sems (kern u) (closelock u))"
    "semval (sems (kern u) (closelock u)) = NXSEM_NO_MHOLDER"
    "uart_startup ops (u\<lparr>kern := set_semval (closelock u) (of_nat (this_task (kern u))) (kern u)\<rparr>) = (Inl e, v)"
  shows "uart_open ops E u = Some (Inl e, E, unlock (closelock v) v)"
  using assms kcall_free [OF assms(2,3), of E] by (simp add: uart_open_def)

section \<open>Queries and settings\<close>

lemma ioctl_counts:
  assumes "op_ioctl ops = None" "ring_ok (recv u)" "ring_ok (xmit u)"
  shows "uart_ioctl ops FIONREAD E u = Some ((Inr 0, Count (length (chars (recv u)))), E, u)"
    and "uart_ioctl ops FIONWRITE E u = Some ((Inr 0, Count (length (chars (xmit u)))), E, u)"
    and "uart_ioctl ops FIONSPACE E u = Some ((Inr 0, Count (size (xmit u) - 1 - length (chars (xmit u)))), E, u)"
  using assms by (simp_all add: uart_ioctl_def uart_tty_ioctl_def ring_space_count)

text \<open>The modes that are set are the ones read back.\<close>

lemma ioctl_termios:
  assumes "op_ioctl ops = None"
  shows "\<exists>u'. uart_ioctl ops (TCSETS (Some t)) E u = Some ((Inr 0, NoOut), E, u') \<and>
    uart_ioctl ops (TCGETS (Some t0)) E u' = Some ((Inr 0, Termios (t0\<lparr>c_iflag := c_iflag t, c_oflag := c_oflag t, c_lflag := c_lflag t\<rparr>)), E, u')"
  using assms by (simp add: uart_ioctl_def uart_tty_ioctl_def stored_termios_def)

lemma ioctl_flush_input:
  assumes "op_ioctl ops = None" "ring_ok (recv u)"
  shows "\<exists>u'. uart_ioctl ops (TCFLSH 0) E u = Some ((Inr 0, NoOut), E, u') \<and> chars (recv u') = [] \<and> xmit u' = xmit u"
  using assms flush_ring_ok by (simp add: uart_ioctl_def uart_tty_ioctl_def Let_def)

section \<open>Polling\<close>

lemma free_slot_some: "free_slot fs = Some i \<Longrightarrow> i < length fs \<and> fs ! i = None"
  by (induction fs arbitrary: i rule: free_slot.induct) auto

lemma free_slot_none: "free_slot fs = None \<longleftrightarrow> None \<notin> set fs"
  by (induction fs rule: free_slot.induct) auto

text \<open>A thread that polls when all slots are taken is refused.\<close>

lemma poll_busy:
  assumes "None \<notin> set (take SERIAL_NPOLLWAITERS (fds u))"
  shows "uart_poll True pfd slot E u = Some ((Inl EBUSY, None), E, u)"
proof -
  have "free_slot (take SERIAL_NPOLLWAITERS (fds u)) = None" using assms free_slot_none by blast
  then show ?thesis
    by (simp add: uart_poll_def uart_poll_setup_def enter_critical_section_def leave_critical_section_def)
qed

text \<open>
  Tearing down leaves the critical section that it enters when the caller has a slot, and does not when it has none:
  interrupts stay disabled.
\<close>

lemma poll_teardown_crit:
  "\<exists>u'. uart_poll False pfd slot E u = Some ((OK, None), E, u') \<and> crit u' = (if slot = None then crit u + 1 else crit u)"
  by (cases slot) (simp_all add: uart_poll_def enter_critical_section_def leave_critical_section_def)

end
