(* ===== verification/Mm_Heap.thy ===== *)
theory Mm_Heap
  imports NxMutex "HOL-Library.Monad_Syntax"
begin

text \<open>
  The memory manager (\<^verbatim>\<open>nuttx/mm/mm_heap\<close>) of the board's configuration: 32-bit sizes, an
  alignment of eight bytes, no guard bytes, no backtrace, no memory pools, no delayed frees other than
  those a caller that cannot wait leaves behind, three regions.  \<open>DEBUGASSERT\<close> is compiled out.

  Memory is a function from byte addresses to 32-bit words; every pointer the manager follows is a
  multiple of four, so a word is read and written as a whole.  A chunk header is two words,
  \<open>preceding\<close> and \<open>size\<close>, a free chunk has two more, \<open>flink\<close> and \<open>blink\<close>; the sixteen bytes of
  each \<^verbatim>\<open>mm_nodelist\<close> entry lie in memory too, at \<open>mm_nodelist\<close>.  Since regions end below
  \<open>2 ^ 32\<close>, addresses and sizes found in memory are natural numbers; requests and statistics are words.
\<close>

section \<open>Constants\<close>

definition MM_MIN_SHIFT :: nat where [simp]: "MM_MIN_SHIFT = 4"
definition MM_MAX_SHIFT :: nat where [simp]: "MM_MAX_SHIFT = 22"
definition MM_MIN_CHUNK :: nat where [simp]: "MM_MIN_CHUNK = 2 ^ MM_MIN_SHIFT"
definition MM_MAX_CHUNK :: nat where [simp]: "MM_MAX_CHUNK = 2 ^ MM_MAX_SHIFT"
definition MM_NNODES :: nat where [simp]: "MM_NNODES = MM_MAX_SHIFT - MM_MIN_SHIFT + 1"
definition MM_ALIGN :: u32 where [simp]: "MM_ALIGN = 8"
definition MM_GRAN_MASK :: u32 where [simp]: "MM_GRAN_MASK = MM_ALIGN - 1"
definition MM_SIZEOF_ALLOCNODE :: nat where [simp]: "MM_SIZEOF_ALLOCNODE = 8"
definition MM_ALLOCNODE_OVERHEAD :: nat where [simp]: "MM_ALLOCNODE_OVERHEAD = MM_SIZEOF_ALLOCNODE - 4"
definition CONFIG_MM_REGIONS :: nat where [simp]: "CONFIG_MM_REGIONS = 3"

definition MM_ALIGN_UP :: "u32 \<Rightarrow> u32" where
  "MM_ALIGN_UP a = (a + MM_GRAN_MASK) AND NOT MM_GRAN_MASK"

definition MM_ALIGN_DOWN :: "u32 \<Rightarrow> u32" where
  "MM_ALIGN_DOWN a = a AND NOT MM_GRAN_MASK"

section \<open>The heap\<close>

text \<open>
  \<^verbatim>\<open>struct mm_heap_s\<close> with the memory it manages and the kernel that owns its mutex, whose address is
  \<open>mm_mutex\<close>.  \<open>mm_nodelist\<close> is the address of the array, \<open>mm_delaylist\<close> the one of the first deferred
  block (0 for none).
\<close>

record mm_heap_s =
  mm_mutex :: nat
  mm_heapsize :: u32
  mm_maxused :: u32
  mm_curused :: u32
  mm_heapstart :: "nat list"
  mm_heapend :: "nat list"
  mm_nregions :: nat
  mm_nodelist :: nat
  mm_delaylist :: nat
  mm_mem :: "nat \<Rightarrow> nat"
  mm_kern :: kernel

text \<open>
  The context of a call: whether it runs in an interrupt handler, and, for a task that must wait for the
  mutex, the state in which its call of \<open>nxmutex_lock\<close> returns, given the one in which it blocked.
\<close>

record mm_env =
  in_irq :: bool
  mm_resume :: "mm_heap_s \<Rightarrow> mm_heap_s"

definition nd_preceding :: "mm_heap_s \<Rightarrow> nat \<Rightarrow> nat" where "nd_preceding h p = mm_mem h p"
definition nd_size :: "mm_heap_s \<Rightarrow> nat \<Rightarrow> nat" where "nd_size h p = mm_mem h (p + 4)"
definition nd_flink :: "mm_heap_s \<Rightarrow> nat \<Rightarrow> nat" where "nd_flink h p = mm_mem h (p + 8)"
definition nd_blink :: "mm_heap_s \<Rightarrow> nat \<Rightarrow> nat" where "nd_blink h p = mm_mem h (p + 12)"

definition put :: "nat \<Rightarrow> nat \<Rightarrow> mm_heap_s \<Rightarrow> mm_heap_s" where
  "put x v h = h\<lparr>mm_mem := (mm_mem h)(x := v)\<rparr>"

abbreviation set_preceding :: "nat \<Rightarrow> nat \<Rightarrow> mm_heap_s \<Rightarrow> mm_heap_s" where "set_preceding p \<equiv> put p"
abbreviation set_size :: "nat \<Rightarrow> nat \<Rightarrow> mm_heap_s \<Rightarrow> mm_heap_s" where "set_size p \<equiv> put (p + 4)"
abbreviation set_flink :: "nat \<Rightarrow> nat \<Rightarrow> mm_heap_s \<Rightarrow> mm_heap_s" where "set_flink p \<equiv> put (p + 8)"
abbreviation set_blink :: "nat \<Rightarrow> nat \<Rightarrow> mm_heap_s \<Rightarrow> mm_heap_s" where "set_blink p \<equiv> put (p + 12)"

text \<open>The flags in the two low bits of a size.\<close>

definition MM_ALLOC_BIT :: nat where "MM_ALLOC_BIT = 1"
definition MM_PREVFREE_BIT :: nat where "MM_PREVFREE_BIT = 2"
definition MM_MASK_BIT :: nat where "MM_MASK_BIT = MM_ALLOC_BIT OR MM_PREVFREE_BIT"

definition clear_bits :: "nat \<Rightarrow> nat \<Rightarrow> nat" where
  "clear_bits v b = v - (v AND b)"

definition MM_SIZEOF_NODE :: "mm_heap_s \<Rightarrow> nat \<Rightarrow> nat" where
  "MM_SIZEOF_NODE h p = clear_bits (nd_size h p) MM_MASK_BIT"

definition MM_NODE_IS_ALLOC :: "mm_heap_s \<Rightarrow> nat \<Rightarrow> bool" where
  "MM_NODE_IS_ALLOC h p \<longleftrightarrow> nd_size h p AND MM_ALLOC_BIT \<noteq> 0"

definition MM_NODE_IS_FREE :: "mm_heap_s \<Rightarrow> nat \<Rightarrow> bool" where
  "MM_NODE_IS_FREE h p \<longleftrightarrow> nd_size h p AND MM_ALLOC_BIT = 0"

definition MM_PREVNODE_IS_FREE :: "mm_heap_s \<Rightarrow> nat \<Rightarrow> bool" where
  "MM_PREVNODE_IS_FREE h p \<longleftrightarrow> nd_size h p AND MM_PREVFREE_BIT \<noteq> 0"

section \<open>The free list\<close>

fun flsl :: "nat \<Rightarrow> nat" where
  "flsl j = (if j = 0 then 0 else Suc (flsl (j div 2)))"

declare flsl.simps [simp del]

definition mm_size2ndx :: "nat \<Rightarrow> int" where
  "mm_size2ndx sz =
     (if sz \<ge> MM_MAX_CHUNK then int MM_NNODES - 1
      else int (flsl (drop_bit MM_MIN_SHIFT sz)) - 1)"

text \<open>\<^verbatim>\<open>&heap->mm_nodelist[ndx]\<close>.\<close>

definition nodelist :: "mm_heap_s \<Rightarrow> int \<Rightarrow> nat" where
  "nodelist h ndx = nat (int (mm_nodelist h) + 16 * ndx)"

text \<open>The walk of \<^verbatim>\<open>mm_addfreechunk\<close> to the place of a chunk of \<open>nodesize\<close> bytes.\<close>

partial_function (option) addfree_walk :: "mm_heap_s \<Rightarrow> nat \<Rightarrow> nat \<Rightarrow> nat \<Rightarrow> (nat \<times> nat) option" where
  "addfree_walk h nodesize prv nxt =
     (if nxt \<noteq> 0 \<and> nd_size h nxt \<noteq> 0 \<and> MM_SIZEOF_NODE h nxt < nodesize
      then addfree_walk h nodesize nxt (nd_flink h nxt)
      else Some (prv, nxt))"

definition mm_addfreechunk :: "nat \<Rightarrow> mm_heap_s \<Rightarrow> mm_heap_s option" where
  "mm_addfreechunk node h =
     (let nodesize = MM_SIZEOF_NODE h node;
          hd = nodelist h (mm_size2ndx nodesize)
      in do {
        (prv, nxt) \<leftarrow> addfree_walk h nodesize hd (nd_flink h hd);
        let h = set_flink prv node h;
        let h = set_blink node prv h;
        let h = set_flink node nxt h;
        Some (if nxt \<noteq> 0 then set_blink nxt node h else h)
      })"

text \<open>The removal of a free chunk from the list, which every operation that consumes one repeats.\<close>

definition remove_node :: "nat \<Rightarrow> mm_heap_s \<Rightarrow> mm_heap_s" where
  "remove_node node h =
     (let h = set_flink (nd_blink h node) (nd_flink h node) h
      in if nd_flink h node \<noteq> 0 then set_blink (nd_flink h node) (nd_blink h node) h else h)"

section \<open>Locking\<close>

text \<open>\<^verbatim>\<open>nxsched_gettid\<close>: the head of the ready-to-run list may not be running yet.\<close>

definition nxsched_gettid :: "kernel \<Rightarrow> pid res" where
  "nxsched_gettid k =
     (if task_state (tcbs k (this_task k)) = TSTATE_TASK_RUNNING then Inr (this_task k) else Inl ESRCH)"

definition mm_lock :: "mm_env \<Rightarrow> mm_heap_s \<Rightarrow> unit res \<times> mm_heap_s" where
  "mm_lock E h =
     (if in_irq E then (if nxmutex_is_locked (mm_mutex h) (mm_kern h) then (Inl EAGAIN, h) else (OK, h))
      else (case nxsched_gettid (mm_kern h) of
              Inl e \<Rightarrow> (Inl e, h)
            | Inr _ \<Rightarrow> (case nxmutex_lock (mm_mutex h) (mm_kern h) of
                 (Returned _, k) \<Rightarrow> (OK, h\<lparr>mm_kern := k\<rparr>)
               | (Blocked, k) \<Rightarrow> (OK, mm_resume E (h\<lparr>mm_kern := k\<rparr>)))))"

definition mm_unlock :: "mm_env \<Rightarrow> mm_heap_s \<Rightarrow> mm_heap_s" where
  "mm_unlock E h =
     (if in_irq E then h else h\<lparr>mm_kern := snd (nxmutex_unlock (mm_mutex h) (mm_kern h))\<rparr>)"

section \<open>Freeing\<close>

definition mm_malloc_size :: "nat \<Rightarrow> mm_heap_s \<Rightarrow> nat" where
  "mm_malloc_size mem h =
     (if mem = 0 then 0 else MM_SIZEOF_NODE h (mem - MM_SIZEOF_ALLOCNODE) - MM_ALLOCNODE_OVERHEAD)"

text \<open>The first word of a deferred block links it to the next one.\<close>

definition add_delaylist :: "nat \<Rightarrow> mm_heap_s \<Rightarrow> mm_heap_s" where
  "add_delaylist mem h = (put mem (mm_delaylist h) h)\<lparr>mm_delaylist := mem\<rparr>"

text \<open>\<^verbatim>\<open>mm_delayfree\<close>: the part that merges the chunk with a free successor, which returns the successor.\<close>

definition merge_next :: "nat \<Rightarrow> nat \<Rightarrow> mm_heap_s \<Rightarrow> nat \<times> nat \<times> mm_heap_s" where
  "merge_next node nodesize h =
     (let nxt = node + nodesize
      in if MM_NODE_IS_FREE h nxt then
           (let nextsize = MM_SIZEOF_NODE h nxt;
                andbeyond = nxt + nextsize;
                h = remove_node nxt h;
                nodesize = nodesize + nextsize;
                h = set_size node (nodesize OR (nd_size h node AND MM_MASK_BIT)) h;
                h = set_preceding andbeyond nodesize h
            in (andbeyond, nodesize, h))
         else
           (let h = set_size nxt (nd_size h nxt OR MM_PREVFREE_BIT) h;
                h = set_preceding nxt nodesize h
            in (nxt, nodesize, h)))"

text \<open>The part that merges it with a free predecessor, which returns the chunk to list.\<close>

definition merge_prev :: "nat \<Rightarrow> nat \<Rightarrow> nat \<Rightarrow> mm_heap_s \<Rightarrow> nat \<times> mm_heap_s" where
  "merge_prev node nodesize nxt h =
     (if MM_PREVNODE_IS_FREE h node then
        (let prv = node - nd_preceding h node;
             prevsize = MM_SIZEOF_NODE h prv;
             h = remove_node prv h;
             prevsize = prevsize + nodesize;
             h = set_size prv (prevsize OR (nd_size h prv AND MM_MASK_BIT)) h;
             h = set_preceding nxt prevsize h
         in (prv, h))
      else (node, h))"

definition mm_delayfree :: "mm_env \<Rightarrow> nat \<Rightarrow> bool \<Rightarrow> mm_heap_s \<Rightarrow> mm_heap_s option" where
  "mm_delayfree E mem delay h =
     (case mm_lock E h of
        (Inl _, h) \<Rightarrow> Some (add_delaylist mem h)
      | (Inr _, h) \<Rightarrow>
          if delay then Some (add_delaylist mem (mm_unlock E h))
          else
            (let node = mem - MM_SIZEOF_ALLOCNODE;
                 nodesize = MM_SIZEOF_NODE h node;
                 h = set_size node (clear_bits (nd_size h node) MM_ALLOC_BIT) h;
                 h = h\<lparr>mm_curused := mm_curused h - of_nat nodesize\<rparr>;
                 (nxt, nodesize, h) = merge_next node nodesize h;
                 (node, h) = merge_prev node nodesize nxt h
             in do { h \<leftarrow> mm_addfreechunk node h; Some (mm_unlock E h) }))"

definition mm_free :: "mm_env \<Rightarrow> nat \<Rightarrow> mm_heap_s \<Rightarrow> mm_heap_s option" where
  "mm_free E mem h = (if mem = 0 then Some h else mm_delayfree E mem False h)"

partial_function (option) delayed_frees :: "mm_env \<Rightarrow> nat \<Rightarrow> mm_heap_s \<Rightarrow> mm_heap_s option" where
  "delayed_frees E tmp h =
     (if tmp = 0 then Some h
      else do { h' \<leftarrow> mm_delayfree E tmp False h; delayed_frees E (mm_mem h tmp) h' })"

definition free_delaylist :: "mm_env \<Rightarrow> mm_heap_s \<Rightarrow> (bool \<times> mm_heap_s) option" where
  "free_delaylist E h =
     (let tmp = mm_delaylist h
      in do { h \<leftarrow> delayed_frees E tmp (h\<lparr>mm_delaylist := 0\<rparr>); Some (tmp \<noteq> 0, h) })"

definition mm_free_delaylist :: "mm_env \<Rightarrow> mm_heap_s \<Rightarrow> mm_heap_s option" where
  "mm_free_delaylist E h = map_option snd (free_delaylist E h)"

section \<open>Allocating\<close>

text \<open>The size of the chunk for a request; \<open>None\<close> when the sum wraps around.\<close>

definition chunk_size :: "u32 \<Rightarrow> u32 option" where
  "chunk_size req =
     (let sz = (if req < of_nat (MM_MIN_CHUNK - MM_ALLOCNODE_OVERHEAD)
                  then of_nat (MM_MIN_CHUNK - MM_ALLOCNODE_OVERHEAD) else req);
          alignsize = MM_ALIGN_UP (sz + of_nat MM_ALLOCNODE_OVERHEAD)
      in if alignsize < sz then None else Some alignsize)"

partial_function (option) malloc_walk :: "mm_heap_s \<Rightarrow> nat \<Rightarrow> nat \<Rightarrow> nat option" where
  "malloc_walk h alignsize node =
     (if node = 0 then Some 0
      else if MM_SIZEOF_NODE h node \<ge> alignsize then Some node
      else malloc_walk h alignsize (nd_flink h node))"

definition add_used :: "nat \<Rightarrow> mm_heap_s \<Rightarrow> mm_heap_s" where
  "add_used n h =
     (let h = h\<lparr>mm_curused := mm_curused h + of_nat n\<rparr>
      in if mm_curused h > mm_maxused h then h\<lparr>mm_maxused := mm_curused h\<rparr> else h)"

text \<open>What \<^verbatim>\<open>mm_malloc\<close> does with the chunk it found.\<close>

definition take_node :: "nat \<Rightarrow> nat \<Rightarrow> mm_heap_s \<Rightarrow> mm_heap_s option" where
  "take_node node alignsize h =
     (let nodesize = MM_SIZEOF_NODE h node;
          h = remove_node node h;
          nxt = node + nodesize;
          remaining = nodesize - alignsize
      in do {
        h \<leftarrow> (if remaining \<ge> MM_MIN_CHUNK then
                (let remainder = node + alignsize;
                     h = set_size remainder remaining h;
                     h = set_size node (alignsize OR (nd_size h node AND MM_MASK_BIT)) h;
                     h = set_preceding nxt remaining h
                 in mm_addfreechunk remainder h)
              else Some (set_size nxt (clear_bits (nd_size h nxt) MM_PREVFREE_BIT) h));
        let h = add_used (MM_SIZEOF_NODE h node) h;
        Some (set_size node (nd_size h node OR MM_ALLOC_BIT) h)
      })"

definition mm_malloc :: "mm_env \<Rightarrow> u32 \<Rightarrow> mm_heap_s \<Rightarrow> (nat \<times> mm_heap_s) option" where
  "mm_malloc E req h = do {
     (_, h) \<leftarrow> free_delaylist E h;
     case chunk_size req of
       None \<Rightarrow> Some (0, h)
     | Some alignsize \<Rightarrow>
         let n = unat alignsize;
             h = snd (mm_lock E h)
         in do {
           node \<leftarrow> malloc_walk h n (nd_flink h (nodelist h (mm_size2ndx n)));
           if node = 0 then Some (0, mm_unlock E h)
           else do { h \<leftarrow> take_node node n h; Some (node + MM_SIZEOF_ALLOCNODE, mm_unlock E h) }
         }
   }"

end
