(* ===== verification/Mm_Freelist.thy ===== *)
theory Mm_Freelist
  imports Mm_Heap
begin

text \<open>
  The free list of the memory manager.
\<close>

section \<open>Sizes and flags\<close>

text \<open>The word that holds the size \<open>s\<close> of a chunk, whether it is allocated and whether the one before is free.\<close>

definition enc :: "nat \<Rightarrow> bool \<Rightarrow> bool \<Rightarrow> nat" where
  "enc s al pf = s + of_bool al + 2 * of_bool pf"

lemma and_or_low:
  fixes x :: nat
  shows "x AND 2 = 2 * (x div 2 mod 2)" "x AND 3 = x mod 4" "x OR 2 = x + 2 * of_bool (even (x div 2))"
    "x OR 3 = x + of_bool (even x) + 2 * of_bool (even (x div 2))" "x OR Suc 0 = x + of_bool (even x)"
proof -
  have "x AND 2 = 2 * ((x div 2) AND 1)" by (subst and_nat_rec) simp
  then show "x AND 2 = 2 * (x div 2 mod 2)" by (simp add: and_one_eq)
  show "x AND 3 = x mod 4" using take_bit_eq_mask [of 2 x] by (simp add: take_bit_eq_mod mask_eq_exp_minus_1)
  have "x OR 2 = of_bool (odd x) + 2 * ((x div 2) OR 1)" by (subst or_nat_rec) simp
  also have "(x div 2) OR 1 = x div 2 + of_bool (even (x div 2))" by (rule or_one_eq)
  finally show "x OR 2 = x + 2 * of_bool (even (x div 2))" by (cases "even (x div 2)"; cases "even x"; simp)
  have "x OR 3 = 1 + 2 * ((x div 2) OR 1)" by (subst or_nat_rec) simp
  also have "(x div 2) OR 1 = x div 2 + of_bool (even (x div 2))" by (rule or_one_eq)
  finally show "x OR 3 = x + of_bool (even x) + 2 * of_bool (even (x div 2))"
    by (cases "even (x div 2)"; cases "even x"; simp)
  show "x OR Suc 0 = x + of_bool (even x)" using or_one_eq [of x] by simp
qed

lemma enc_bits:
  assumes "4 dvd s"
  shows "enc s al pf AND 1 = of_bool al" "enc s al pf AND 2 = 2 * of_bool pf"
    "enc s al pf AND 3 = of_bool al + 2 * of_bool pf"
    "enc s al pf OR 1 = enc s True pf" "enc s al pf OR 2 = enc s al True"
    "s OR (of_bool al + 2 * of_bool pf) = enc s al pf"
proof -
  obtain q where q: "s = 4 * q" using assms by (rule dvdE)
  show "enc s al pf AND 1 = of_bool al"
    by (cases al; cases pf; simp add: enc_def q and_one_eq; presburger)
  show "enc s al pf AND 2 = 2 * of_bool pf"
    by (cases al; cases pf; simp add: enc_def q and_or_low; presburger)
  show "enc s al pf AND 3 = of_bool al + 2 * of_bool pf"
    by (cases al; cases pf; simp add: enc_def q and_or_low; presburger)
  show "enc s al pf OR 1 = enc s True pf"
    by (cases al; cases pf; simp add: enc_def q and_or_low)
  show "enc s al pf OR 2 = enc s al True"
    by (cases al; cases pf; simp add: enc_def q and_or_low; presburger)
  show "s OR (of_bool al + 2 * of_bool pf) = enc s al pf"
  proof -
    have "4 * q OR 0 = 4 * q" "4 * q OR 1 = 4 * q + 1" "4 * q OR 2 = 4 * q + 2" "4 * q OR 3 = 4 * q + 3"
      by (simp_all add: and_or_low)
    moreover have "of_bool al + 2 * of_bool pf = (if al then if pf then 3 else 1 else if pf then 2 else (0 :: nat))"
      by simp
    ultimately show ?thesis unfolding enc_def q by (auto simp: add.assoc)
  qed
qed

lemma clear_enc:
  assumes "4 dvd s"
  shows "clear_bits (enc s al pf) MM_MASK_BIT = s" "clear_bits (enc s al pf) MM_ALLOC_BIT = enc s False pf"
    "clear_bits (enc s al pf) MM_PREVFREE_BIT = enc s al False"
  using enc_bits [OF assms, of al pf] and_or_low(5) [of 2]
  by (simp_all add: clear_bits_def MM_MASK_BIT_def MM_ALLOC_BIT_def MM_PREVFREE_BIT_def enc_def or.commute)

lemma mask_bits: "MM_MASK_BIT = 3"
  using and_or_low(3) [of 1] by (simp add: MM_MASK_BIT_def MM_ALLOC_BIT_def MM_PREVFREE_BIT_def)

text \<open>Reading and rewriting the size word of a chunk.\<close>

lemma size_word:
  assumes "nd_size h p = enc s al pf" "4 dvd s"
  shows "MM_SIZEOF_NODE h p = s" "MM_NODE_IS_ALLOC h p = al" "MM_NODE_IS_FREE h p = (\<not> al)"
    "MM_PREVNODE_IS_FREE h p = pf"
  using assms clear_enc(1) [OF assms(2)] enc_bits(1,2) [OF assms(2), of al pf]
  by (simp_all add: MM_SIZEOF_NODE_def MM_NODE_IS_ALLOC_def MM_NODE_IS_FREE_def MM_PREVNODE_IS_FREE_def
    MM_ALLOC_BIT_def MM_PREVFREE_BIT_def)

lemma size_word_set:
  assumes "4 dvd s"
  shows "enc s al pf OR MM_ALLOC_BIT = enc s True pf" "enc s al pf OR MM_PREVFREE_BIT = enc s al True"
    "4 dvd t \<Longrightarrow> t OR (enc s al pf AND MM_MASK_BIT) = enc t al pf"
  using enc_bits [OF assms, of al pf] enc_bits(6) [of t al pf]
  by (simp_all add: mask_bits MM_ALLOC_BIT_def MM_PREVFREE_BIT_def)

lemma enc_plain [simp]: "enc s False False = s"
  by (simp add: enc_def)

section \<open>Doubly linked lists in memory\<close>

text \<open>The first element of a list of addresses, or the address that follows it; the last, or the one before.\<close>

definition first :: "nat list \<Rightarrow> nat \<Rightarrow> nat" where
  "first xs n = (case xs of [] \<Rightarrow> n | x # _ \<Rightarrow> x)"

definition final :: "nat \<Rightarrow> nat list \<Rightarrow> nat" where
  "final p xs = (if xs = [] then p else last xs)"

lemma first_simps [simp]: "first [] n = n" "first (x # xs) n = x"
  by (simp_all add: first_def)

lemma first_append: "first (xs @ ys) n = first xs (first ys n)"
  by (cases xs) simp_all

lemma final_simps [simp]: "final p [] = p" "final p (x # xs) = final x xs" "final p (xs @ [x]) = x"
  by (simp_all add: final_def)

lemma final_append: "final p (xs @ ys) = final (final p xs) ys"
  by (simp add: final_def)

fun dseg :: "(nat \<Rightarrow> nat) \<Rightarrow> nat \<Rightarrow> nat list \<Rightarrow> nat \<Rightarrow> bool" where
  "dseg m p [] n \<longleftrightarrow> True"
| "dseg m p (x # xs) n \<longleftrightarrow> m (x + 12) = p \<and> m (x + 8) = first xs n \<and> dseg m x xs n"

lemma dseg_append: "dseg m p (xs @ ys) n \<longleftrightarrow> dseg m p xs (first ys n) \<and> dseg m (final p xs) ys n"
  by (induction xs arbitrary: p) (auto simp: first_append)

lemma dseg_cong:
  assumes "\<And>x. x \<in> set xs \<Longrightarrow> m' (x + 8) = m (x + 8) \<and> m' (x + 12) = m (x + 12)"
  shows "dseg m' p xs n = dseg m p xs n"
  using assms by (induction xs arbitrary: p) auto

text \<open>Nodes of sixteen bytes that do not overlap.\<close>

definition apart :: "nat \<Rightarrow> nat \<Rightarrow> bool" where
  "apart x y \<longleftrightarrow> x + 16 \<le> y \<or> y + 16 \<le> x"

abbreviation spaced :: "nat list \<Rightarrow> bool" where
  "spaced \<equiv> sorted_wrt apart"

lemma apart_sym: "apart x y = apart y x"
  by (auto simp: apart_def)

lemma upd_apart:
  assumes "apart x y"
  shows "(m(x + 8 := v)) (y + 8) = m (y + 8)" "(m(x + 8 := v)) (y + 12) = m (y + 12)"
    "(m(x + 12 := v)) (y + 8) = m (y + 8)" "(m(x + 12 := v)) (y + 12) = m (y + 12)"
    "(m(y + 8 := v)) (x + 8) = m (x + 8)" "(m(y + 8 := v)) (x + 12) = m (x + 12)"
    "(m(y + 12 := v)) (x + 8) = m (x + 8)" "(m(y + 12 := v)) (x + 12) = m (x + 12)"
  using assms by (auto simp: apart_def)

lemma spaced_insert: "spaced (xs @ x # ys) \<longleftrightarrow> spaced (xs @ ys) \<and> (\<forall>y \<in> set (xs @ ys). apart x y)"
  by (auto simp: sorted_wrt_append apart_sym)

text \<open>Linking a node between two neighbours and unlinking it.\<close>

definition link_mem :: "nat \<Rightarrow> nat \<Rightarrow> nat \<Rightarrow> (nat \<Rightarrow> nat) \<Rightarrow> nat \<Rightarrow> nat" where
  "link_mem p x n m =
     (let m1 = m(p + 8 := x, x + 12 := p, x + 8 := n) in if n \<noteq> 0 then m1(n + 12 := x) else m1)"

definition unlink_mem :: "nat \<Rightarrow> nat \<Rightarrow> (nat \<Rightarrow> nat) \<Rightarrow> nat \<Rightarrow> nat" where
  "unlink_mem p n m = (let m1 = m(p + 8 := n) in if n \<noteq> 0 then m1(n + 12 := p) else m1)"

lemma dseg_set_next:
  assumes "dseg m p (xs @ [x]) n" "spaced (xs @ [x])"
  shows "dseg (m(x + 8 := n')) p (xs @ [x]) n'"
proof -
  have "dseg (m(x + 8 := n')) p xs x = dseg m p xs x"
    by (rule dseg_cong) (use assms(2) in \<open>auto simp: sorted_wrt_append upd_apart simp del: fun_upd_apply\<close>)
  with assms(1) show ?thesis by (simp add: dseg_append)
qed

lemma dseg_set_prev:
  assumes "dseg m p (x # xs) n" "spaced (x # xs)"
  shows "dseg (m(x + 12 := p')) p' (x # xs) n"
proof -
  have "dseg (m(x + 12 := p')) x xs n = dseg m x xs n"
    by (rule dseg_cong) (use assms(2) in \<open>auto simp: upd_apart simp del: fun_upd_apply\<close>)
  with assms(1) show ?thesis by simp
qed

lemma dseg_unlink:
  assumes d: "dseg m 0 (xs @ [p, x] @ ys) 0" and s: "spaced (xs @ [p, x] @ ys)" and nz: "0 \<notin> set ys"
  shows "dseg (unlink_mem p (first ys 0) m) 0 (xs @ [p] @ ys) 0"
proof -
  have d1: "dseg m 0 (xs @ [p]) x" and d2: "dseg m x ys 0"
    using d by (auto simp: dseg_append)
  have sp: "spaced (xs @ [p])" "spaced ys" using s by (auto simp: sorted_wrt_append)
  have e1: "dseg (m(p + 8 := first ys 0)) 0 (xs @ [p]) (first ys 0)" by (rule dseg_set_next [OF d1 sp(1)])
  show ?thesis
  proof (cases ys)
    case Nil
    with e1 show ?thesis by (simp add: unlink_mem_def)
  next
    case (Cons y zs)
    have ap: "\<And>z. z \<in> set ys \<Longrightarrow> apart p z" "\<And>z. z \<in> set xs \<Longrightarrow> apart z y" "apart p y"
      using s Cons by (auto simp: sorted_wrt_append)
    have "dseg (m(p + 8 := y)) x ys 0 = dseg m x ys 0"
      by (rule dseg_cong) (use ap(1) in \<open>auto simp: upd_apart simp del: fun_upd_apply\<close>)
    then have e2: "dseg (m(p + 8 := y, y + 12 := p)) p ys 0"
      using dseg_set_prev [of "m(p + 8 := y)" x y zs 0 p] d2 sp(2) Cons by simp
    have "dseg (m(p + 8 := y, y + 12 := p)) 0 (xs @ [p]) y = dseg (m(p + 8 := y)) 0 (xs @ [p]) y"
      by (rule dseg_cong) (use ap(2,3) in \<open>auto simp: upd_apart simp del: fun_upd_apply\<close>)
    with e1 e2 Cons nz show ?thesis by (simp add: unlink_mem_def dseg_append)
  qed
qed

lemma dseg_link:
  assumes d: "dseg m 0 (xs @ [p] @ ys) 0" and s: "spaced (xs @ [p, x] @ ys)" and nz: "0 \<notin> set ys"
  shows "dseg (link_mem p x (first ys 0) m) 0 (xs @ [p, x] @ ys) 0"
proof -
  let ?n = "first ys 0"
  let ?m1 = "m(p + 8 := x, x + 12 := p, x + 8 := ?n)"
  have d1: "dseg m 0 (xs @ [p]) ?n" and d2: "dseg m p ys 0"
    using d by (auto simp: dseg_append)
  have sp: "spaced (xs @ [p])" "spaced ys" using s by (auto simp: sorted_wrt_append)
  have e1: "dseg (m(p + 8 := x)) 0 (xs @ [p]) x" by (rule dseg_set_next [OF d1 sp(1)])
  have ap: "apart p x" "\<And>y. y \<in> set xs \<Longrightarrow> apart x y" "\<And>y. y \<in> set ys \<Longrightarrow> apart p y \<and> apart x y"
    using s by (auto simp: sorted_wrt_append apart_sym)
  have e2: "dseg ?m1 0 (xs @ [p]) x = dseg (m(p + 8 := x)) 0 (xs @ [p]) x"
    by (rule dseg_cong) (use ap(1,2) in \<open>auto simp: upd_apart simp del: fun_upd_apply\<close>)
  have e3: "dseg ?m1 p ys 0 = dseg m p ys 0"
    by (rule dseg_cong) (use ap(3) in \<open>auto simp: upd_apart simp del: fun_upd_apply\<close>)
  show ?thesis
  proof (cases ys)
    case Nil
    with e1 e2 show ?thesis by (simp add: link_mem_def dseg_append)
  next
    case (Cons y zs)
    have y: "apart p y" "apart x y" "\<And>z. z \<in> set xs \<Longrightarrow> apart z y"
      using s Cons by (auto simp: sorted_wrt_append)
    then have "dseg (?m1(y + 12 := x)) 0 (xs @ [p]) x = dseg ?m1 0 (xs @ [p]) x"
      by (intro dseg_cong) (auto simp: upd_apart simp del: fun_upd_apply)
    moreover have "dseg (?m1(y + 12 := x)) x ys 0"
      using dseg_set_prev [of ?m1 p y zs 0 x] e3 d2 sp(2) Cons by simp
    moreover have "x + 12 \<noteq> y + 12" "x + 8 \<noteq> y + 12" using y(2) by (auto simp: apart_def)
    ultimately show ?thesis using Cons nz e1 e2 by (simp add: link_mem_def dseg_append)
  qed
qed

section \<open>The size classes\<close>

lemma flsl_bounds: "0 < n \<Longrightarrow> 2 ^ (flsl n - 1) \<le> n \<and> n < 2 ^ flsl n \<and> 0 < flsl n"
proof (induction n rule: flsl.induct)
  case (1 n)
  show ?case
  proof (cases "n div 2 = 0")
    case True
    with 1(2) have "n = 1" by linarith
    then show ?thesis by (simp add: flsl.simps)
  next
    case False
    then obtain k where k: "flsl (n div 2) = Suc k" "2 ^ k \<le> n div 2" "n div 2 < 2 ^ Suc k"
      using 1 by (metis Suc_pred' diff_Suc_1 neq0_conv)
    then have "2 * 2 ^ k \<le> n" "n < 2 * 2 ^ Suc k" by linarith+
    moreover have "flsl n = Suc (Suc k)" using 1(2) k(1) by (subst flsl.simps) simp
    ultimately show ?thesis by simp
  qed
qed

text \<open>The index of the class of a size.\<close>

lemma size2ndx_bounds:
  assumes "16 \<le> s"
  obtains i where "mm_size2ndx s = int i" "i < MM_NNODES" "2 ^ (4 + i) \<le> s" "i < 18 \<Longrightarrow> s < 2 ^ (5 + i)"
proof (cases "MM_MAX_CHUNK \<le> s")
  case True
  then show thesis by (intro that [of 18]) (auto simp: mm_size2ndx_def)
next
  case False
  define j where "j = flsl (s div 16)"
  have b: "2 ^ (j - 1) \<le> s div 16" "s div 16 < 2 ^ j" "0 < j"
    using flsl_bounds [of "s div 16"] assms by (auto simp: j_def)
  then obtain i where i: "j = Suc i" using gr0_implies_Suc by blast
  have lo: "2 ^ (4 + i) \<le> s"
  proof -
    have "2 ^ i * 16 \<le> s div 16 * 16" using b(1) i by simp
    also have "\<dots> \<le> s" by simp
    finally show ?thesis by (simp add: power_add mult.commute)
  qed
  have hi: "s < 2 ^ (5 + i)"
  proof -
    have "s < 2 ^ j * 16" using b(2) by (simp add: less_mult_imp_div_less div_less_iff_less_mult)
    then show ?thesis by (simp add: i power_add mult.commute)
  qed
  have "2 ^ (4 + i) < (2 :: nat) ^ 22" using lo False by simp
  then have "4 + i < 22" by (rule power_less_imp_less_exp [rotated]) simp
  moreover have "mm_size2ndx s = int i"
    using False by (simp add: mm_size2ndx_def drop_bit_eq_div flip: j_def i) (simp add: j_def [symmetric] i)
  ultimately show thesis using lo hi by (intro that [of i]) auto
qed

section \<open>The list of free chunks\<close>

text \<open>
  An entry is an address with the value of its size word: the headers of the classes have size 0, the
  others are free chunks.  The position of an entry in the list is given by its key: the header of a
  class comes before the chunks of the class, which are ordered by size.
\<close>

type_synonym entry = "nat \<times> nat"

abbreviation addrs :: "entry list \<Rightarrow> nat set" where
  "addrs L \<equiv> fst ` set L"

definition fkey :: "nat \<Rightarrow> entry \<Rightarrow> nat" where
  "fkey nl e = (if snd e = 0 then 2 ^ (5 + (fst e - nl) div 16) else 2 * snd e + 1)"

definition heads :: "nat \<Rightarrow> entry set" where
  "heads nl = (\<lambda>i. (nl + 16 * i, 0)) ` {..<MM_NNODES}"

definition flist :: "(nat \<Rightarrow> nat) \<Rightarrow> nat \<Rightarrow> entry list \<Rightarrow> bool" where
  "flist m nl L \<longleftrightarrow> dseg m 0 (map fst L) 0 \<and> spaced (map fst L) \<and> sorted (map (fkey nl) L) \<and>
     (\<forall>e \<in> set L. 0 < fst e \<and> m (fst e + 4) = snd e \<and> 4 dvd snd e \<and> (snd e = 0 \<or> 16 \<le> snd e)) \<and>
     {e \<in> set L. snd e = 0} = heads nl"

lemma fkey_head [simp]: "fkey nl (nl + 16 * i, 0) = 2 ^ (5 + i)"
  by (simp add: fkey_def)

lemma flist_entry:
  assumes "flist m nl L" "(x, s) \<in> set L"
  shows "0 < x" "m (x + 4) = s" "4 dvd s" "s = 0 \<or> 16 \<le> s"
  using assms by (auto simp: flist_def)

lemma flist_nonnull:
  assumes "flist m nl L"
  shows "0 \<notin> addrs L"
proof
  assume "0 \<in> addrs L"
  then obtain e where "e \<in> set L" "fst e = 0" by auto
  with assms show False by (auto simp: flist_def)
qed

lemma flist_head:
  assumes "flist m nl L" "i < MM_NNODES"
  obtains us vs where "L = us @ (nl + 16 * i, 0) # vs"
proof -
  have "(nl + 16 * i, 0) \<in> {e \<in> set L. snd e = 0}"
    using assms unfolding flist_def heads_def by blast
  then show thesis using that by (auto dest: split_list)
qed

lemma flist_size:
  assumes "flist (mm_mem h) nl L" "(x, s) \<in> set L"
  shows "nd_size h x = s" "MM_SIZEOF_NODE h x = s"
  using flist_entry [OF assms] clear_enc(1) [of s False False]
  by (simp_all add: nd_size_def MM_SIZEOF_NODE_def)

text \<open>The successor of an entry.\<close>

lemma flist_next:
  assumes "flist (mm_mem h) nl (us @ (x, s) # vs)"
  shows "nd_flink h x = first (map fst vs) 0"
  using assms by (auto simp: flist_def dseg_append nd_flink_def)

lemma flist_prev:
  assumes "flist (mm_mem h) nl (us @ (x, s) # vs)"
  shows "nd_blink h x = final 0 (map fst us)"
  using assms by (auto simp: flist_def dseg_append nd_blink_def)

text \<open>Keys order the list; the first entry is a header.\<close>

lemma flist_before:
  assumes "flist m nl (us @ e # vs)"
  shows "e' \<in> set us \<Longrightarrow> fkey nl e' \<le> fkey nl e" "e' \<in> set vs \<Longrightarrow> fkey nl e \<le> fkey nl e'"
  using assms by (auto simp: flist_def sorted_append)

lemma chunk_has_prev:
  assumes "flist m nl (us @ (x, s) # vs)" "s \<noteq> 0"
  shows "us \<noteq> []"
proof
  assume "us = []"
  obtain us' vs' where L: "us @ (x, s) # vs = us' @ (nl + 16 * 0, 0) # vs'"
    using flist_head [OF assms(1), of 0] by auto
  then have "(nl + 16 * 0, 0) \<in> set vs" using \<open>us = []\<close> assms(2) by (cases us') auto
  from flist_before(2) [OF assms(1) this] have "fkey nl (x, s) \<le> 2 ^ 5" by (simp add: fkey_def)
  moreover have "16 \<le> s" using flist_entry(4) [OF assms(1)] assms(2) by auto
  ultimately show False using assms(2) by (simp add: fkey_def)
qed

subsection \<open>Searching\<close>

lemma malloc_walk_drop:
  assumes "flist (mm_mem h) nl (us @ vs)" "0 < n"
  shows "malloc_walk h n (first (map fst vs) 0) =
    Some (first (map fst (dropWhile (\<lambda>e. snd e < n) vs)) 0)"
  using assms
proof (induction vs arbitrary: us)
  case Nil
  show ?case by (subst malloc_walk.simps) simp
next
  case (Cons e vs)
  obtain x s where e: "e = (x, s)" by (cases e)
  have f: "flist (mm_mem h) nl (us @ (x, s) # vs)" using Cons.prems(1) e by simp
  have "0 < x" "MM_SIZEOF_NODE h x = s" using flist_entry(1) [OF f] flist_size(2) [OF f] by auto
  moreover have "malloc_walk h n (first (map fst vs) 0) =
    Some (first (map fst (dropWhile (\<lambda>e. snd e < n) vs)) 0)"
    using Cons.IH [of "us @ [(x, s)]"] f Cons.prems(2) by simp
  ultimately show ?case
    using flist_next [OF f] by (subst malloc_walk.simps) (simp add: e)
qed

text \<open>
  The search of \<open>mm_malloc\<close> finds the smallest free chunk that is large enough, and fails only when there
  is none.
\<close>

lemma malloc_search:
  assumes f: "flist (mm_mem h) (mm_nodelist h) L" and n: "16 \<le> n"
  shows "\<exists>x. malloc_walk h n (nd_flink h (nodelist h (mm_size2ndx n))) = Some x \<and>
    (if x = 0 then \<forall>(y, t) \<in> set L. t < n
     else \<exists>s. (x, s) \<in> set L \<and> n \<le> s \<and> (\<forall>(y, t) \<in> set L. n \<le> t \<longrightarrow> s \<le> t))"
proof -
  obtain i where i: "mm_size2ndx n = int i" "i < MM_NNODES" "2 ^ (4 + i) \<le> n"
    using size2ndx_bounds [OF n] by metis
  obtain us vs where L: "L = us @ (mm_nodelist h + 16 * i, 0) # vs"
    using flist_head [OF f i(2)] by blast
  let ?hd = "(mm_nodelist h + 16 * i, 0)"
  have nl: "nodelist h (mm_size2ndx n) = mm_nodelist h + 16 * i"
    unfolding nodelist_def i(1) by (simp add: nat_add_distrib nat_mult_distrib)
  define ds where "ds = dropWhile (\<lambda>e. snd e < n) vs"
  have walk: "malloc_walk h n (nd_flink h (nodelist h (mm_size2ndx n))) = Some (first (map fst ds) 0)"
    using malloc_walk_drop [of h "mm_nodelist h" "us @ [?hd]" vs n] f n
      flist_next [of h "mm_nodelist h" us "mm_nodelist h + 16 * i" 0 vs]
    unfolding nl L ds_def by simp
  have small: "snd e < n" if "e \<in> set us" for e
  proof (cases "snd e = 0")
    case False
    have "fkey (mm_nodelist h) e \<le> 2 ^ (5 + i)" using flist_before(1) [OF f [unfolded L] that] by simp
    then have "2 * snd e + 1 \<le> 2 * 2 ^ (4 + i)" using False by (simp add: fkey_def power_add)
    with i(3) show ?thesis by simp
  qed (use n in simp)
  show ?thesis
  proof (cases ds)
    case Nil
    then have "\<forall>e \<in> set vs. snd e < n" by (simp add: ds_def)
    with small n walk Nil show ?thesis by (auto simp: L)
  next
    case (Cons e ds')
    have vs: "vs = takeWhile (\<lambda>e. snd e < n) vs @ e # ds'" using Cons by (metis ds_def takeWhile_dropWhile_id)
    have le: "n \<le> snd e" using Cons dropWhile_eq_Cons_conv [of "\<lambda>e. snd e < n" vs e ds'] by (simp add: ds_def)
    have mem: "e \<in> set L" using vs L by (metis UnCI list.set_intros(1,2) set_append)
    have "snd e \<le> t" if "(y, t) \<in> set L" "n \<le> t" for y t
    proof -
      have "(y, t) \<notin> set us" using small that by fastforce
      moreover have "(y, t) \<noteq> ?hd" using that n by auto
      moreover have "(y, t) \<notin> set (takeWhile (\<lambda>e. snd e < n) vs)" using that(2) by (auto dest: set_takeWhileD)
      ultimately have "(y, t) \<in> set (e # ds')" using that(1) L vs by (metis Un_iff set_ConsD set_append)
      then consider "(y, t) = e" | "(y, t) \<in> set ds'" by auto
      then show ?thesis
      proof cases
        case 2
        have "flist (mm_mem h) (mm_nodelist h) ((us @ ?hd # takeWhile (\<lambda>e. snd e < n) vs) @ e # ds')"
          using f L vs by simp
        from flist_before(2) [OF this 2] have "fkey (mm_nodelist h) e \<le> fkey (mm_nodelist h) (y, t)" .
        then show ?thesis using le n that(2) by (auto simp: fkey_def)
      qed auto
    qed
    moreover have "0 < fst e" using flist_entry(1) [OF f, of "fst e" "snd e"] mem by simp
    ultimately show ?thesis using walk Cons mem le by (auto intro: exI [of _ "snd e"])
  qed
qed

subsection \<open>Removing and adding an entry\<close>

text \<open>The words that hold the links of nodes.\<close>

definition links :: "nat set \<Rightarrow> nat set" where
  "links A = (\<lambda>x. x + 8) ` A \<union> (\<lambda>x. x + 12) ` A"

lemma size_not_link: "(\<And>y. y \<in> A \<Longrightarrow> y = x \<or> apart x y) \<Longrightarrow> x + 4 \<notin> links A"
  by (force simp: links_def apart_def)

lemma first_in: "first xs n \<in> insert n (set xs)"
  by (cases xs) simp_all

lemma final_in: "xs \<noteq> [] \<Longrightarrow> final p xs \<in> set xs"
  by (simp add: final_def)

text \<open>What a change of links leaves of an entry list.\<close>

lemma flist_relink:
  assumes f: "flist m nl L" and d: "dseg m' 0 (map fst L') 0" and s: "spaced (map fst L')" "sorted (map (fkey nl) L')"
    and e: "\<And>y. y \<notin> links (addrs L') \<Longrightarrow> m' y = m y"
    and set: "\<And>e. e \<in> set L' \<Longrightarrow> snd e \<noteq> 0 \<Longrightarrow> e \<notin> set L \<Longrightarrow>
      0 < fst e \<and> m (fst e + 4) = snd e \<and> 4 dvd snd e \<and> 16 \<le> snd e"
    and h: "\<And>e. snd e = 0 \<Longrightarrow> e \<in> set L' \<longleftrightarrow> e \<in> set L"
  shows "flist m' nl L'"
proof -
  have ap: "y = x \<or> apart x y" if "x \<in> addrs L'" "y \<in> addrs L'" for x y
  proof -
    obtain i j where "i < length L'" "j < length L'" "x = fst (L' ! i)" "y = fst (L' ! j)"
      using \<open>x \<in> addrs L'\<close> \<open>y \<in> addrs L'\<close> by (auto simp: in_set_conv_nth)
    then show ?thesis
      using s(1) apart_sym [of "fst (L' ! i)" "fst (L' ! j)"]
      by (cases i j rule: linorder_cases) (auto simp: sorted_wrt_iff_nth_less)
  qed
  have "m' (fst e + 4) = m (fst e + 4)" if "e \<in> set L'" for e
    by (rule e, rule size_not_link) (use ap that in blast)
  moreover have "0 < fst e \<and> m (fst e + 4) = snd e \<and> 4 dvd snd e \<and> (snd e = 0 \<or> 16 \<le> snd e)"
    if "e \<in> set L'" for e
  proof (cases "e \<in> set L")
    case True
    with f show ?thesis by (auto simp: flist_def)
  next
    case False
    with set h that show ?thesis by blast
  qed
  moreover have "{e \<in> set L'. snd e = 0} = {e \<in> set L. snd e = 0}" using h by blast
  then have "{e \<in> set L'. snd e = 0} = heads nl" using f by (simp add: flist_def)
  ultimately show ?thesis using d s by (simp add: flist_def)
qed

lemma remove_node_flist:
  assumes f: "flist (mm_mem h) nl (us @ (x, s) # vs)" and nz: "s \<noteq> 0"
  shows "\<exists>m'. remove_node x h = h\<lparr>mm_mem := m'\<rparr> \<and> flist m' nl (us @ vs) \<and>
    (\<forall>y. y \<notin> links (addrs (us @ vs)) \<longrightarrow> m' y = mm_mem h y)"
proof -
  let ?p = "final 0 (map fst us)" and ?n = "first (map fst vs) 0"
  obtain us' p t where us: "us = us' @ [(p, t)]"
    using chunk_has_prev [OF f nz] by (metis append_butlast_last_id surj_pair)
  have p: "?p = p" by (simp add: us)
  have d: "dseg (mm_mem h) 0 (map fst us' @ [p, x] @ map fst vs) 0" "spaced (map fst us' @ [p, x] @ map fst vs)"
    using f by (auto simp: flist_def us)
  have pos: "0 \<notin> set (map fst vs)" using flist_nonnull [OF f] by (auto simp: image_Un)
  have ne: "apart p x" using d(2) by (simp add: sorted_wrt_append)
  have eq: "remove_node x h = h\<lparr>mm_mem := unlink_mem p ?n (mm_mem h)\<rparr>"
    using flist_next [OF f] flist_prev [OF f] ne p upd_apart(1,2) [OF ne, of "mm_mem h"]
    by (simp add: remove_node_def put_def nd_flink_def nd_blink_def unlink_mem_def Let_def)
  have dl: "dseg (unlink_mem p ?n (mm_mem h)) 0 (map fst (us @ vs)) 0"
    using dseg_unlink [OF d pos] by (simp add: us)
  have fr: "unlink_mem p ?n (mm_mem h) y = mm_mem h y" if "y \<notin> links (addrs (us @ vs))" for y
    using that first_in [of "map fst vs" 0] by (auto simp: unlink_mem_def links_def us Let_def)
  have "flist (unlink_mem p ?n (mm_mem h)) nl (us @ vs)"
    by (rule flist_relink [OF f dl])
      (use f fr nz in \<open>auto simp: flist_def sorted_append sorted_wrt_append\<close>)
  with eq fr show ?thesis by blast
qed

lemma addfree_walk_drop:
  assumes "flist (mm_mem h) nl (us @ e # vs)"
  shows "addfree_walk h s (fst e) (first (map fst vs) 0) =
    Some (final (fst e) (map fst (takeWhile (\<lambda>e. snd e \<noteq> 0 \<and> snd e < s) vs)),
      first (map fst (dropWhile (\<lambda>e. snd e \<noteq> 0 \<and> snd e < s) vs)) 0)"
  using assms
proof (induction vs arbitrary: us e)
  case Nil
  show ?case by (subst addfree_walk.simps) simp
next
  case (Cons e' vs)
  obtain x t where e': "e' = (x, t)" by (cases e')
  have f: "flist (mm_mem h) nl ((us @ [e]) @ (x, t) # vs)" using Cons.prems(1) e' by simp
  have "0 < x" "nd_size h x = t" "MM_SIZEOF_NODE h x = t"
    using flist_entry(1) [OF f] flist_size [OF f] by auto
  then show ?case
    using flist_next [OF f] Cons.IH [OF f] by (subst addfree_walk.simps) (simp add: e')
qed

lemma sorted_insert_between:
  "sorted (xs @ ys) \<Longrightarrow> \<forall>a \<in> set xs. a \<le> x \<Longrightarrow> \<forall>a \<in> set ys. x \<le> a \<Longrightarrow> sorted (xs @ x # ys)"
  by (auto simp: sorted_append)

text \<open>The place where \<open>mm_addfreechunk\<close> inserts a chunk keeps the list sorted.\<close>

lemma insert_sorted_key:
  assumes f: "flist m nl (us @ (nl + 16 * i, 0) # vs)" and i: "2 ^ (4 + i) \<le> s" "i < 18 \<Longrightarrow> s < 2 ^ (5 + i)"
    and s: "0 < s" and vs: "vs = ws @ rs" "\<forall>e \<in> set ws. snd e \<noteq> 0 \<and> snd e < s"
    "rs \<noteq> [] \<Longrightarrow> \<not> (snd (hd rs) \<noteq> 0 \<and> snd (hd rs) < s)"
  shows "sorted (map (fkey nl) (us @ (nl + 16 * i, 0) # ws @ (x, s) # rs))"
proof -
  let ?hd = "(nl + 16 * i, 0)"
  have sorted: "sorted (map (fkey nl) (us @ ?hd # ws @ rs))" using f vs(1) by (simp add: flist_def)
  have lo: "fkey nl e \<le> 2 * s + 1" if "e \<in> set (us @ ?hd # ws)" for e
  proof -
    have "fkey nl e \<le> 2 ^ (5 + i)" if "e \<in> set us" using flist_before(1) [OF f that] by simp
    moreover have "2 ^ (5 + i) \<le> 2 * s + 1" using i(1) by (simp add: power_add)
    moreover have "fkey nl e \<le> 2 * s + 1" if "e \<in> set ws" using vs(2) that by (auto simp: fkey_def)
    ultimately show ?thesis using that by fastforce
  qed
  have hi: "2 * s + 1 \<le> fkey nl e" if "e \<in> set rs" for e
  proof -
    have ne: "rs \<noteq> []" using that by auto
    have "fkey nl (hd rs) \<le> fkey nl e"
      using sorted that by (cases rs) (auto simp: sorted_append)
    moreover have "2 * s + 1 \<le> fkey nl (hd rs)"
    proof (cases "snd (hd rs) = 0")
      case True
      have "hd rs \<in> {e \<in> set (us @ ?hd # vs). snd e = 0}" using True ne vs(1) by auto
      then obtain j where j: "hd rs = (nl + 16 * j, 0)" "j < MM_NNODES"
        using f by (auto simp: flist_def heads_def)
      have "apart (nl + 16 * i) (nl + 16 * j)"
        using f ne vs(1) j(1) by (cases rs) (auto simp: flist_def sorted_wrt_append)
      then have "j \<noteq> i" by (auto simp: apart_def)
      moreover have "2 ^ (5 + i) \<le> (2 :: nat) ^ (5 + j)"
        using flist_before(2) [OF f, of "hd rs"] hd_in_set [OF ne] vs(1) unfolding j(1) by simp
      ultimately have ij: "i < j" using power_le_imp_le_exp [of "2 :: nat" "5 + i" "5 + j"] by simp
      then have "(2 :: nat) ^ (6 + i) \<le> 2 ^ (5 + j)" by (intro power_increasing) simp_all
      moreover have "s < 2 ^ (5 + i)" using i(2) ij j(2) by simp
      ultimately show ?thesis by (simp add: j(1) power_add)
    next
      case False
      with vs(3) [OF ne] show ?thesis by (simp add: fkey_def)
    qed
    ultimately show ?thesis by simp
  qed
  have k: "fkey nl (x, s) = 2 * s + 1" using s by (simp add: fkey_def)
  have "\<forall>a \<in> fkey nl ` set (us @ ?hd # ws). a \<le> fkey nl (x, s)"
    "\<forall>a \<in> fkey nl ` set rs. fkey nl (x, s) \<le> a"
    unfolding k using lo hi by blast+
  then have "sorted (map (fkey nl) (us @ ?hd # ws) @ fkey nl (x, s) # map (fkey nl) rs)"
    using sorted by (intro sorted_insert_between) (simp, simp_all only: set_map)
  then show ?thesis by simp
qed

lemma addfreechunk_flist:
  assumes f: "flist (mm_mem h) (mm_nodelist h) L" and w: "mm_mem h (x + 4) = s" "16 \<le> s" "4 dvd s" "0 < x"
    and ap: "\<And>y. y \<in> addrs L \<Longrightarrow> apart x y"
  shows "\<exists>m' us vs. L = us @ vs \<and> mm_addfreechunk x h = Some (h\<lparr>mm_mem := m'\<rparr>) \<and>
    flist m' (mm_nodelist h) (us @ (x, s) # vs) \<and>
    (\<forall>y. y \<notin> links (insert x (addrs L)) \<longrightarrow> m' y = mm_mem h y)"
proof -
  let ?nl = "mm_nodelist h" and ?P = "\<lambda>e :: entry. snd e \<noteq> 0 \<and> snd e < s"
  obtain i where i: "mm_size2ndx s = int i" "i < MM_NNODES" "2 ^ (4 + i) \<le> s" "i < 18 \<Longrightarrow> s < 2 ^ (5 + i)"
    using size2ndx_bounds [OF w(2)] by metis
  obtain us vs where L: "L = us @ (?nl + 16 * i, 0) # vs" using flist_head [OF f i(2)] by blast
  define hd where "hd = (?nl + 16 * i, 0 :: nat)"
  define ws where "ws = takeWhile ?P vs"
  define rs where "rs = dropWhile ?P vs"
  have Lr: "L = (us @ hd # ws) @ rs" by (simp add: L hd_def ws_def rs_def)
  have sz: "MM_SIZEOF_NODE h x = s"
    using w clear_enc(1) [of s False False] by (simp add: MM_SIZEOF_NODE_def nd_size_def)
  have nl: "nodelist h (mm_size2ndx s) = fst hd"
    unfolding nodelist_def i(1) hd_def by (simp add: nat_add_distrib nat_mult_distrib)
  let ?p = "final (fst hd) (map fst ws)" and ?n = "first (map fst rs) 0"
  have walk: "addfree_walk h s (fst hd) (nd_flink h (fst hd)) = Some (?p, ?n)"
    using addfree_walk_drop [of h ?nl us hd vs s] flist_next [of h ?nl us "fst hd" "snd hd" vs] f
    by (simp add: L ws_def rs_def hd_def)
  obtain us' p t where p: "us @ hd # ws = us' @ [(p, t)]" "p = ?p"
  proof
    have "us @ hd # ws \<noteq> []" by simp
    then show "us @ hd # ws = butlast (us @ hd # ws) @ [(fst (last (hd # ws)), snd (last (hd # ws)))]"
      by (metis append_butlast_last_id last_appendR list.discI prod.collapse)
    show "fst (last (hd # ws)) = ?p" by (simp add: final_def last_map)
  qed
  define m' where "m' = link_mem p x ?n (mm_mem h)"
  have pos: "0 \<notin> set (map fst rs)" using flist_nonnull [OF f] by (auto simp: Lr image_Un)
  have d: "dseg (mm_mem h) 0 (map fst us' @ [p] @ map fst rs) 0" using f by (simp add: flist_def Lr p(1))
  have sp: "spaced (map fst us' @ [p, x] @ map fst rs)"
  proof -
    have "spaced ((map fst us' @ [p]) @ map fst rs)" using f by (simp add: flist_def Lr p(1))
    moreover have "set ((map fst us' @ [p]) @ map fst rs) = addrs L" by (simp add: Lr p(1) image_Un)
    ultimately have "spaced ((map fst us' @ [p]) @ x # map fst rs)"
      using ap unfolding spaced_insert by blast
    then show ?thesis by simp
  qed
  have dl: "dseg m' 0 (map fst ((us @ hd # ws) @ (x, s) # rs)) 0"
    using dseg_link [OF d sp pos] by (simp add: p(1) m'_def)
  have fr: "m' y = mm_mem h y" if "y \<notin> links (insert x (addrs L))" for y
    using that first_in [of "map fst rs" 0] by (auto simp: m'_def link_mem_def links_def Lr p(1) Let_def)
  have rs: "\<not> ?P (List.hd rs)" if "rs \<noteq> []" using that hd_dropWhile [of ?P vs] by (simp add: rs_def)
  have so: "sorted (map (fkey ?nl) ((us @ hd # ws) @ (x, s) # rs))"
  proof -
    have "vs = ws @ rs" "\<forall>e \<in> set ws. ?P e" by (auto simp: ws_def rs_def dest: set_takeWhileD)
    with f i(3,4) w(2) rs have "sorted (map (fkey ?nl) (us @ (?nl + 16 * i, 0) # ws @ (x, s) # rs))"
      by (intro insert_sorted_key) (simp_all add: L)
    then show ?thesis by (simp add: hd_def)
  qed
  have "flist m' ?nl ((us @ hd # ws) @ (x, s) # rs)"
  proof (rule flist_relink [OF f dl _ so])
    show "spaced (map fst ((us @ hd # ws) @ (x, s) # rs))" using sp by (simp add: p(1))
    show "y \<notin> links (addrs ((us @ hd # ws) @ (x, s) # rs)) \<Longrightarrow> m' y = mm_mem h y" for y
      using fr by (simp add: Lr insert_commute)
  qed (use w in \<open>auto simp: Lr\<close>)
  moreover have "mm_addfreechunk x h = Some (h\<lparr>mm_mem := m'\<rparr>)"
    using walk p(2) by (simp add: mm_addfreechunk_def sz nl m'_def link_mem_def put_def Let_def)
  ultimately show ?thesis using Lr fr by blast
qed

end
