(* ===== verification/Mm_Chunks.thy ===== *)
theory Mm_Chunks
  imports Mm_Freelist
begin

text \<open>
  The chunks of a heap.  The model's memory is related to the list of its chunks in the order of their
  addresses, region after region, each with its address, its size and whether it is allocated.
\<close>

section \<open>Chunks in memory\<close>

type_synonym node = "nat \<times> nat \<times> bool"

text \<open>
  What the chunk after a given one must look like: its address, unless a region ends, and the size of
  its predecessor if that is free.
\<close>

type_synonym expect = "nat option \<times> nat option"

definition after :: "nat set \<Rightarrow> node \<Rightarrow> expect" where
  "after En nd = (case nd of (x, s, al) \<Rightarrow>
     (if x \<in> En then None else Some (x + s), if al then None else Some s))"

definition fits :: "(nat \<Rightarrow> nat) \<Rightarrow> expect \<Rightarrow> node \<Rightarrow> bool" where
  "fits m st nd \<longleftrightarrow> (case (st, nd) of ((ex, pv), (x, s, al)) \<Rightarrow>
     (ex = None \<or> ex = Some x) \<and> m (x + 4) = enc s al (pv \<noteq> None) \<and> (pv = None \<or> pv = Some (m x) \<and> al))"

fun seg :: "(nat \<Rightarrow> nat) \<Rightarrow> nat set \<Rightarrow> expect \<Rightarrow> node list \<Rightarrow> bool" where
  "seg m En st [] \<longleftrightarrow> True"
| "seg m En st (nd # ns) \<longleftrightarrow> fits m st nd \<and> seg m En (after En nd) ns"

definition outcome :: "nat set \<Rightarrow> expect \<Rightarrow> node list \<Rightarrow> expect" where
  "outcome En st ns = (if ns = [] then st else after En (last ns))"

lemma outcome_simps [simp]:
  "outcome En st [] = st" "outcome En st (nd # ns) = outcome En (after En nd) ns"
  "outcome En st (ns @ [nd]) = after En nd"
  by (simp_all add: outcome_def)

lemma outcome_append: "outcome En st (xs @ ys) = outcome En (outcome En st xs) ys"
  by (simp add: outcome_def)

lemma seg_append: "seg m En st (xs @ ys) \<longleftrightarrow> seg m En st xs \<and> seg m En (outcome En st xs) ys"
  by (induction xs arbitrary: st) auto

text \<open>The header of a chunk depends on its size word and, when the chunk before it is free, on the other.\<close>

lemma seg_cong:
  assumes "\<And>x s al. (x, s, al) \<in> set ns \<Longrightarrow>
    4 dvd s \<and> m' (x + 4) = m (x + 4) \<and> (m (x + 4) AND 2 \<noteq> 0 \<longrightarrow> m' x = m x)"
  shows "seg m' En st ns = seg m En st ns"
  using assms
proof (induction ns arbitrary: st)
  case (Cons nd ns)
  obtain x s al where nd: "nd = (x, s, al)" by (cases nd)
  obtain ex pv where st: "st = (ex, pv)" by (cases st)
  have c: "m' (x + 4) = m (x + 4)" "m (x + 4) AND 2 \<noteq> 0 \<longrightarrow> m' x = m x" "4 dvd s"
    using Cons.prems [of x s al] nd by auto
  have "fits m' st nd = fits m st nd"
    using c enc_bits(2) [OF c(3), of al True] by (cases pv) (auto simp: fits_def nd st)
  moreover have "seg m' En (after En nd) ns = seg m En (after En nd) ns"
    by (rule Cons.IH) (use Cons.prems in \<open>meson list.set_intros(2)\<close>)
  ultimately show ?case by simp
qed simp

section \<open>Chunks that tile a span\<close>

definition sep :: "node \<Rightarrow> node \<Rightarrow> bool" where
  "sep c d \<longleftrightarrow> (case (c, d) of ((x, s, _), (y, t, _)) \<Rightarrow> x + s \<le> y \<or> y + t \<le> x)"

fun tile :: "nat \<Rightarrow> node list \<Rightarrow> nat \<Rightarrow> bool" where
  "tile lo [] hi \<longleftrightarrow> lo = hi"
| "tile lo ((x, s, al) # ns) hi \<longleftrightarrow> x = lo \<and> 0 < s \<and> tile (x + s) ns hi"

lemma sep_sym: "sep c d = sep d c"
  by (cases c; cases d) (auto simp: sep_def)

lemma tile_le: "tile lo ns hi \<Longrightarrow> lo \<le> hi"
  by (induction lo ns hi rule: tile.induct) auto

lemma tile_within: "tile lo ns hi \<Longrightarrow> (x, s, al) \<in> set ns \<Longrightarrow> lo \<le> x \<and> x + s \<le> hi \<and> 0 < s"
  by (induction lo ns hi rule: tile.induct) (fastforce dest: tile_le)+

lemma tile_sep: "tile lo ns hi \<Longrightarrow> sorted_wrt sep ns"
proof (induction lo ns hi rule: tile.induct)
  case (2 lo x s al ns hi)
  then have "sep (x, s, al) d" if "d \<in> set ns" for d
    using tile_within [of "x + s" ns hi] that by (cases d) (force simp: sep_def)
  then show ?case using 2 by auto
qed simp

lemma tile_last: "tile lo ns hi \<Longrightarrow> ns \<noteq> [] \<Longrightarrow> \<exists>x s al. last ns = (x, s, al) \<and> x + s = hi"
  by (induction lo ns hi rule: tile.induct) (auto split: if_splits)

lemma tile_first: "tile lo ns hi \<Longrightarrow> ns \<noteq> [] \<Longrightarrow> \<exists>s al. (lo, s, al) \<in> set ns"
  by (cases ns) (auto, blast)

text \<open>A chunk apart from every chunk of a tiling is apart from the span they cover.\<close>

lemma tile_span:
  "tile lo ns hi \<Longrightarrow> 0 < u \<Longrightarrow> \<forall>d \<in> set ns. sep (y, u, bl) d \<Longrightarrow> lo < hi \<Longrightarrow> y + u \<le> lo \<or> hi \<le> y"
proof (induction lo ns hi rule: tile.induct)
  case (2 lo x s al ns hi)
  have o: "y + u \<le> x \<or> x + s \<le> y" using 2(4) by (auto simp: sep_def)
  show ?case
  proof (cases "x + s < hi")
    case True
    with 2 have "y + u \<le> x + s \<or> hi \<le> y" by auto
    with o 2(2,3) show ?thesis by auto
  next
    case False
    with 2(2) tile_le [of "x + s" ns hi] have "x + s = hi" by auto
    with o 2(2) show ?thesis by auto
  qed
qed simp

section \<open>The invariant of the heap\<close>

definition ends :: "mm_heap_s \<Rightarrow> nat set" where
  "ends h = set (take (mm_nregions h) (mm_heapend h))"

text \<open>The addresses of the guard chunks, region by region.\<close>

definition bounds :: "mm_heap_s \<Rightarrow> nat list" where
  "bounds h = concat (map2 (\<lambda>b e. [b, e]) (take (mm_nregions h) (mm_heapstart h)) (take (mm_nregions h) (mm_heapend h)))"

abbreviation guards :: "mm_heap_s \<Rightarrow> nat set" where
  "guards h \<equiv> set (bounds h)"

definition frees :: "node list \<Rightarrow> entry set" where
  "frees N = {(x, s). (x, s, False) \<in> set N}"

definition node_ok :: "mm_heap_s \<Rightarrow> node \<Rightarrow> bool" where
  "node_ok h nd \<longleftrightarrow> (case nd of (x, s, al) \<Rightarrow>
     0 < x \<and> 8 dvd x \<and> 8 dvd s \<and> x + s \<le> 2 ^ 32 \<and> (if x \<in> guards h then s = 8 \<and> al else 16 \<le> s) \<and>
     (x + s \<le> mm_nodelist h \<or> mm_nodelist h + 16 * MM_NNODES \<le> x))"

definition hinv :: "mm_heap_s \<Rightarrow> node list \<Rightarrow> entry list \<Rightarrow> bool" where
  "hinv h N L \<longleftrightarrow>
     seg (mm_mem h) (ends h) (None, None) N \<and> outcome (ends h) (None, None) N = (None, None) \<and>
     (\<forall>nd \<in> set N. node_ok h nd) \<and> sorted_wrt sep N \<and>
     map fst (filter (\<lambda>nd. fst nd \<in> guards h) N) = bounds h \<and>
     length (mm_heapstart h) = length (mm_heapend h) \<and>
     flist (mm_mem h) (mm_nodelist h) L \<and> {e \<in> set L. snd e \<noteq> 0} = frees N"

lemma ends_guards:
  assumes "length (mm_heapstart h) = length (mm_heapend h)"
  shows "ends h \<subseteq> guards h"
proof
  fix x assume "x \<in> ends h"
  let ?b = "take (mm_nregions h) (mm_heapstart h)" and ?e = "take (mm_nregions h) (mm_heapend h)"
  from \<open>x \<in> ends h\<close> obtain i where i: "i < length ?e" "x = ?e ! i" by (auto simp: ends_def in_set_conv_nth)
  then have "(?b ! i, x) \<in> set (zip ?b ?e)" using assms by (auto simp: in_set_zip intro!: exI [of _ i])
  then show "x \<in> guards h" by (force simp: bounds_def)
qed

lemma hinv_flist: "hinv h N L \<Longrightarrow> flist (mm_mem h) (mm_nodelist h) L"
  by (simp add: hinv_def)

lemma hinv_node:
  assumes "hinv h N L" "(x, s, al) \<in> set N"
  shows "0 < x" "8 dvd x" "8 dvd s" "x + s \<le> 2 ^ 32" "x \<in> guards h \<Longrightarrow> s = 8 \<and> al"
    "x \<notin> guards h \<Longrightarrow> 16 \<le> s" "8 \<le> s" "4 dvd s" "\<not> al \<Longrightarrow> 16 \<le> s" "\<not> al \<Longrightarrow> x \<notin> guards h"
    "x + s \<le> mm_nodelist h \<or> mm_nodelist h + 16 * MM_NNODES \<le> x"
proof -
  have ok: "node_ok h (x, s, al)" using assms by (simp add: hinv_def)
  show "0 < x" "8 dvd x" "8 dvd s" "x + s \<le> 2 ^ 32" "x \<in> guards h \<Longrightarrow> s = 8 \<and> al" "x \<notin> guards h \<Longrightarrow> 16 \<le> s"
    "x + s \<le> mm_nodelist h \<or> mm_nodelist h + 16 * MM_NNODES \<le> x"
    using ok by (auto simp: node_ok_def)
  show "8 \<le> s" "\<not> al \<Longrightarrow> 16 \<le> s" "\<not> al \<Longrightarrow> x \<notin> guards h" using ok by (auto simp: node_ok_def split: if_splits)
  show "4 dvd s" using \<open>8 dvd s\<close> dvd_trans [of 4 8 s] by simp
qed

lemma hinv_sep:
  assumes "hinv h N L" "(x, s, al) \<in> set N" "(y, t, bl) \<in> set N"
  shows "(x, s, al) = (y, t, bl) \<or> x + s \<le> y \<or> y + t \<le> x"
proof -
  have "sorted_wrt sep N" using assms(1) by (simp add: hinv_def)
  then have "(x, s, al) = (y, t, bl) \<or> sep (x, s, al) (y, t, bl) \<or> sep (y, t, bl) (x, s, al)"
    using assms(2,3) by (metis in_set_conv_nth linorder_neqE_nat sorted_wrt_nth_less)
  then show ?thesis by (auto simp: sep_def)
qed

lemma hinv_ends: "hinv h N L \<Longrightarrow> ends h \<subseteq> guards h"
  using ends_guards by (simp add: hinv_def)

lemma hinv_entry:
  assumes "hinv h N L" "(y, t) \<in> set L"
  shows "(t = 0 \<and> (\<exists>i < MM_NNODES. y = mm_nodelist h + 16 * i)) \<or> (t \<noteq> 0 \<and> (y, t, False) \<in> set N)"
proof (cases "t = 0")
  case True
  then have "(y, t) \<in> {e \<in> set L. snd e = 0}" using assms(2) by simp
  also have "\<dots> = heads (mm_nodelist h)" using hinv_flist [OF assms(1)] by (simp add: flist_def)
  finally show ?thesis by (auto simp: heads_def)
next
  case False
  then have "(y, t) \<in> {e \<in> set L. snd e \<noteq> 0}" using assms(2) by simp
  also have "\<dots> = frees N" using assms(1) by (simp add: hinv_def)
  finally show ?thesis using False by (simp add: frees_def)
qed

lemma hinv_free_entry: "hinv h N L \<Longrightarrow> (x, s, False) \<in> set N \<Longrightarrow> (x, s) \<in> set L \<and> s \<noteq> 0"
proof -
  assume a: "hinv h N L" "(x, s, False) \<in> set N"
  then have "(x, s) \<in> {e \<in> set L. snd e \<noteq> 0}" by (simp add: hinv_def frees_def)
  then show ?thesis by simp
qed

text \<open>A node of the free list does not overlap a chunk other than itself.\<close>

lemma entry_apart:
  assumes "hinv h N L" "y \<in> addrs L" "(x, s, al) \<in> set N"
  shows "y + 16 \<le> x \<or> x + s \<le> y \<or> (y = x \<and> \<not> al)"
proof -
  obtain t where "(y, t) \<in> set L" using assms(2) by auto
  then consider i where "y = mm_nodelist h + 16 * i" "i < MM_NNODES" | "(y, t, False) \<in> set N"
    using hinv_entry [OF assms(1)] by blast
  then show ?thesis
  proof cases
    case 1
    then show ?thesis using hinv_node(11) [OF assms(1,3)] by auto
  next
    case 2
    then show ?thesis using hinv_sep [OF assms(1,3) 2] hinv_node(9) [OF assms(1) 2] by auto
  qed
qed

lemma header_off_links:
  assumes "hinv h N L" "(x, s, al) \<in> set N"
  shows "x \<notin> links (addrs L)" "x + 4 \<notin> links (addrs L)"
proof -
  have "8 \<le> s" using hinv_node(7) [OF assms] .
  then show "x \<notin> links (addrs L)" "x + 4 \<notin> links (addrs L)"
    using entry_apart [OF assms(1) _ assms(2)] by (fastforce simp: links_def)+
qed

text \<open>The neighbours of a chunk.\<close>

lemma hinv_next:
  assumes h: "hinv h (xs @ (x, s, al) # ys) L" and x: "x \<notin> ends h"
  obtains t bl zs where "ys = (x + s, t, bl) # zs" "\<not> al \<Longrightarrow> bl"
    "mm_mem h (x + s + 4) = enc t bl (\<not> al)" "\<not> al \<Longrightarrow> mm_mem h (x + s) = s"
proof (cases ys)
  case Nil
  with h x show thesis by (auto simp: hinv_def outcome_append after_def)
next
  case (Cons nd zs)
  obtain y t bl where nd: "nd = (y, t, bl)" by (cases nd)
  have "fits (mm_mem h) (after (ends h) (x, s, al)) nd" using h by (simp add: hinv_def seg_append Cons)
  then show thesis using x that by (auto simp: nd Cons fits_def after_def split: if_splits)
qed

lemma hinv_prev:
  assumes h: "hinv h (xs @ (x, s, al) # ys) L" and f: "nd_size h x AND MM_PREVFREE_BIT \<noteq> 0"
  obtains ws p t where "xs = ws @ [(p, t, False)]" "x = p + t" "mm_mem h x = t" al
proof -
  have fit: "fits (mm_mem h) (outcome (ends h) (None, None) xs) (x, s, al)"
    using h by (simp add: hinv_def seg_append)
  have "4 dvd s" by (rule hinv_node(8) [OF h, of x _ al]) simp
  note b = enc_bits(2) [OF this]
  show thesis
  proof (cases xs rule: rev_cases)
    case Nil
    with fit f b [of al False] show thesis by (simp add: fits_def nd_size_def MM_PREVFREE_BIT_def)
  next
    case (snoc ws nd)
    obtain p t pl where nd: "nd = (p, t, pl)" by (cases nd)
    have np: "\<not> pl" using fit f b [of al False]
      by (auto simp: snoc nd fits_def after_def nd_size_def MM_PREVFREE_BIT_def)
    have "(p, t, pl) \<in> set (xs @ (x, s, al) # ys)" by (simp add: snoc nd)
    then have "p \<notin> ends h" using hinv_node(10) [OF h _ np] hinv_ends [OF h] by blast
    then have "x = p + t" "mm_mem h x = t" al using fit np by (auto simp: snoc nd fits_def after_def)
    then show thesis using np by (intro that [of ws p t]) (simp_all add: snoc nd)
  qed
qed

lemma hinv_size_word:
  assumes h: "hinv h (xs @ (x, s, al) # ys) L"
  shows "nd_size h x = enc s al (snd (outcome (ends h) (None, None) xs) \<noteq> None)" "MM_SIZEOF_NODE h x = s"
    "MM_NODE_IS_ALLOC h x = al" "MM_NODE_IS_FREE h x = (\<not> al)"
    "MM_PREVNODE_IS_FREE h x = (snd (outcome (ends h) (None, None) xs) \<noteq> None)"
proof -
  have "fits (mm_mem h) (outcome (ends h) (None, None) xs) (x, s, al)"
    using h by (simp add: hinv_def seg_append)
  then show eq: "nd_size h x = enc s al (snd (outcome (ends h) (None, None) xs) \<noteq> None)"
    by (cases "outcome (ends h) (None, None) xs") (simp add: fits_def nd_size_def)
  have "4 dvd s" by (rule hinv_node(8) [OF h, of x _ al]) simp
  from size_word [OF eq this] show "MM_SIZEOF_NODE h x = s"
    "MM_NODE_IS_ALLOC h x = al" "MM_NODE_IS_FREE h x = (\<not> al)"
    "MM_PREVNODE_IS_FREE h x = (snd (outcome (ends h) (None, None) xs) \<noteq> None)" .
qed

text \<open>The chunk before a free one is allocated.\<close>

lemma hinv_free_word:
  assumes h: "hinv h (xs @ (x, s, False) # ys) L"
  shows "snd (outcome (ends h) (None, None) xs) = None" "nd_size h x = s"
proof -
  have "fits (mm_mem h) (outcome (ends h) (None, None) xs) (x, s, False)"
    using h by (simp add: hinv_def seg_append)
  then show n: "snd (outcome (ends h) (None, None) xs) = None" by (auto simp: fits_def)
  show "nd_size h x = s" using hinv_size_word(1) [OF h] by (simp add: n)
qed

section \<open>Changing the chunks of a span\<close>

lemma flist_cong:
  assumes "flist m nl L" "\<And>x. x \<in> addrs L \<Longrightarrow> m' (x + 4) = m (x + 4) \<and> m' (x + 8) = m (x + 8) \<and> m' (x + 12) = m (x + 12)"
  shows "flist m' nl L"
  using assms dseg_cong [of "map fst L" m' m 0 0] by (auto simp: flist_def)

text \<open>
  The operations of the manager replace the chunks of a span by others that cover it; they write the
  headers in the span and links of the free list.
\<close>

lemma hinv_retile:
  assumes h: "hinv h (xs @ old @ zs) L" and t: "tile lo old hi" "tile lo new hi" "lo < hi"
    and g: "map fst (filter (\<lambda>nd. fst nd \<in> guards h) new) = map fst (filter (\<lambda>nd. fst nd \<in> guards h) old)"
    and ok: "\<And>x s al. (x, s, al) \<in> set new \<Longrightarrow> 8 dvd x \<and> 8 dvd s \<and> (if x \<in> guards h then s = 8 \<and> al else 16 \<le> s)"
    and sg: "seg m' (ends h) (outcome (ends h) (None, None) xs) new"
    and la: "new \<noteq> []" "old \<noteq> []" "last new = last old"
    and fr: "\<And>y. y \<notin> links (addrs L) \<Longrightarrow> \<not> (lo + 4 \<le> y \<and> y < hi) \<Longrightarrow> m' y = mm_mem h y"
    and fl: "flist m' (mm_nodelist h) L'" "{e \<in> set L'. snd e \<noteq> 0} = frees (xs @ new @ zs)"
    and h': "mm_mem h' = m'" "mm_nodelist h' = mm_nodelist h" "mm_heapstart h' = mm_heapstart h"
      "mm_heapend h' = mm_heapend h" "mm_nregions h' = mm_nregions h"
  shows "hinv h' (xs @ new @ zs) L'"
proof -
  have eb: "ends h' = ends h" "bounds h' = bounds h" by (simp_all add: ends_def bounds_def h')
  have span: "y + u \<le> lo \<or> hi \<le> y" if "(y, u, bl) \<in> set (xs @ zs)" for y u bl
  proof (rule tile_span [OF t(1)])
    show "0 < u" using hinv_node(7) [OF h, of y u bl] that by auto
    have "sorted_wrt sep (xs @ old @ zs)" using h by (simp add: hinv_def)
    then show "\<forall>d \<in> set old. sep (y, u, bl) d" using that sep_sym by (force simp: sorted_wrt_append)
  qed (use t(3) in simp)
  have lim: "0 < lo" "hi \<le> 2 ^ 32" "mm_nodelist h + 16 * MM_NNODES \<le> lo \<or> hi \<le> mm_nodelist h"
  proof -
    show "0 < lo" using tile_first [OF t(1) la(2)] hinv_node(1) [OF h] by auto
    show "hi \<le> 2 ^ 32" using tile_last [OF t(1) la(2)] hinv_node(4) [OF h] last_in_set [OF la(2)] by fastforce
    have "sep (mm_nodelist h, 16 * MM_NNODES, False) d" if "d \<in> set old" for d
    proof -
      obtain x s al where "d = (x, s, al)" by (cases d)
      then show ?thesis using hinv_node(11) [OF h, of x s al] that by (auto simp: sep_def)
    qed
    then show "mm_nodelist h + 16 * MM_NNODES \<le> lo \<or> hi \<le> mm_nodelist h"
      by (intro tile_span [OF t(1) _ _ t(3)]) auto
  qed
  have keep: "m' y = mm_mem h y" "m' (y + 4) = mm_mem h (y + 4)" "4 dvd u"
    if "(y, u, bl) \<in> set (xs @ zs)" for y u bl
  proof -
    have m: "(y, u, bl) \<in> set (xs @ old @ zs)" using that by auto
    have "8 \<le> u" using hinv_node(7) [OF h m] .
    then show "m' y = mm_mem h y" "m' (y + 4) = mm_mem h (y + 4)"
      using fr header_off_links [OF h m] span [OF that] by auto
    show "4 dvd u" using hinv_node(8) [OF h m] .
  qed
  have out: "outcome (ends h) st new = outcome (ends h) st old" for st
    using la by (simp add: outcome_def)
  have "seg m' (ends h) (None, None) xs = seg (mm_mem h) (ends h) (None, None) xs"
    "seg m' (ends h) st zs = seg (mm_mem h) (ends h) st zs" for st
    by (rule seg_cong, use keep in \<open>metis Un_iff set_append\<close>)+
  then have "seg m' (ends h) (None, None) (xs @ new @ zs)"
    "outcome (ends h) (None, None) (xs @ new @ zs) = (None, None)"
    using h sg out by (auto simp: hinv_def seg_append outcome_append)
  moreover have "node_ok h' nd" if "nd \<in> set (xs @ new @ zs)" for nd
  proof (cases "nd \<in> set new")
    case True
    obtain x s al where nd: "nd = (x, s, al)" by (cases nd)
    have "x + s \<le> hi" "lo \<le> x" using tile_within [OF t(2)] True nd by auto
    then show ?thesis using ok [of x s al] lim eb True by (auto simp: nd node_ok_def h')
  next
    case False
    then have "node_ok h nd" using h that by (auto simp: hinv_def)
    then show ?thesis using eb by (simp add: node_ok_def h')
  qed
  moreover have "sorted_wrt sep (xs @ new @ zs)"
  proof -
    have new: "sep c d \<and> sep d c" if "c \<in> set (xs @ zs)" "d \<in> set new" for c d
    proof -
      obtain y u bl x s al where cd: "c = (y, u, bl)" "d = (x, s, al)" by (cases c; cases d)
      then show ?thesis using span [of y u bl] tile_within [OF t(2), of x s al] that by (auto simp: sep_def)
    qed
    have "sorted_wrt sep (xs @ old @ zs)" using h by (simp add: hinv_def)
    then show ?thesis using new tile_sep [OF t(2)] by (simp add: sorted_wrt_append) blast
  qed
  moreover have "map fst (filter (\<lambda>nd. fst nd \<in> guards h') (xs @ new @ zs)) = bounds h'"
    using h g eb by (simp add: hinv_def)
  ultimately show ?thesis using h fl unfolding hinv_def eb h' by simp
qed

end
