(* ===== verification/Mm_Malloc.thy ===== *)
theory Mm_Malloc
  imports Mm_Chunks
begin

text \<open>
  Allocation: \<open>mm_malloc\<close> takes the best fitting free chunk, splits it when the rest is worth keeping,
  keeps the heap well formed and leaves the contents of every allocated block alone.
\<close>

section \<open>Taking a free chunk\<close>

text \<open>The chunk at \<open>x\<close> becomes an allocated one of \<open>n\<close> bytes, with a free remainder if that is large enough.\<close>

definition take_size :: "nat \<Rightarrow> nat \<Rightarrow> nat" where
  "take_size n s = (if MM_MIN_CHUNK \<le> s - n then n else s)"

definition split_node :: "nat \<Rightarrow> nat \<Rightarrow> nat \<Rightarrow> node list" where
  "split_node x n s = (x, take_size n s, True) # (if MM_MIN_CHUNK \<le> s - n then [(x + n, s - n, False)] else [])"

fun take_abs :: "nat \<Rightarrow> nat \<Rightarrow> node list \<Rightarrow> node list" where
  "take_abs x n [] = []"
| "take_abs x n ((y, t, al) # N) = (if y = x then split_node x n t @ N else (y, t, al) # take_abs x n N)"

lemma take_abs_split: "x \<notin> fst ` set xs \<Longrightarrow> take_abs x n (xs @ (x, s, al) # ys) = xs @ split_node x n s @ ys"
  by (induction xs) auto

lemma hinv_distinct: "hinv h N L \<Longrightarrow> distinct (map fst N)"
proof -
  assume h: "hinv h N L"
  have "sorted_wrt (\<lambda>c d. fst c \<noteq> fst d) N"
  proof (rule sorted_wrt_mono_rel [of N sep])
    show "sorted_wrt sep N" using h by (simp add: hinv_def)
    fix c d assume "c \<in> set N" "d \<in> set N" "sep c d"
    then show "fst c \<noteq> fst d"
      using hinv_node(7) [OF h, of "fst c" "fst (snd c)" "snd (snd c)"]
        hinv_node(7) [OF h, of "fst d" "fst (snd d)" "snd (snd d)"]
      by (cases c; cases d) (auto simp: sep_def)
  qed
  then show ?thesis by (simp add: distinct_conv_nth sorted_wrt_iff_nth_less) (metis linorder_neqE_nat)
qed

lemma spaced_distinct: "spaced xs \<Longrightarrow> distinct xs"
  by (induction xs) (auto simp: apart_def)

text \<open>A guard is a chunk.\<close>

lemma guard_node: "hinv h N L \<Longrightarrow> g \<in> guards h \<Longrightarrow> g \<in> fst ` set N"
proof -
  assume h: "hinv h N L" "g \<in> guards h"
  then have "g \<in> set (map fst (filter (\<lambda>nd. fst nd \<in> guards h) N))" by (simp add: hinv_def)
  then show ?thesis by auto
qed

lemma inside_no_guard:
  assumes "hinv h N L" "(x, s, al) \<in> set N" "x < y" "y < x + s"
  shows "y \<notin> guards h" "y \<notin> ends h"
proof -
  show "y \<notin> guards h"
  proof
    assume "y \<in> guards h"
    then obtain t bl where "(y, t, bl) \<in> set N" using guard_node [OF assms(1)] by fastforce
    from hinv_sep [OF assms(1,2) this] hinv_node(7) [OF assms(1) this] assms(3,4) show False by auto
  qed
  then show "y \<notin> ends h" using hinv_ends [OF assms(1)] by blast
qed

lemma next_node:
  assumes h: "hinv h N L" and c: "(c, u, al) \<in> set N" "c \<notin> guards h"
  shows "\<exists>t bl. (c + u, t, bl) \<in> set N"
proof -
  obtain xs ys where N: "N = xs @ (c, u, al) # ys" using c by (meson split_list)
  have "c \<notin> ends h" using hinv_ends [OF h] c(2) by blast
  with h obtain t bl zs where "ys = (c + u, t, bl) # zs" unfolding N by (rule hinv_next)
  then show ?thesis using N by auto
qed

lemma frees_simps [simp]:
  "frees [] = {}" "frees ((x, s, al) # N) = (if al then frees N else insert (x, s) (frees N))"
  "frees (N @ N') = frees N \<union> frees N'"
  by (auto simp: frees_def)

text \<open>A free chunk, its entry in the list and the chunk that follows it.\<close>

definition free_at :: "mm_heap_s \<Rightarrow> node list \<Rightarrow> entry list \<Rightarrow> nat \<Rightarrow> nat \<Rightarrow> node list \<Rightarrow> nat \<Rightarrow> node list \<Rightarrow>
  entry list \<Rightarrow> entry list \<Rightarrow> bool" where
  "free_at h N L x s xs t zs us vs \<longleftrightarrow>
     N = xs @ (x, s, False) # (x + s, t, True) # zs \<and> L = us @ (x, s) # vs \<and>
     x \<notin> fst ` set xs \<and> x \<notin> addrs (us @ vs) \<and> x \<notin> guards h \<and> x \<notin> ends h \<and> 16 \<le> s \<and> 8 dvd x \<and> 8 dvd s \<and>
     mm_mem h (x + 4) = s \<and> mm_mem h (x + s) = s \<and> mm_mem h (x + s + 4) = enc t True True \<and>
     8 \<le> t \<and> 4 dvd t \<and> 8 dvd t \<and> (\<forall>y \<in> addrs (us @ vs). y + 16 \<le> x \<or> x + s + t \<le> y) \<and>
     (\<exists>ex. outcome (ends h) (None, None) xs = (ex, None) \<and> (ex = None \<or> ex = Some x)) \<and>
     {e \<in> set (us @ vs). snd e \<noteq> 0} = frees xs \<union> frees zs"

lemma free_atD:
  assumes "free_at h N L x s xs t zs us vs"
  shows "N = xs @ (x, s, False) # (x + s, t, True) # zs" "L = us @ (x, s) # vs"
    "x \<notin> fst ` set xs" "x \<notin> addrs (us @ vs)" "x \<notin> guards h" "x \<notin> ends h" "16 \<le> s" "8 dvd x" "8 dvd s"
    "mm_mem h (x + 4) = s" "mm_mem h (x + s) = s" "mm_mem h (x + s + 4) = enc t True True"
    "8 \<le> t" "4 dvd t" "8 dvd t" "y \<in> addrs (us @ vs) \<Longrightarrow> y + 16 \<le> x \<or> x + s + t \<le> y"
    "\<exists>ex. outcome (ends h) (None, None) xs = (ex, None) \<and> (ex = None \<or> ex = Some x)"
    "{e \<in> set (us @ vs). snd e \<noteq> 0} = frees xs \<union> frees zs"
  using assms unfolding free_at_def by blast+

lemma free_chunk:
  assumes h: "hinv h N L" and x: "(x, s, False) \<in> set N"
  obtains xs t zs us vs where "free_at h N L x s xs t zs us vs"
proof -
  obtain xs ys where N: "N = xs @ (x, s, False) # ys" using x by (meson split_list)
  obtain us vs where L: "L = us @ (x, s) # vs" using hinv_free_entry [OF h x] by (meson split_list)
  have g: "x \<notin> guards h" "x \<notin> ends h" using hinv_node(10) [OF h x] hinv_ends [OF h] by auto
  obtain t bl zs where ys: "ys = (x + s, t, bl) # zs" "bl" "mm_mem h (x + s + 4) = enc t bl True" "mm_mem h (x + s) = s"
    using hinv_next [OF h [unfolded N] g(2)] by auto
  have d: "distinct (map fst N)" "distinct (map fst L)"
    using hinv_distinct [OF h] spaced_distinct hinv_flist [OF h] by (auto simp: flist_def)
  have nt: "(x + s, t, True) \<in> set N" using N ys by simp
  have xl: "x \<notin> addrs (us @ vs)" using d(2) by (auto simp: L)
  have ap: "y + 16 \<le> x \<or> x + s + t \<le> y" if "y \<in> addrs (us @ vs)" for y
  proof -
    have "y \<in> addrs L" "y \<noteq> x" using that xl by (auto simp: L)
    then show ?thesis using entry_apart [OF h _ x] entry_apart [OF h _ nt] hinv_node(7) [OF h x] by fastforce
  qed
  have "fits (mm_mem h) (outcome (ends h) (None, None) xs) (x, s, False)"
    using h by (simp add: hinv_def seg_append N)
  then have ex: "\<exists>ex. outcome (ends h) (None, None) xs = (ex, None) \<and> (ex = None \<or> ex = Some x)"
    by (cases "outcome (ends h) (None, None) xs") (auto simp: fits_def)
  have nd: "x \<notin> fst ` set xs" "x \<notin> fst ` set zs" using d(1) by (auto simp: N ys)
  have "frees N = {e \<in> set L. snd e \<noteq> 0}" using h by (simp add: hinv_def)
  moreover have "(x, s) \<notin> frees xs \<union> frees zs" using nd by (auto simp: frees_def image_iff)
  moreover have xs: "(x, s) \<notin> set (us @ vs)" using xl by force
  ultimately have "frees xs \<union> frees zs = {e \<in> set L. snd e \<noteq> 0} - {(x, s)}" using ys by (auto simp: N)
  then have fr: "{e \<in> set (us @ vs). snd e \<noteq> 0} = frees xs \<union> frees zs" using xs by (auto simp: L)
  show thesis
  proof (rule that, unfold free_at_def, intro conjI)
    show "N = xs @ (x, s, False) # (x + s, t, True) # zs" "L = us @ (x, s) # vs" using N L ys by simp_all
    show "mm_mem h (x + 4) = s" using hinv_free_word(2) [OF h [unfolded N]] by (simp add: nd_size_def)
    show "mm_mem h (x + s + 4) = enc t True True" using ys by simp
    show "{e \<in> set (us @ vs). snd e \<noteq> 0} = frees xs \<union> frees zs" by (rule fr)
    show "\<forall>y \<in> addrs (us @ vs). y + 16 \<le> x \<or> x + s + t \<le> y" using ap by blast
  qed (use nd xl g ex ys hinv_node [OF h x] hinv_node [OF h nt] in simp_all)
qed

lemma put_mem [simp]: "mm_mem (put y v h) = (mm_mem h)(y := v)" "put y v h = h\<lparr>mm_mem := (mm_mem h)(y := v)\<rparr>"
  by (simp_all add: put_def)

lemma add_used_mem [simp]:
  "add_used n (h\<lparr>mm_mem := m\<rparr>) = (add_used n h)\<lparr>mm_mem := m\<rparr>" "mm_mem (add_used n h) = mm_mem h"
  "mm_nodelist (add_used n h) = mm_nodelist h" "mm_heapstart (add_used n h) = mm_heapstart h"
  "mm_heapend (add_used n h) = mm_heapend h" "mm_nregions (add_used n h) = mm_nregions h"
  "mm_kern (add_used n h) = mm_kern h" "mm_mutex (add_used n h) = mm_mutex h"
  "mm_delaylist (add_used n h) = mm_delaylist h" "mm_curused (add_used n h) = mm_curused h + of_nat n"
  by (simp_all add: add_used_def Let_def)

lemma links_mono: "A \<subseteq> B \<Longrightarrow> links A \<subseteq> links B"
  by (auto simp: links_def)

lemma links_insert [simp]: "links (insert x A) = insert (x + 8) (insert (x + 12) (links A))"
  by (auto simp: links_def)

lemma not_in_links: "(\<And>y. y \<in> A \<Longrightarrow> y + 16 \<le> z \<or> z < y + 8) \<Longrightarrow> z \<notin> links A"
  by (force simp: links_def)

text \<open>The words of the entries of a list, which the headers of other chunks do not touch.\<close>

lemma flist_write:
  assumes "flist m nl L" "\<And>y. y \<in> addrs L \<Longrightarrow> y + 16 \<le> z \<or> z < y + 4"
  shows "flist (m(z := v)) nl L"
  by (rule flist_cong [OF assms(1)]) (use assms(2) in force)

lemma take_node_split:
  assumes h: "hinv h N L" and x: "(x, s, False) \<in> set N" and n: "16 \<le> n" "8 dvd n" "n + 16 \<le> s"
  shows "\<exists>m' L'. take_node x n h = Some ((add_used n h)\<lparr>mm_mem := m'\<rparr>) \<and>
    hinv ((add_used n h)\<lparr>mm_mem := m'\<rparr>) (take_abs x n N) L' \<and>
    (\<forall>y. y \<notin> links (addrs L) \<longrightarrow> \<not> (x + 4 \<le> y \<and> y < x + s + 8) \<longrightarrow> m' y = mm_mem h y)"
proof -
  obtain xs t zs us vs where at: "free_at h N L x s xs t zs us vs" by (rule free_chunk [OF h x])
  note N = free_atD(1) [OF at] and L = free_atD(2) [OF at] and nx = free_atD(3) [OF at]
    and g = free_atD(5,6) [OF at] and s = free_atD(7,8,9) [OF at] and m = free_atD(10,11,12) [OF at]
    and t = free_atD(13,14,15) [OF at] and ap = free_atD(16) [OF at] and ex = free_atD(17) [OF at]
    and fr = free_atD(18) [OF at]
  let ?nl = "mm_nodelist h" and ?r = "x + n"
  have four: "4 dvd s" "4 dvd n" "4 dvd s - n" "8 dvd s - n" "8 dvd ?r"
    using s n dvd_trans [of 4 8 s] dvd_trans [of 4 8 n] by (auto intro: dvd_diff_nat)
  obtain m1 where m1: "remove_node x h = h\<lparr>mm_mem := m1\<rparr>" "flist m1 ?nl (us @ vs)"
    and m1f: "\<And>y. y \<notin> links (addrs (us @ vs)) \<Longrightarrow> m1 y = mm_mem h y"
    using remove_node_flist [of h ?nl us x s vs] hinv_flist [OF h] L s(1) by auto
  have off: "y \<notin> links (addrs (us @ vs))" if "x \<le> y" "y < x + s + t" for y
    by (rule not_in_links) (use ap that in fastforce)
  define m2 where "m2 = m1(?r + 4 := s - n, x + 4 := n, x + s := s - n)"
  have f2: "flist m2 ?nl (us @ vs)"
    unfolding m2_def by (intro flist_write m1(2)) (use ap n t in fastforce)+
  have "\<exists>m' us' vs'. us @ vs = us' @ vs' \<and> mm_addfreechunk ?r (h\<lparr>mm_mem := m2\<rparr>) = Some (h\<lparr>mm_mem := m'\<rparr>) \<and>
    flist m' ?nl (us' @ (?r, s - n) # vs') \<and>
    (\<forall>y. y \<notin> links (insert ?r (addrs (us @ vs))) \<longrightarrow> m' y = m2 y)"
  proof -
    have "apart ?r y" if "y \<in> addrs (us @ vs)" for y using ap [OF that] n t by (auto simp: apart_def)
    moreover have "m2 (?r + 4) = s - n" "0 < ?r" "16 \<le> s - n" using n by (simp_all add: m2_def)
    ultimately show ?thesis
      using addfreechunk_flist [of "h\<lparr>mm_mem := m2\<rparr>" "us @ vs" ?r "s - n"] f2 four(3) by simp
  qed
  then obtain m3 us' vs' where L': "us @ vs = us' @ vs'"
    and m3: "mm_addfreechunk ?r (h\<lparr>mm_mem := m2\<rparr>) = Some (h\<lparr>mm_mem := m3\<rparr>)"
      "flist m3 ?nl (us' @ (?r, s - n) # vs')"
    and m3f: "\<And>y. y \<notin> links (insert ?r (addrs (us @ vs))) \<Longrightarrow> m3 y = m2 y" by blast
  have m3v: "m3 (x + 4) = n" "m3 (?r + 4) = s - n" "m3 (x + s) = s - n" "m3 (x + s + 4) = enc t True True"
    using m3f [of "x + 4"] m3f [of "?r + 4"] m3f [of "x + s"] m3f [of "x + s + 4"] off n t m1f [of "x + s + 4"] m(3)
    by (auto simp: m2_def)
  define m' where "m' = m3(x + 4 := n OR MM_ALLOC_BIT)"
  have al: "n OR MM_ALLOC_BIT = enc n True False" using size_word_set(1) [OF four(2), of False False] by simp
  have run: "take_node x n h = Some ((add_used n h)\<lparr>mm_mem := m'\<rparr>)"
  proof -
    have sz: "MM_SIZEOF_NODE h x = s" using hinv_size_word(2) [of h xs x s False] h N by simp
    have "m1 (x + 4) = s" using m1f off n m t by simp
    moreover have "n OR (s AND MM_MASK_BIT) = n"
      using size_word_set(3) [OF four(1,2), of False False] by simp
    moreover have "MM_SIZEOF_NODE (h\<lparr>mm_mem := m3\<rparr>) x = n"
      using size_word(1) [of "h\<lparr>mm_mem := m3\<rparr>" x n False False] m3v four by (simp add: nd_size_def)
    ultimately show ?thesis
      using m3(1) m3v n by (simp add: take_node_def sz m1(1) nd_size_def m2_def m'_def Let_def)
  qed
  have f': "flist m' ?nl (us' @ (?r, s - n) # vs')"
    unfolding m'_def by (intro flist_write m3(2)) (use ap n t L' in fastforce)
  have frame: "m' y = mm_mem h y" if "y \<notin> links (addrs L)" "\<not> (x + 4 \<le> y \<and> y < x + s + 8)" for y
  proof -
    have "y \<notin> links (insert ?r (addrs (us @ vs)))" "y \<notin> links (addrs (us @ vs))"
      using that n links_mono [of "addrs (us @ vs)" "addrs L"] by (auto simp: L)
    then show ?thesis using m3f m1f that n by (auto simp: m'_def m2_def)
  qed
  have nt: "(x + s, t, True) \<in> set N" by (simp add: N)
  have rg: "?r \<notin> guards h" "?r \<notin> ends h" using inside_no_guard [OF h x, of ?r] n by auto
  have new: "take_abs x n N = xs @ [(x, n, True), (?r, s - n, False), (x + s, t, True)] @ zs"
    using take_abs_split [OF nx] n by (simp add: N split_node_def take_size_def)
  have "hinv ((add_used n h)\<lparr>mm_mem := m'\<rparr>) (take_abs x n N) (us' @ (?r, s - n) # vs')"
    unfolding new
  proof (rule hinv_retile [of h xs "[(x, s, False), (x + s, t, True)]" zs L x "x + s + t" _ m'])
    show "hinv h (xs @ [(x, s, False), (x + s, t, True)] @ zs) L" using h N by simp
    show "seg m' (ends h) (outcome (ends h) (None, None) xs) [(x, n, True), (?r, s - n, False), (x + s, t, True)]"
      using ex m3v n t s rg g al by (auto simp: fits_def after_def m'_def)
    show "(y, u, bl) \<in> set [(x, n, True), (?r, s - n, False), (x + s, t, True)] \<Longrightarrow>
      8 dvd y \<and> 8 dvd u \<and> (if y \<in> guards h then u = 8 \<and> bl else 16 \<le> u)" for y u bl
      using n s t g rg four hinv_node(5,6) [OF h nt] by auto
    show "{e \<in> set (us' @ (?r, s - n) # vs'). snd e \<noteq> 0} =
      frees (xs @ [(x, n, True), (?r, s - n, False), (x + s, t, True)] @ zs)"
    proof -
      have "{e \<in> set (us' @ (?r, s - n) # vs'). snd e \<noteq> 0} = insert (?r, s - n) {e \<in> set (us' @ vs'). snd e \<noteq> 0}"
        using n by auto
      also have "\<dots> = insert (?r, s - n) (frees xs \<union> frees zs)" using fr L' by simp
      finally show ?thesis by simp
    qed
    show "y \<notin> links (addrs L) \<Longrightarrow> \<not> (x + 4 \<le> y \<and> y < x + s + t) \<Longrightarrow> m' y = mm_mem h y" for y
      using frame [of y] t by auto
  qed (use f' n t g rg in \<open>simp_all\<close>)
  with run frame show ?thesis by blast
qed

lemma take_node_whole:
  assumes h: "hinv h N L" and x: "(x, s, False) \<in> set N" and n: "n \<le> s" "s < n + 16"
  shows "\<exists>m' L'. take_node x n h = Some ((add_used s h)\<lparr>mm_mem := m'\<rparr>) \<and>
    hinv ((add_used s h)\<lparr>mm_mem := m'\<rparr>) (take_abs x n N) L' \<and>
    (\<forall>y. y \<notin> links (addrs L) \<longrightarrow> \<not> (x + 4 \<le> y \<and> y < x + s + 8) \<longrightarrow> m' y = mm_mem h y)"
proof -
  obtain xs t zs us vs where at: "free_at h N L x s xs t zs us vs" by (rule free_chunk [OF h x])
  note N = free_atD(1) [OF at] and L = free_atD(2) [OF at] and nx = free_atD(3) [OF at]
    and g = free_atD(5,6) [OF at] and s = free_atD(7,8,9) [OF at] and m = free_atD(10,11,12) [OF at]
    and t = free_atD(13,14,15) [OF at] and ap = free_atD(16) [OF at] and ex = free_atD(17) [OF at]
    and fr = free_atD(18) [OF at]
  let ?nl = "mm_nodelist h"
  have four: "4 dvd s" using s dvd_trans [of 4 8 s] by auto
  obtain m1 where m1: "remove_node x h = h\<lparr>mm_mem := m1\<rparr>" "flist m1 ?nl (us @ vs)"
    and m1f: "\<And>y. y \<notin> links (addrs (us @ vs)) \<Longrightarrow> m1 y = mm_mem h y"
    using remove_node_flist [of h ?nl us x s vs] hinv_flist [OF h] L s(1) by auto
  have off: "y \<notin> links (addrs (us @ vs))" if "x \<le> y" "y < x + s + t" for y
    by (rule not_in_links) (use ap that in fastforce)
  have m1v: "m1 (x + 4) = s" "m1 (x + s + 4) = enc t True True" using m1f off t m s by simp_all
  have al: "s OR MM_ALLOC_BIT = enc s True False" using size_word_set(1) [OF four, of False False] by simp
  define m' where "m' = m1(x + s + 4 := enc t True False, x + 4 := enc s True False)"
  have run: "take_node x n h = Some ((add_used s h)\<lparr>mm_mem := m'\<rparr>)"
  proof -
    have sz: "MM_SIZEOF_NODE h x = s" using hinv_size_word(2) [of h xs x s False] h N by simp
    have "clear_bits (enc t True True) MM_PREVFREE_BIT = enc t True False" using clear_enc(3) [OF t(2)] by simp
    moreover have "MM_SIZEOF_NODE (h\<lparr>mm_mem := m1(x + s + 4 := v)\<rparr>) x = s" for v
      using size_word(1) [of "h\<lparr>mm_mem := m1(x + s + 4 := v)\<rparr>" x s False False] m1v four s by (simp add: nd_size_def)
    moreover have "\<not> 16 \<le> s - n" using n by simp
    ultimately show ?thesis
      using s m1v al by (simp add: take_node_def sz m1(1) nd_size_def m'_def Let_def)
  qed
  have f': "flist m' ?nl (us @ vs)"
    unfolding m'_def by (intro flist_write m1(2)) (use ap t s in fastforce)+
  have frame: "m' y = mm_mem h y" if "y \<notin> links (addrs L)" "\<not> (x + 4 \<le> y \<and> y < x + s + 8)" for y
  proof -
    have "y \<notin> links (addrs (us @ vs))" using that links_mono [of "addrs (us @ vs)" "addrs L"] by (auto simp: L)
    then show ?thesis using m1f that by (auto simp: m'_def)
  qed
  have nt: "(x + s, t, True) \<in> set N" by (simp add: N)
  have new: "take_abs x n N = xs @ [(x, s, True), (x + s, t, True)] @ zs"
    using take_abs_split [OF nx] n by (simp add: N split_node_def take_size_def)
  have "hinv ((add_used s h)\<lparr>mm_mem := m'\<rparr>) (take_abs x n N) (us @ vs)"
    unfolding new
  proof (rule hinv_retile [of h xs "[(x, s, False), (x + s, t, True)]" zs L x "x + s + t" _ m'])
    show "hinv h (xs @ [(x, s, False), (x + s, t, True)] @ zs) L" using h N by simp
    show "seg m' (ends h) (outcome (ends h) (None, None) xs) [(x, s, True), (x + s, t, True)]"
      using ex t s g by (auto simp: fits_def after_def m'_def)
    show "(y, u, bl) \<in> set [(x, s, True), (x + s, t, True)] \<Longrightarrow>
      8 dvd y \<and> 8 dvd u \<and> (if y \<in> guards h then u = 8 \<and> bl else 16 \<le> u)" for y u bl
      using s t g hinv_node(5,6) [OF h nt] by auto
    show "y \<notin> links (addrs L) \<Longrightarrow> \<not> (x + 4 \<le> y \<and> y < x + s + t) \<Longrightarrow> m' y = mm_mem h y" for y
      using frame [of y] t by auto
    show "{e \<in> set (us @ vs). snd e \<noteq> 0} = frees (xs @ [(x, s, True), (x + s, t, True)] @ zs)" using fr by simp
  qed (use f' s t g in \<open>simp_all\<close>)
  with run frame show ?thesis by blast
qed

lemma take_node_ok:
  assumes h: "hinv h N L" and x: "(x, s, False) \<in> set N" and n: "16 \<le> n" "8 dvd n" "n \<le> s"
  shows "\<exists>m' L'. take_node x n h = Some ((add_used (take_size n s) h)\<lparr>mm_mem := m'\<rparr>) \<and>
    hinv ((add_used (take_size n s) h)\<lparr>mm_mem := m'\<rparr>) (take_abs x n N) L' \<and>
    (\<forall>y. y \<notin> links (addrs L) \<longrightarrow> \<not> (x + 4 \<le> y \<and> y < x + s + 8) \<longrightarrow> m' y = mm_mem h y)"
proof (cases "n + 16 \<le> s")
  case True
  then have "take_size n s = n" by (simp add: take_size_def)
  then show ?thesis using take_node_split [OF h x n(1,2) True] by simp
next
  case False
  then have "take_size n s = s" using n(3) by (auto simp: take_size_def)
  then show ?thesis using take_node_whole [OF h x n(3)] False by simp
qed

section \<open>Contents of allocated blocks\<close>

text \<open>
  The words a block of \<open>s - 4\<close> bytes at \<open>c + 8\<close> may use: the last of them is the \<open>preceding\<close> field of
  the next chunk, which counts only while this chunk is free.
\<close>

definition area :: "nat \<Rightarrow> nat \<Rightarrow> nat set" where
  "area c s = {c + 8..<c + s + 4}"

text \<open>No allocated block of \<open>N\<close> has changed between two states.\<close>

definition intact :: "node list \<Rightarrow> mm_heap_s \<Rightarrow> mm_heap_s \<Rightarrow> bool" where
  "intact N h h' \<longleftrightarrow>
     (\<forall>c u y. (c, u, True) \<in> set N \<longrightarrow> c \<notin> guards h \<longrightarrow> y \<in> area c u \<longrightarrow> mm_mem h' y = mm_mem h y)"

lemma payload_off_links:
  assumes h: "hinv h N L" and c: "(c, u, True) \<in> set N" "c \<notin> guards h"
  shows "area c u \<inter> links (addrs L) = {}"
proof -
  obtain t bl where b: "(c + u, t, bl) \<in> set N" using next_node [OF h c] by blast
  have "y \<notin> links (addrs L)" if "y \<in> area c u" for y
  proof (rule not_in_links)
    fix z assume z: "z \<in> addrs L"
    have "z + 16 \<le> c \<or> c + u \<le> z" using entry_apart [OF h z c(1)] by simp
    moreover have "z + 16 \<le> c + u \<or> c + u \<le> z" using entry_apart [OF h z b] by auto
    ultimately show "z + 16 \<le> y \<or> y < z + 8" using that by (auto simp: area_def)
  qed
  then show ?thesis by blast
qed

lemma payload_off_span:
  assumes h: "hinv h N L" and c: "(c, u, True) \<in> set N" "c \<notin> guards h" and x: "(x, s, False) \<in> set N"
    and y: "y \<in> area c u"
  shows "\<not> (x + 4 \<le> y \<and> y < x + s + 8)"
proof -
  obtain xs t zs us vs where at: "free_at h N L x s xs t zs us vs" by (rule free_chunk [OF h x])
  have nt: "(x + s, t, True) \<in> set N" "8 \<le> t" using free_atD(1,13) [OF at] by auto
  obtain t' bl where b: "(c + u, t', bl) \<in> set N" using next_node [OF h c] by blast
  have u: "16 \<le> u" "16 \<le> s" using hinv_node(6) [OF h c(1,2)] hinv_node(9) [OF h x] by auto
  have 1: "c + u \<le> x \<or> x + s \<le> c" using hinv_sep [OF h c(1) x] by auto
  have 2: "(c = x + s \<and> u = t) \<or> c + u \<le> x + s \<or> x + s + t \<le> c" using hinv_sep [OF h c(1) nt(1)] by auto
  have 3: "(c + u = x \<and> t' = s) \<or> c + u + t' \<le> x \<or> x + s \<le> c + u" using hinv_sep [OF h b x] by auto
  have "8 \<le> t'" using hinv_node(7) [OF h b] .
  with 1 2 3 u nt(2) y show ?thesis by (auto simp: area_def)
qed

section \<open>The size of a chunk\<close>

lemma unat_align:
  fixes x :: u32
  shows "unat (x AND NOT 7) = unat x div 8 * 8"
proof -
  have m7: "(7 :: int) = mask 3" by (simp add: mask_eq_exp_minus_1)
  have b7: "bit (7 :: int) n \<longleftrightarrow> n < 3" for n unfolding m7 by (auto simp: bit_mask_iff possible_bit_def)
  have "x AND NOT 7 = push_bit 3 (drop_bit 3 x)"
    by (rule bit_word_eqI) (auto simp: bit_simps b7)
  moreover have "unat (drop_bit 3 x) = unat x div 8" by (simp add: drop_bit_eq_div unat_div)
  moreover have "unat x div 8 * 8 < 2 ^ 32" using unsigned_less [of x, where 'a = nat] by simp
  ultimately show ?thesis
    by (simp add: push_bit_eq_mult unat_word_ariths mult.commute [of 8])
qed

lemma chunk_size_cases:
  fixes req :: u32
  defines "s \<equiv> max 12 (unat req)"
  shows "s + 11 < 2 ^ 32 \<Longrightarrow> chunk_size req = Some (of_nat ((s + 11) div 8 * 8)) \<and>
      unat (of_nat ((s + 11) div 8 * 8) :: u32) = (s + 11) div 8 * 8"
    and "2 ^ 32 \<le> s + 11 \<Longrightarrow> chunk_size req = None"
proof -
  define w where "w = (if req < 12 then 12 else req)"
  have w: "unat w = s" by (auto simp: w_def s_def word_less_nat_alt max_def)
  have cs: "chunk_size req = (let a = (w + 4 + 7) AND NOT 7 in if a < w then None else Some a)"
    by (simp add: chunk_size_def MM_ALIGN_UP_def Let_def w_def)
  have u: "unat ((w + 4 + 7) AND NOT 7) = (s + 11) mod 2 ^ 32 div 8 * 8"
    unfolding unat_align by (simp add: unat_word_ariths w mod_simps add.commute [of 11 s])
  show "chunk_size req = Some (of_nat ((s + 11) div 8 * 8)) \<and>
      unat (of_nat ((s + 11) div 8 * 8) :: u32) = (s + 11) div 8 * 8" if lt: "s + 11 < 2 ^ 32"
  proof -
    have u1: "unat ((w + 4 + 7) AND NOT 7) = (s + 11) div 8 * 8" using u lt by simp
    then have "\<not> ((w + 4 + 7) AND NOT 7) < w" by (simp add: word_less_nat_alt w)
    moreover have "(w + 4 + 7) AND NOT 7 = (of_nat ((s + 11) div 8 * 8) :: u32)"
      using u1 by (metis of_nat_unat ucast_id)
    ultimately show ?thesis using cs u1 by (simp add: Let_def)
  qed
  show "chunk_size req = None" if ge: "2 ^ 32 \<le> s + 11"
  proof -
    have "s < 2 ^ 32" using w unsigned_less [of w, where 'a = nat] by simp
    then have "(s + 11) mod 2 ^ 32 = s + 11 - 2 ^ 32" using ge by (simp add: mod_if)
    then have "unat ((w + 4 + 7) AND NOT 7) < s" using u ge \<open>s < 2 ^ 32\<close> by simp
    then have "((w + 4 + 7) AND NOT 7) < w" by (simp only: word_less_nat_alt w)
    then show ?thesis using cs by (simp add: Let_def)
  qed
qed

section \<open>Calls that find the mutex free\<close>

definition mm_ready :: "mm_env \<Rightarrow> mm_heap_s \<Rightarrow> bool" where
  "mm_ready E h \<longleftrightarrow>
     (if in_irq E then \<not> nxmutex_is_locked (mm_mutex h) (mm_kern h)
      else kinv (mm_kern h) \<and> NXSEM_IS_MUTEX (sems (mm_kern h) (mm_mutex h)) \<and>
        semval (sems (mm_kern h) (mm_mutex h)) = NXSEM_NO_MHOLDER)"

text \<open>Such a call locks at once, and unlocking restores the kernel.\<close>

lemma mm_lock_ready:
  assumes "mm_ready E h"
  obtains k where "mm_lock E h = (OK, h\<lparr>mm_kern := k\<rparr>)"
    "\<And>h'. mm_kern h' = k \<Longrightarrow> mm_mutex h' = mm_mutex h \<Longrightarrow> mm_unlock E h' = h'\<lparr>mm_kern := mm_kern h\<rparr>"
proof (cases "in_irq E")
  case True
  then show thesis using assms by (intro that [of "mm_kern h"]) (simp_all add: mm_ready_def mm_lock_def mm_unlock_def)
next
  case False
  let ?k = "mm_kern h" and ?a = "mm_mutex h"
  have r: "kinv ?k" "NXSEM_IS_MUTEX (sems ?k ?a)" "semval (sems ?k ?a) = NXSEM_NO_MHOLDER"
    using assms False by (simp_all add: mm_ready_def)
  have "task_state (tcbs ?k (this_task ?k)) = TSTATE_TASK_RUNNING"
    using state_okD(4) this_task_in kinv_struct(2) [OF r(1)] by fastforce
  then show thesis
    using False free_lock [OF r(2,3)] r(1)
    by (intro that [of "set_semval ?a (of_nat (this_task ?k)) ?k"])
      (simp_all add: mm_lock_def mm_unlock_def nxsched_gettid_def)
qed

lemma hinv_cong:
  assumes "mm_mem h' = mm_mem h" "mm_nodelist h' = mm_nodelist h" "mm_heapstart h' = mm_heapstart h"
    "mm_heapend h' = mm_heapend h" "mm_nregions h' = mm_nregions h"
  shows "hinv h' N L = hinv h N L"
  using assms by (simp add: hinv_def node_ok_def ends_def bounds_def)

lemma hinv_other [simp]:
  "hinv (h\<lparr>mm_kern := k\<rparr>) N L = hinv h N L" "hinv (h\<lparr>mm_curused := c\<rparr>) N L = hinv h N L"
  "hinv (h\<lparr>mm_delaylist := d\<rparr>) N L = hinv h N L"
  by (rule hinv_cong; simp)+

section \<open>Allocation\<close>

text \<open>The number of bytes of the chunk for a request.\<close>

definition need :: "u32 \<Rightarrow> nat" where
  "need req = (max 12 (unat req) + 11) div 8 * 8"

lemma need_bounds: "16 \<le> need req" "8 dvd need req" "unat req + 4 \<le> need req"
  unfolding need_def by auto

lemma chunk_size_need:
  "chunk_size req = (if max 12 (unat req) + 11 < 2 ^ 32 then Some (of_nat (need req)) else None)"
  "max 12 (unat req) + 11 < 2 ^ 32 \<Longrightarrow> unat (of_nat (need req) :: u32) = need req"
  using chunk_size_cases [of req] unfolding need_def by (auto simp del: of_nat_mult of_nat_add)

text \<open>What the operation does once the mutex is held.\<close>

lemma malloc_locked:
  assumes h: "hinv h N L" and n: "16 \<le> n" "8 dvd n"
  shows "\<exists>x. malloc_walk h n (nd_flink h (nodelist h (mm_size2ndx n))) = Some x \<and>
    (if x = 0 then \<forall>(y, t) \<in> frees N. t < n
     else \<exists>s m' L'. (x, s, False) \<in> set N \<and> n \<le> s \<and> (\<forall>(y, t) \<in> frees N. n \<le> t \<longrightarrow> s \<le> t) \<and>
       take_node x n h = Some ((add_used (take_size n s) h)\<lparr>mm_mem := m'\<rparr>) \<and>
       hinv ((add_used (take_size n s) h)\<lparr>mm_mem := m'\<rparr>) (take_abs x n N) L' \<and>
       intact N h ((add_used (take_size n s) h)\<lparr>mm_mem := m'\<rparr>))"
proof -
  obtain x where x: "malloc_walk h n (nd_flink h (nodelist h (mm_size2ndx n))) = Some x"
    and c: "if x = 0 then \<forall>(y, t) \<in> set L. t < n
     else \<exists>s. (x, s) \<in> set L \<and> n \<le> s \<and> (\<forall>(y, t) \<in> set L. n \<le> t \<longrightarrow> s \<le> t)"
    using malloc_search [OF hinv_flist [OF h] n(1)] by blast
  have fr: "frees N = {e \<in> set L. snd e \<noteq> 0}" using h by (simp add: hinv_def)
  show ?thesis
  proof (cases "x = 0")
    case True
    with x c fr show ?thesis by auto
  next
    case False
    then obtain s where s: "(x, s) \<in> set L" "n \<le> s" "\<forall>(y, t) \<in> set L. n \<le> t \<longrightarrow> s \<le> t" using c by auto
    have xs: "(x, s, False) \<in> set N" using hinv_entry [OF h s(1)] s(2) n(1) by auto
    have best: "\<forall>(y, t) \<in> frees N. n \<le> t \<longrightarrow> s \<le> t" using s(3) fr by auto
    obtain m' L' where m': "take_node x n h = Some ((add_used (take_size n s) h)\<lparr>mm_mem := m'\<rparr>)"
      "hinv ((add_used (take_size n s) h)\<lparr>mm_mem := m'\<rparr>) (take_abs x n N) L'"
      and f: "\<And>y. y \<notin> links (addrs L) \<Longrightarrow> \<not> (x + 4 \<le> y \<and> y < x + s + 8) \<Longrightarrow> m' y = mm_mem h y"
      using take_node_ok [OF h xs n s(2)] by blast
    have "m' y = mm_mem h y" if "(c, u, True) \<in> set N" "c \<notin> guards h" "y \<in> area c u" for c u y
      using payload_off_links [OF h that(1,2)] payload_off_span [OF h that(1,2) xs that(3)] that(3) by (intro f) auto
    then have "intact N h ((add_used (take_size n s) h)\<lparr>mm_mem := m'\<rparr>)" by (simp add: intact_def)
    then show ?thesis
      using xs s(2) best m' unfolding x option.inject by (intro exI [of _ x] conjI refl) (simp only: if_not_P [OF False], blast)
  qed
qed

definition allocates :: "nat \<Rightarrow> node list \<Rightarrow> mm_heap_s \<Rightarrow> nat \<times> mm_heap_s \<Rightarrow> bool" where
  "allocates n N h res \<longleftrightarrow> (\<exists>x s m' L'. res = (x + 8, (add_used (take_size n s) h)\<lparr>mm_mem := m'\<rparr>) \<and>
     (x, s, False) \<in> set N \<and> n \<le> s \<and> (\<forall>(y, t) \<in> frees N. n \<le> t \<longrightarrow> s \<le> t) \<and>
     hinv (snd res) (take_abs x n N) L' \<and> intact N h (snd res))"

definition unsatisfiable :: "u32 \<Rightarrow> node list \<Rightarrow> bool" where
  "unsatisfiable req N \<longleftrightarrow> 2 ^ 32 \<le> max 12 (unat req) + 11 \<or> (\<forall>(y, t) \<in> frees N. t < need req)"

lemma malloc_ready:
  assumes h: "hinv h N L" and r: "mm_ready E h" and d: "mm_delaylist h = 0"
  shows "\<exists>res. mm_malloc E req h = Some res \<and>
    (if unsatisfiable req N then res = (0, h) else allocates (need req) N h res)"
proof (cases "max 12 (unat req) + 11 < 2 ^ 32")
  case False
  have "free_delaylist E h = Some (False, h)"
    using d by (simp add: free_delaylist_def delayed_frees.simps)
  then show ?thesis using False chunk_size_need(1) [of req] by (simp add: mm_malloc_def unsatisfiable_def)
next
  case True
  have fd: "free_delaylist E h = Some (False, h)"
    using d by (simp add: free_delaylist_def delayed_frees.simps)
  obtain k where k: "mm_lock E h = (OK, h\<lparr>mm_kern := k\<rparr>)"
    "\<And>h'. mm_kern h' = k \<Longrightarrow> mm_mutex h' = mm_mutex h \<Longrightarrow> mm_unlock E h' = h'\<lparr>mm_kern := mm_kern h\<rparr>"
    using mm_lock_ready [OF r] by blast
  let ?h = "h\<lparr>mm_kern := k\<rparr>" and ?n = "need req"
  obtain x where x: "malloc_walk ?h ?n (nd_flink ?h (nodelist ?h (mm_size2ndx ?n))) = Some x"
    and c: "if x = 0 then \<forall>(y, t) \<in> frees N. t < ?n
     else \<exists>s m' L'. (x, s, False) \<in> set N \<and> ?n \<le> s \<and> (\<forall>(y, t) \<in> frees N. ?n \<le> t \<longrightarrow> s \<le> t) \<and>
       take_node x ?n ?h = Some ((add_used (take_size ?n s) ?h)\<lparr>mm_mem := m'\<rparr>) \<and>
       hinv ((add_used (take_size ?n s) ?h)\<lparr>mm_mem := m'\<rparr>) (take_abs x ?n N) L' \<and>
       intact N ?h ((add_used (take_size ?n s) ?h)\<lparr>mm_mem := m'\<rparr>)"
    using malloc_locked [of ?h N L ?n] h need_bounds by auto
  note run = mm_malloc_def fd chunk_size_need True k(1) x
  show ?thesis
  proof (cases "x = 0")
    case True
    then have "mm_malloc E req h = Some (0, h)" using run k(2) [of ?h] by simp
    moreover have "unsatisfiable req N" using c True by (simp add: unsatisfiable_def)
    ultimately show ?thesis by simp
  next
    case False
    then obtain s m' L' where s: "(x, s, False) \<in> set N" "?n \<le> s" "\<forall>(y, t) \<in> frees N. ?n \<le> t \<longrightarrow> s \<le> t"
      and t: "take_node x ?n ?h = Some ((add_used (take_size ?n s) ?h)\<lparr>mm_mem := m'\<rparr>)"
        "hinv ((add_used (take_size ?n s) ?h)\<lparr>mm_mem := m'\<rparr>) (take_abs x ?n N) L'"
        "intact N ?h ((add_used (take_size ?n s) ?h)\<lparr>mm_mem := m'\<rparr>)"
      using c by auto
    let ?h' = "(add_used (take_size ?n s) h)\<lparr>mm_mem := m'\<rparr>"
    have e: "(add_used (take_size ?n s) ?h)\<lparr>mm_mem := m'\<rparr> = ?h'\<lparr>mm_kern := k\<rparr>"
      by (simp add: add_used_def Let_def)
    have "mm_unlock E (?h'\<lparr>mm_kern := k\<rparr>) = ?h'" using k(2) [of "?h'\<lparr>mm_kern := k\<rparr>"] by simp
    then have "mm_malloc E req h = Some (x + 8, ?h')" using run False t(1) e by simp
    moreover have "hinv ?h' (take_abs x ?n N) L'" "intact N h ?h'"
      using t(2,3) e by (simp_all add: intact_def bounds_def)
    moreover have "\<not> unsatisfiable req N"
      using s(1,2) True leD [OF s(2)] by (auto simp: unsatisfiable_def frees_def)
    ultimately show ?thesis using s unfolding allocates_def by auto
  qed
qed

end
