(* ===== verification/Mm_Free.thy ===== *)
theory Mm_Free
  imports Mm_Malloc
begin

text \<open>
  Freeing: \<open>mm_free\<close> gives a block back, merges it with its free neighbours, keeps the heap well formed
  and leaves the contents of every other block alone.  A caller that cannot lock leaves the block in the
  list of deferred frees, which the next allocation works off.
\<close>

section \<open>Merging with the successor\<close>

lemma flist_without:
  assumes "flist m nl (us @ (x, s) # vs)"
  shows "set (us @ vs) = set (us @ (x, s) # vs) - {(x, s)}" "x \<notin> addrs (us @ vs)"
proof -
  have "distinct (map fst (us @ (x, s) # vs))" using assms by (intro spaced_distinct) (simp only: flist_def)
  then show x: "x \<notin> addrs (us @ vs)" by (auto simp: image_Un)
  then have "(x, s) \<notin> set (us @ vs)" by (metis fst_conv image_eqI)
  then show "set (us @ vs) = set (us @ (x, s) # vs) - {(x, s)}" by auto
qed

text \<open>An allocated chunk that is no guard, the chunk after it, and the first allocated chunk after it.\<close>

definition block_at :: "mm_heap_s \<Rightarrow> node list \<Rightarrow> entry list \<Rightarrow> nat \<Rightarrow> nat \<Rightarrow> bool \<Rightarrow> node list \<Rightarrow> node list \<Rightarrow>
  nat \<Rightarrow> nat \<Rightarrow> node list \<Rightarrow> bool" where
  "block_at h N L x s pf xs mid nx v zs \<longleftrightarrow>
     N = xs @ (x, s, True) # mid @ (nx, v, True) # zs \<and> (mid = [] \<and> nx = x + s \<or>
       (\<exists>t. mid = [(x + s, t, False)] \<and> nx = x + s + t)) \<and>
     x \<notin> guards h \<and> x \<notin> ends h \<and> 16 \<le> s \<and> 8 dvd x \<and> 8 dvd s \<and> 8 \<le> v \<and> 8 dvd v \<and> x + s \<le> nx \<and> 8 dvd nx \<and>
     mm_mem h (x + 4) = enc s True pf \<and> mm_mem h (nx + 4) = enc v True (mid \<noteq> []) \<and>
     (\<exists>ex pv. outcome (ends h) (None, None) xs = (ex, pv) \<and> pf = (pv \<noteq> None) \<and> (ex = None \<or> ex = Some x) \<and>
        (pv \<noteq> None \<longrightarrow> pv = Some (mm_mem h x)))"

lemma block_chunk:
  assumes h: "hinv h N L" and x: "(x, s, True) \<in> set N" "x \<notin> guards h"
  obtains pf xs mid nx v zs where "block_at h N L x s pf xs mid nx v zs"
proof -
  obtain xs ys where N: "N = xs @ (x, s, True) # ys" using x by (meson split_list)
  have e: "x \<notin> ends h" using x(2) hinv_ends [OF h] by blast
  obtain t bl zs where ys: "ys = (x + s, t, bl) # zs" "mm_mem h (x + s + 4) = enc t bl False"
    using hinv_next [OF h [unfolded N] e] by auto
  obtain ex pv where o: "outcome (ends h) (None, None) xs = (ex, pv)" by (cases "outcome (ends h) (None, None) xs")
  have "fits (mm_mem h) (ex, pv) (x, s, True)" using h o by (simp add: hinv_def seg_append N)
  then have f: "ex = None \<or> ex = Some x" "mm_mem h (x + 4) = enc s True (pv \<noteq> None)" "pv \<noteq> None \<longrightarrow> pv = Some (mm_mem h x)"
    by (auto simp: fits_def)
  note n = hinv_node [OF h x(1)]
  show thesis
  proof (cases bl)
    case True
    have "(x + s, t, True) \<in> set N" using N ys True by simp
    note nt = hinv_node [OF h this]
    have "block_at h N L x s (pv \<noteq> None) xs [] (x + s) t zs"
      unfolding block_at_def using N ys True x e n nt o f by auto
    then show thesis by (rule that)
  next
    case False
    have xt: "(x + s, t, False) \<in> set N" using N ys False by simp
    then have ne: "x + s \<notin> ends h" using hinv_node(10) [OF h xt] hinv_ends [OF h] by auto
    have "hinv h ((xs @ [(x, s, True)]) @ (x + s, t, False) # zs) L" using h N ys False by simp
    then obtain v zs' where zs: "zs = (x + s + t, v, True) # zs'" "mm_mem h (x + s + t + 4) = enc v True True"
      using hinv_next [OF _ ne] by metis
    have "(x + s + t, v, True) \<in> set N" using N ys zs by simp
    note nv = hinv_node [OF h this]
    have "block_at h N L x s (pv \<noteq> None) xs [(x + s, t, False)] (x + s + t) v zs'"
      unfolding block_at_def using N ys zs False x e n nv hinv_node [OF h xt] o f by auto
    then show thesis by (rule that)
  qed
qed

lemma block_atD:
  assumes "block_at h N L x s pf xs mid nx v zs"
  shows "N = xs @ (x, s, True) # mid @ (nx, v, True) # zs"
    "mid = [] \<and> nx = x + s \<or> (\<exists>t. mid = [(x + s, t, False)] \<and> nx = x + s + t)"
    "x \<notin> guards h" "x \<notin> ends h" "16 \<le> s" "8 dvd x" "8 dvd s" "8 \<le> v" "8 dvd v" "x + s \<le> nx" "8 dvd nx"
    "mm_mem h (x + 4) = enc s True pf" "mm_mem h (nx + 4) = enc v True (mid \<noteq> [])"
    "\<exists>ex pv. outcome (ends h) (None, None) xs = (ex, pv) \<and> pf = (pv \<noteq> None) \<and> (ex = None \<or> ex = Some x) \<and>
        (pv \<noteq> None \<longrightarrow> pv = Some (mm_mem h x))"
  using assms unfolding block_at_def by blast+

lemma block_prev:
  assumes h: "hinv h N L" and b: "block_at h N L x s True xs mid nx v zs"
  obtains ws p t where "xs = ws @ [(p, t, False)]" "x = p + t" "mm_mem h x = t" "p \<notin> guards h" "p \<notin> ends h"
    "(p, t, False) \<in> set N" "\<exists>ex. outcome (ends h) (None, None) ws = (ex, None) \<and> (ex = None \<or> ex = Some p)"
proof -
  note N = block_atD(1) [OF b]
  obtain ex pv where ex: "outcome (ends h) (None, None) xs = (ex, Some pv)" "ex = None \<or> ex = Some x" "pv = mm_mem h x"
    using block_atD(14) [OF b] by auto
  then obtain ws p t bl where xs: "xs = ws @ [(p, t, bl)]" by (cases xs rule: rev_cases) auto
  have f: "\<not> bl" "t = mm_mem h x" using ex by (auto simp: xs after_def split: if_splits)
  have pN: "(p, t, False) \<in> set N" using f by (simp add: N xs)
  have pe: "p \<notin> guards h" "p \<notin> ends h" using hinv_node(10) [OF h pN] hinv_ends [OF h] by auto
  have "fits (mm_mem h) (outcome (ends h) (None, None) ws) (p, t, False)"
    using h f by (simp add: hinv_def seg_append N xs)
  then have "\<exists>ex. outcome (ends h) (None, None) ws = (ex, None) \<and> (ex = None \<or> ex = Some p)"
    by (cases "outcome (ends h) (None, None) ws") (auto simp: fits_def)
  moreover have "x = p + t" using ex pe f by (auto simp: xs after_def)
  ultimately show thesis using xs f pe pN by (intro that [of ws p t]) simp_all
qed

lemma block_last:
  assumes h: "hinv h N L" and b: "block_at h N L x s pf xs mid nx v zs" and pf: pf
  shows "\<exists>p t. last xs = (p, t, False) \<and> x = p + t \<and> 0 < t \<and> (p, t, False) \<in> set N"
proof -
  obtain ws p t where "xs = ws @ [(p, t, False)]" "x = p + t" "(p, t, False) \<in> set N"
    using block_prev [OF h] b pf by (metis (full_types))
  then show ?thesis using hinv_node(7) [OF h, of p t False] by auto
qed

text \<open>Entries of the list other than the chunk in between lie outside the span.\<close>

lemma block_entries:
  assumes h: "hinv h N L" and b: "block_at h N L x s pf xs mid nx v zs" and y: "y \<in> addrs L" "y \<notin> fst ` set mid"
  shows "y + 16 \<le> x \<or> nx + v \<le> y"
proof -
  note N = block_atD(1) [OF b]
  have m: "(x, s, True) \<in> set N" "(nx, v, True) \<in> set N" by (simp_all add: N)
  have 1: "y + 16 \<le> x \<or> x + s \<le> y" using entry_apart [OF h y(1) m(1)] by simp
  have 2: "y + 16 \<le> nx \<or> nx + v \<le> y" using entry_apart [OF h y(1) m(2)] by simp
  from block_atD(2) [OF b] show ?thesis
  proof
    assume "mid = [] \<and> nx = x + s"
    with 1 2 show ?thesis by auto
  next
    assume "\<exists>t. mid = [(x + s, t, False)] \<and> nx = x + s + t"
    then obtain t where t: "mid = [(x + s, t, False)]" "nx = x + s + t" by blast
    have "(x + s, t, False) \<in> set N" by (simp add: N t)
    from entry_apart [OF h y(1) this] y(2) t have "y + 16 \<le> x + s \<or> nx \<le> y" by auto
    with 1 2 t show ?thesis by auto
  qed
qed

text \<open>
  The state after merging with the successor: the chunk is free, of \<open>nx - x\<close> bytes, and no longer listed.
\<close>

lemma merge_next_ok:
  assumes h: "hinv h N L" and b: "block_at h N L x s pf xs mid nx v zs"
  shows "\<exists>m' L'. merge_next x s (h\<lparr>mm_mem := (mm_mem h)(x + 4 := enc s False pf)\<rparr>) = (nx, nx - x, h\<lparr>mm_mem := m'\<rparr>) \<and>
    flist m' (mm_nodelist h) L' \<and> set L' = set L - {(y, t). (y, t, False) \<in> set mid} \<and>
    m' (x + 4) = enc (nx - x) False pf \<and> m' nx = nx - x \<and> m' (nx + 4) = enc v True True \<and>
    (\<forall>y. y \<notin> links (addrs L') \<longrightarrow> \<not> (x + 4 \<le> y \<and> y < nx + 8) \<longrightarrow> m' y = mm_mem h y)"
proof -
  note N = block_atD(1) [OF b] and s = block_atD(5-7) [OF b] and v = block_atD(8,9) [OF b] and m = block_atD(12,13) [OF b]
  let ?nl = "mm_nodelist h"
  define m0 where "m0 = (mm_mem h)(x + 4 := enc s False pf)"
  have four: "4 dvd s" "4 dvd v" using s v dvd_trans [of 4 8 s] dvd_trans [of 4 8 v] by auto
  have f0: "flist m0 ?nl L"
  proof -
    have "y + 16 \<le> x + 4 \<or> x + 4 < y + 4" if "y \<in> addrs L" for y
      using entry_apart [OF h that, of x s True] s by (auto simp: N)
    then show ?thesis unfolding m0_def by (intro flist_write hinv_flist [OF h])
  qed
  from block_atD(2) [OF b] show ?thesis
  proof
    assume mid: "mid = [] \<and> nx = x + s"
    define m' where "m' = m0(nx + 4 := enc v True True, nx := s)"
    have "nd_size (h\<lparr>mm_mem := m0\<rparr>) nx = enc v True False" using m mid s by (simp add: nd_size_def m0_def)
    then have run: "merge_next x s (h\<lparr>mm_mem := m0\<rparr>) = (nx, nx - x, h\<lparr>mm_mem := m'\<rparr>)"
      using size_word(3) [of "h\<lparr>mm_mem := m0\<rparr>" nx v True False] size_word_set(2) [OF four(2), of True False] four mid
      by (simp add: merge_next_def m'_def Let_def)
    have "flist m' ?nl L"
      unfolding m'_def by (intro flist_write f0) (use block_entries [OF h b] mid v in force)+
    moreover have "m' y = mm_mem h y" if "\<not> (x + 4 \<le> y \<and> y < nx + 8)" for y
      using that mid s by (auto simp: m'_def m0_def)
    ultimately show ?thesis using run mid s by (intro exI [of _ m'] exI [of _ L]) (auto simp: m'_def m0_def)
  next
    assume "\<exists>t. mid = [(x + s, t, False)] \<and> nx = x + s + t"
    then obtain t where t: "mid = [(x + s, t, False)]" "nx = x + s + t" by blast
    have xt: "(x + s, t, False) \<in> set N" by (simp add: N t)
    obtain us vs where L: "L = us @ (x + s, t) # vs" using hinv_free_entry [OF h xt] by (meson split_list)
    have sub: "set (us @ vs) = set L - {(x + s, t)}" "x + s \<notin> addrs (us @ vs)"
      using flist_without [of "mm_mem h" ?nl us "x + s" t vs] hinv_flist [OF h] by (simp_all add: L)
    have t16: "16 \<le> t" "8 dvd t" "4 dvd t" "4 dvd s + t"
      using hinv_node [OF h xt] four by auto
    have f0': "flist (mm_mem (h\<lparr>mm_mem := m0\<rparr>)) ?nl (us @ (x + s, t) # vs)" using f0 L by simp
    obtain m1 where m1: "remove_node (x + s) (h\<lparr>mm_mem := m0\<rparr>) = h\<lparr>mm_mem := m1\<rparr>" "flist m1 ?nl (us @ vs)"
      and m1f: "\<And>y. y \<notin> links (addrs (us @ vs)) \<Longrightarrow> m1 y = m0 y"
      using remove_node_flist [OF f0'] t16(1) by auto
    have off: "y \<notin> links (addrs (us @ vs))" if "x \<le> y" "y < nx + v" for y
    proof (rule not_in_links)
      fix z assume z: "z \<in> addrs (us @ vs)"
      have zL: "z \<in> addrs L" using z by (auto simp: L)
      have "z \<noteq> x + s" using z sub(2) by blast
      with block_entries [OF h b zL] that t show "z + 16 \<le> y \<or> y < z + 8" by auto
    qed
    define m' where "m' = m1(x + 4 := enc (s + t) False pf, nx := s + t)"
    have m1v: "m1 (x + 4) = enc s False pf" "m1 (nx + 4) = enc v True True"
      using m1f off s v t m by (simp_all add: m0_def)
    have "m0 (x + s + 4) = t" using hinv_free_word(2) [of h "xs @ [(x, s, True)]" "x + s" t] h N t s
      by (simp add: m0_def nd_size_def)
    then have sz: "MM_NODE_IS_FREE (h\<lparr>mm_mem := m0\<rparr>) (x + s)" "MM_SIZEOF_NODE (h\<lparr>mm_mem := m0\<rparr>) (x + s) = t"
      using size_word [of "h\<lparr>mm_mem := m0\<rparr>" "x + s" t False False] t16 by (simp_all add: nd_size_def)
    have run: "merge_next x s (h\<lparr>mm_mem := m0\<rparr>) = (nx, nx - x, h\<lparr>mm_mem := m'\<rparr>)"
      using sz m1 m1v size_word_set(3) [OF four(1) t16(4), of False pf] t
      by (simp add: merge_next_def m'_def Let_def nd_size_def)
    have f': "flist m' ?nl (us @ vs)"
    proof -
      have "z + 16 \<le> x \<or> nx + v \<le> z" if "z \<in> addrs (us @ vs)" for z
      proof -
        have "z \<in> addrs L" using that by (auto simp: L)
        moreover have "z \<noteq> x + s" using that sub(2) by blast
        ultimately show ?thesis using block_entries [OF h b, of z] t by auto
      qed
      then show ?thesis unfolding m'_def by (intro flist_write m1(2)) (use v t in force)+
    qed
    moreover have "m' y = mm_mem h y" if "y \<notin> links (addrs (us @ vs))" "\<not> (x + 4 \<le> y \<and> y < nx + 8)" for y
      using that m1f t s by (auto simp: m'_def m0_def)
    moreover have "m' (x + 4) = enc (nx - x) False pf" "m' nx = nx - x" "m' (nx + 4) = enc v True True"
      using m1v t s t16 by (auto simp: m'_def)
    ultimately show ?thesis
      using run sub(1) t(1) unfolding m0_def by (intro exI [of _ m'] exI [of _ "us @ vs"] conjI) auto
  qed
qed

section \<open>Merging with the predecessor\<close>

text \<open>The chunks after a block is freed: its span and those of its free neighbours become one free chunk.\<close>

definition joined :: "node list \<Rightarrow> bool \<Rightarrow> nat \<Rightarrow> nat \<Rightarrow> nat \<Rightarrow> node list \<Rightarrow> node list" where
  "joined xs pf x nx v zs =
     (if pf then butlast xs @ [(fst (last xs), nx - fst (last xs), False), (nx, v, True)] @ zs
      else xs @ [(x, nx - x, False), (nx, v, True)] @ zs)"

definition free_steps :: "nat \<Rightarrow> nat \<Rightarrow> mm_heap_s \<Rightarrow> mm_heap_s option" where
  "free_steps x s h =
     (let (nxt, nodesize, h) = merge_next x s h; (node, h) = merge_prev x nodesize nxt h
      in mm_addfreechunk node h)"

lemma block_mid:
  assumes h: "hinv h N L" and b: "block_at h N L x s pf xs mid nx v zs" and m: "(y, t, bl) \<in> set mid"
  shows "y = x + s" "nx = y + t" "\<not> bl" "y \<notin> guards h" "16 \<le> t" "mid = [(y, t, False)]"
proof -
  show mid: "y = x + s" "nx = y + t" "\<not> bl" "mid = [(y, t, False)]" using block_atD(2) [OF b] m by auto
  have "(y, t, False) \<in> set N" using block_atD(1) [OF b] mid by simp
  from hinv_node(9,10) [OF h this] show "y \<notin> guards h" "16 \<le> t" by simp_all
qed

lemma block_tile:
  assumes h: "hinv h N L" and b: "block_at h N L x s pf xs mid nx v zs"
  shows "tile x ((x, s, True) # mid @ [(nx, v, True)]) (nx + v)"
    "filter (\<lambda>nd. fst nd \<in> guards h) mid = []" "tile x ((x, s, True) # mid) nx"
proof -
  show "tile x ((x, s, True) # mid) nx"
  proof (cases mid)
    case Nil
    then show ?thesis using block_atD(2,5) [OF b] by simp
  next
    case (Cons nd ms)
    obtain y t bl where "nd = (y, t, bl)" by (cases nd)
    then have "(y, t, bl) \<in> set mid" using Cons by simp
    note m = block_mid [OF h b this]
    show ?thesis using m(1,2,5) block_atD(5) [OF b] by (simp add: m(6))
  qed
  show "filter (\<lambda>nd. fst nd \<in> guards h) mid = []" using block_mid(4) [OF h b] by (auto simp: filter_empty_conv)
  show "tile x ((x, s, True) # mid @ [(nx, v, True)]) (nx + v)"
  proof (cases mid)
    case Nil
    then show ?thesis using block_atD(2,5,8) [OF b] by simp
  next
    case (Cons nd ms)
    obtain y t bl where "nd = (y, t, bl)" by (cases nd)
    then have "(y, t, bl) \<in> set mid" using Cons by simp
    note m = block_mid [OF h b this]
    show ?thesis using m(1,2,5) block_atD(5,8) [OF b] by (simp add: m(6))
  qed
qed

text \<open>The entries that remain when the chunk in between is unlisted.\<close>

lemma block_rest:
  assumes h: "hinv h N L" and b: "block_at h N L x s pf xs mid nx v zs"
    and L2: "set L2 = set L - {(y, t). (y, t, False) \<in> set mid}"
  shows "y \<in> addrs L2 \<Longrightarrow> y + 16 \<le> x \<or> nx + v \<le> y" "{e \<in> set L2. snd e \<noteq> 0} = frees xs \<union> frees zs"
proof -
  note N = block_atD(1) [OF b]
  show "y + 16 \<le> x \<or> nx + v \<le> y" if y: "y \<in> addrs L2"
  proof (rule block_entries [OF h b])
    obtain t where "(y, t) \<in> set L2" using y by auto
    then have t: "(y, t) \<in> set L" "(y, t, False) \<notin> set mid" using L2 by auto
    then show "y \<in> addrs L" by force
    show "y \<notin> fst ` set mid"
    proof
      assume "y \<in> fst ` set mid"
      then obtain u where u: "(y, u, False) \<in> set mid" using block_mid(3) [OF h b] by fastforce
      then have "(y, u) \<in> set L" using hinv_free_entry [OF h, of y u] N by simp
      then have "u = t" using flist_entry(2) [OF hinv_flist [OF h]] t(1) by metis
      with u t(2) show False by simp
    qed
  qed
  have d: "distinct (map fst N)" by (rule hinv_distinct [OF h])
  have fr: "{e \<in> set L. snd e \<noteq> 0} = frees xs \<union> frees mid \<union> frees zs" using h N by (auto simp: hinv_def)
  have dis: "(frees xs \<union> frees zs) \<inter> {(y, t). (y, t, False) \<in> set mid} = {}"
  proof -
    have "fst ` set mid \<inter> (fst ` set xs \<union> fst ` set zs) = {}" using d by (auto simp: N)
    then show ?thesis by (force simp: frees_def)
  qed
  have "{e \<in> set L2. snd e \<noteq> 0} = {e \<in> set L. snd e \<noteq> 0} - frees mid" using L2 by (auto simp: frees_def)
  also have "\<dots> = frees xs \<union> frees zs" using fr dis by (auto simp: frees_def)
  finally show "{e \<in> set L2. snd e \<noteq> 0} = frees xs \<union> frees zs" .
qed

text \<open>
  Listing the free chunk at the end of a span: the step that ends every operation which leaves free memory
  behind.  The chunks of the span are replaced by allocated ones, a free one at \<open>r\<close> and the allocated one
  that ends the span.
\<close>

lemma add_span:
  assumes h: "hinv h (ws @ old @ zs) L" and t: "tile lo old (nx + v)" "last old = (nx, v, True)" "old \<noteq> []"
    and tf: "tile lo front r"
    and r: "r + 16 \<le> nx" "8 dvd r" "8 dvd nx" "r \<notin> guards h" "lo \<le> r"
    and g: "map fst (filter (\<lambda>nd. fst nd \<in> guards h) front) @ [nd \<leftarrow> [nx]. nd \<in> guards h] =
      map fst (filter (\<lambda>nd. fst nd \<in> guards h) old)"
    and ok: "\<And>y u bl. (y, u, bl) \<in> set front \<Longrightarrow> 8 dvd y \<and> 8 dvd u \<and> bl \<and> y \<notin> guards h \<and> 16 \<le> u"
    and sg: "seg m (ends h) (outcome (ends h) (None, None) ws) front"
    and ex: "\<exists>ex. outcome (ends h) (None, None) (ws @ front) = (ex, None) \<and> (ex = None \<or> ex = Some r)"
    and m: "m (r + 4) = nx - r" "m nx = nx - r" "m (nx + 4) = enc v True True"
    and f: "flist m (mm_nodelist h) L4" "{e \<in> set L4. snd e \<noteq> 0} = frees ws \<union> frees zs" "addrs L4 \<subseteq> addrs L"
    and out: "\<And>y. y \<in> addrs L4 \<Longrightarrow> y + 16 \<le> lo \<or> nx + v \<le> y"
    and fr: "\<And>y. y \<notin> links (addrs L) \<Longrightarrow> \<not> (lo + 4 \<le> y \<and> y < nx + 8) \<Longrightarrow> m y = mm_mem h y"
  shows "\<exists>m' L'. mm_addfreechunk r (h\<lparr>mm_mem := m\<rparr>) = Some (h\<lparr>mm_mem := m'\<rparr>) \<and>
    hinv (h\<lparr>mm_mem := m'\<rparr>) (ws @ (front @ [(r, nx - r, False), (nx, v, True)]) @ zs) L' \<and>
    (\<forall>y. y \<notin> links (addrs L) \<longrightarrow> y < r + 8 \<or> nx \<le> y \<longrightarrow> m' y = m y)"
proof -
  let ?nl = "mm_nodelist h" and ?new = "front @ [(r, nx - r, False), (nx, v, True)]"
  have nv: "(nx, v, True) \<in> set (ws @ old @ zs)" using last_in_set [OF t(3)] t(2) by simp
  note nn = hinv_node [OF h nv]
  have lo: "0 < lo"
    using tile_first [OF t(1,3)] hinv_node(1) [OF h] by auto
  have S: "8 dvd nx - r" "4 dvd nx - r" using r dvd_trans [of 4 8 "nx - r"] by auto
  have "\<exists>m' us vs. L4 = us @ vs \<and> mm_addfreechunk r (h\<lparr>mm_mem := m\<rparr>) = Some (h\<lparr>mm_mem := m'\<rparr>) \<and>
    flist m' ?nl (us @ (r, nx - r) # vs) \<and> (\<forall>y. y \<notin> links (insert r (addrs L4)) \<longrightarrow> m' y = m y)"
  proof -
    have "apart r y" if "y \<in> addrs L4" for y using out [OF that] r nn(7) by (auto simp: apart_def)
    then show ?thesis using addfreechunk_flist [of "h\<lparr>mm_mem := m\<rparr>" L4 r "nx - r"] f m S r lo by simp
  qed
  then obtain m' us vs where L4: "L4 = us @ vs"
    and add: "mm_addfreechunk r (h\<lparr>mm_mem := m\<rparr>) = Some (h\<lparr>mm_mem := m'\<rparr>)" "flist m' ?nl (us @ (r, nx - r) # vs)"
    and fr': "\<And>y. y \<notin> links (insert r (addrs L4)) \<Longrightarrow> m' y = m y" by blast
  have off: "y \<notin> links (addrs L4)" if "lo \<le> y" "y < nx + v" for y
    by (rule not_in_links) (use out that in fastforce)
  have eqm: "m' y = m y" if "lo \<le> y" "y < nx + v" "y < r + 8 \<or> nx \<le> y" for y
    using off [OF that(1,2)] that(3) r(1) by (intro fr') auto
  have frame: "m' y = m y" if "y \<notin> links (addrs L)" "y < r + 8 \<or> nx \<le> y" for y
    using that r(1) links_mono [OF f(3)] by (intro fr') auto
  have tn: "tile lo ?new (nx + v)"
  proof -
    have "tile lo (front @ ys) hi" if "tile r ys hi" for ys hi
      using tf that by (induction lo front r rule: tile.induct) auto
    then show ?thesis using r nn(7) by simp
  qed
  have "seg m' (ends h) (outcome (ends h) (None, None) ws) front"
  proof -
    have "seg m' (ends h) st front = seg m (ends h) st front" for st
    proof (rule seg_cong)
      fix y u bl assume y: "(y, u, bl) \<in> set front"
      have "lo \<le> y" "y + u \<le> r" using tile_within [OF tf y] by auto
      moreover have "16 \<le> u" "8 dvd u" using ok [OF y] by auto
      ultimately show "4 dvd u \<and> m' (y + 4) = m (y + 4) \<and> (m (y + 4) AND 2 \<noteq> 0 \<longrightarrow> m' y = m y)"
        using eqm r dvd_trans [of 4 8 u] by auto
    qed
    with sg show ?thesis by simp
  qed
  moreover have "m' (r + 4) = nx - r" "m' nx = nx - r" "m' (nx + 4) = enc v True True"
    using eqm m r nn(7) by auto
  moreover have "r \<notin> ends h" using r(4) hinv_ends [OF h] by blast
  ultimately have sgn: "seg m' (ends h) (outcome (ends h) (None, None) ws) ?new"
    using ex r by (auto simp: seg_append fits_def after_def outcome_append)
  have "hinv (h\<lparr>mm_mem := m'\<rparr>) (ws @ ?new @ zs) (us @ (r, nx - r) # vs)"
  proof (rule hinv_retile [OF h t(1) tn _ _ _ sgn])
    show "lo < nx + v" using r nn(7) by simp
    show "map fst (filter (\<lambda>nd. fst nd \<in> guards h) ?new) = map fst (filter (\<lambda>nd. fst nd \<in> guards h) old)"
      using g r(4) by (auto split: if_splits)
    show "(y, u, bl) \<in> set ?new \<Longrightarrow> 8 dvd y \<and> 8 dvd u \<and> (if y \<in> guards h then u = 8 \<and> bl else 16 \<le> u)" for y u bl
      using ok [of y u bl] r S nn by auto
    show "{e \<in> set (us @ (r, nx - r) # vs). snd e \<noteq> 0} = frees (ws @ ?new @ zs)"
    proof -
      have "{e \<in> set (us @ (r, nx - r) # vs). snd e \<noteq> 0} = insert (r, nx - r) {e \<in> set L4. snd e \<noteq> 0}"
        using r by (auto simp: L4)
      moreover have "frees front = {}" using ok by (fastforce simp: frees_def)
      ultimately show ?thesis unfolding f(2) by simp
    qed
    show "m' y = mm_mem h y" if "y \<notin> links (addrs L)" "\<not> (lo + 4 \<le> y \<and> y < nx + v)" for y
      using frame [OF that(1)] fr [OF that(1)] that(2) r nn(7) by auto
  qed (use add t in simp_all)
  with add frame show ?thesis by blast
qed

lemma free_steps_alone:
  assumes h: "hinv h N L" and b: "block_at h N L x s False xs mid nx v zs"
  shows "\<exists>m' L'. free_steps x s (h\<lparr>mm_mem := (mm_mem h)(x + 4 := enc s False False)\<rparr>) = Some (h\<lparr>mm_mem := m'\<rparr>) \<and>
    hinv (h\<lparr>mm_mem := m'\<rparr>) (joined xs False x nx v zs) L' \<and>
    (\<forall>y. y \<notin> links (addrs L) \<longrightarrow> \<not> (x + 4 \<le> y \<and> y < nx + 8) \<longrightarrow> m' y = mm_mem h y)"
proof -
  note N = block_atD(1) [OF b] and g = block_atD(3,4) [OF b] and s = block_atD(5-7) [OF b] and v = block_atD(8,9) [OF b]
    and nx = block_atD(10,11) [OF b] and ex = block_atD(14) [OF b]
  obtain m2 L2 where run: "merge_next x s (h\<lparr>mm_mem := (mm_mem h)(x + 4 := enc s False False)\<rparr>) = (nx, nx - x, h\<lparr>mm_mem := m2\<rparr>)"
    and f2: "flist m2 (mm_nodelist h) L2" and L2: "set L2 = set L - {(y, t). (y, t, False) \<in> set mid}"
    and m2: "m2 (x + 4) = nx - x" "m2 nx = nx - x" "m2 (nx + 4) = enc v True True"
    and fr2: "\<And>y. y \<notin> links (addrs L2) \<Longrightarrow> \<not> (x + 4 \<le> y \<and> y < nx + 8) \<Longrightarrow> m2 y = mm_mem h y"
    using merge_next_ok [OF h b] by auto
  have sub: "addrs L2 \<subseteq> addrs L" using L2 by auto
  have fr: "m2 y = mm_mem h y" if "y \<notin> links (addrs L)" "\<not> (x + 4 \<le> y \<and> y < nx + 8)" for y
    using fr2 that links_mono [OF sub] by blast
  have "4 dvd nx - x" using s nx dvd_trans [of 4 8 "nx - x"] by auto
  then have pv: "merge_prev x (nx - x) nx (h\<lparr>mm_mem := m2\<rparr>) = (x, h\<lparr>mm_mem := m2\<rparr>)"
    using size_word(4) [of "h\<lparr>mm_mem := m2\<rparr>" x "nx - x" False False] m2 by (simp add: merge_prev_def nd_size_def)
  have "\<exists>m' L'. mm_addfreechunk x (h\<lparr>mm_mem := m2\<rparr>) = Some (h\<lparr>mm_mem := m'\<rparr>) \<and>
    hinv (h\<lparr>mm_mem := m'\<rparr>) (xs @ ([] @ [(x, nx - x, False), (nx, v, True)]) @ zs) L' \<and>
    (\<forall>y. y \<notin> links (addrs L) \<longrightarrow> y < x + 8 \<or> nx \<le> y \<longrightarrow> m' y = m2 y)"
  proof (rule add_span [of h xs "(x, s, True) # mid @ [(nx, v, True)]" zs L x])
    show "hinv h (xs @ ((x, s, True) # mid @ [(nx, v, True)]) @ zs) L" using h N by simp
    show "tile x ((x, s, True) # mid @ [(nx, v, True)]) (nx + v)" by (rule block_tile [OF h b])
  qed (use block_tile(2) [OF h b] block_rest [OF h b L2] ex f2 sub fr g s nx m2 in \<open>auto\<close>)
  then obtain m' L' where "mm_addfreechunk x (h\<lparr>mm_mem := m2\<rparr>) = Some (h\<lparr>mm_mem := m'\<rparr>)"
    "hinv (h\<lparr>mm_mem := m'\<rparr>) (xs @ [(x, nx - x, False), (nx, v, True)] @ zs) L'"
    and f': "\<And>y. y \<notin> links (addrs L) \<Longrightarrow> y < x + 8 \<or> nx \<le> y \<Longrightarrow> m' y = m2 y" by auto
  moreover have "m' y = mm_mem h y" if "y \<notin> links (addrs L)" "\<not> (x + 4 \<le> y \<and> y < nx + 8)" for y
    using f' [of y] fr [of y] that by auto
  ultimately show ?thesis using run pv unfolding joined_def free_steps_def by auto
qed

text \<open>The chunk before the freed one is free: it is unlisted and grows.\<close>

lemma merge_prev_ok:
  assumes h: "hinv h N L" and b: "block_at h N L x s True xs mid nx v zs"
    and f2: "flist m2 (mm_nodelist h) L2" and L2: "set L2 = set L - {(y, t). (y, t, False) \<in> set mid}"
    and m2: "m2 (x + 4) = enc (nx - x) False True" "m2 (nx + 4) = enc v True True"
    and fr2: "\<forall>y. y \<notin> links (addrs L2) \<longrightarrow> \<not> (x + 4 \<le> y \<and> y < nx + 8) \<longrightarrow> m2 y = mm_mem h y"
    and xs: "xs = ws @ [(p, t, False)]" "x = p + t" "mm_mem h x = t"
  shows "\<exists>m' L4. merge_prev x (nx - x) nx (h\<lparr>mm_mem := m2\<rparr>) = (p, h\<lparr>mm_mem := m'\<rparr>) \<and>
    flist m' (mm_nodelist h) L4 \<and> {e \<in> set L4. snd e \<noteq> 0} = frees ws \<union> frees zs \<and> addrs L4 \<subseteq> addrs L \<and>
    (\<forall>y \<in> addrs L4. y + 16 \<le> p \<or> nx + v \<le> y) \<and>
    m' (p + 4) = nx - p \<and> m' nx = nx - p \<and> m' (nx + 4) = enc v True True \<and>
    (\<forall>y. y \<notin> links (addrs L) \<longrightarrow> \<not> (p + 4 \<le> y \<and> y < nx + 8) \<longrightarrow> m' y = mm_mem h y)"
proof -
  note N = block_atD(1) [OF b] and s = block_atD(5-7) [OF b] and v = block_atD(8,9) [OF b] and nx = block_atD(10,11) [OF b]
  let ?nl = "mm_nodelist h" and ?S = "nx - x"
  have pN: "(p, t, False) \<in> set N" by (simp add: N xs)
  note pn = hinv_node [OF h pN] and out = block_rest(1) [OF h b L2] and rest = block_rest(2) [OF h b L2]
  have mp: "mm_mem h (p + 4) = t" using hinv_free_word(2) [of h ws p t] h N xs by (simp add: nd_size_def)
  have sub: "addrs L2 \<subseteq> addrs L" using L2 by auto
  have keep: "m2 y = mm_mem h y" if "(c, u, bl) \<in> set N" "y \<in> {c, c + 4}" "y < x + 4" for c u bl y
    using header_off_links [OF h that(1)] that(2,3) links_mono [OF sub] fr2 by auto
  have S: "4 dvd ?S" "x + ?S = nx" "8 dvd nx - p" "4 dvd nx - p" "4 dvd t" "16 \<le> nx - p" "p \<le> nx" "p + t \<le> nx"
    using s nx pn dvd_trans [of 4 8 ?S] dvd_trans [of 4 8 "nx - p"] xs by auto
  have m2x: "m2 x = t" "m2 (p + 4) = t"
    using keep [of x s True x] keep [of p t False "p + 4"] N xs mp pn by auto
  have "(p, t) \<in> set L2" using rest hinv_free_entry [OF h pN] by (auto simp: xs)
  then obtain us vs where L2': "L2 = us @ (p, t) # vs" by (meson split_list)
  have f2': "flist (mm_mem (h\<lparr>mm_mem := m2\<rparr>)) ?nl (us @ (p, t) # vs)" using f2 L2' by simp
  obtain m3 where m3: "remove_node p (h\<lparr>mm_mem := m2\<rparr>) = h\<lparr>mm_mem := m3\<rparr>" "flist m3 ?nl (us @ vs)"
    and fr3: "\<And>y. y \<notin> links (addrs (us @ vs)) \<Longrightarrow> m3 y = m2 y"
    using remove_node_flist [OF f2'] pn(9) by auto
  note wo = flist_without [OF f2']
  have sub2: "addrs (us @ vs) \<subseteq> addrs L2" by (auto simp: L2')
  have out': "y + 16 \<le> p \<or> nx + v \<le> y" if "y \<in> addrs (us @ vs)" for y
  proof -
    have "y \<in> addrs L2" "y \<in> addrs L" using that sub sub2 by blast+
    moreover have "y \<noteq> p" using that wo(2) by blast
    ultimately show ?thesis using out [of y] entry_apart [OF h _ pN, of y] xs(2) by auto
  qed
  have off: "y \<notin> links (addrs (us @ vs))" if "p \<le> y" "y < nx + v" for y
    by (rule not_in_links) (use out' that in fastforce)
  define m' where "m' = m3(p + 4 := nx - p, nx := nx - p)"
  have m3p: "m3 (p + 4) = t" "m3 (nx + 4) = enc v True True" using fr3 off m2 m2x S v by simp_all
  have "MM_PREVNODE_IS_FREE (h\<lparr>mm_mem := m2\<rparr>) x" "MM_SIZEOF_NODE (h\<lparr>mm_mem := m2\<rparr>) p = t"
    using size_word(4) [of "h\<lparr>mm_mem := m2\<rparr>" x ?S False True] size_word(1) [of "h\<lparr>mm_mem := m2\<rparr>" p t False False] m2 m2x S
    by (simp_all add: nd_size_def)
  moreover have "t + ?S = nx - p" "(nx - p) OR (t AND MM_MASK_BIT) = nx - p"
    using xs S size_word_set(3) [OF S(5,4), of False False] by auto
  ultimately have run: "merge_prev x ?S nx (h\<lparr>mm_mem := m2\<rparr>) = (p, h\<lparr>mm_mem := m'\<rparr>)"
    using m3(1) m3p m2x xs by (simp add: merge_prev_def nd_preceding_def nd_size_def m'_def Let_def)
  have "y + 16 \<le> p + 4 \<or> p + 4 < y + 4" "y + 16 \<le> nx \<or> nx < y + 4" if "y \<in> addrs (us @ vs)" for y
    using out' [OF that] S v by auto
  then have f': "flist m' ?nl (us @ vs)" unfolding m'_def by (intro flist_write m3(2))
  have rest': "{e \<in> set (us @ vs). snd e \<noteq> 0} = frees ws \<union> frees zs"
  proof -
    have "p \<notin> fst ` set ws" "p \<notin> fst ` set zs" using hinv_distinct [OF h] by (auto simp: N xs)
    then have "(p, t) \<notin> frees ws \<union> frees zs" by (auto simp: frees_def image_iff)
    moreover have "{e \<in> set (us @ vs). snd e \<noteq> 0} = {e \<in> set L2. snd e \<noteq> 0} - {(p, t)}"
      unfolding wo(1) L2' by auto
    ultimately show ?thesis unfolding rest by (auto simp: xs)
  qed
  have frame: "m' y = mm_mem h y" if "y \<notin> links (addrs L)" "\<not> (p + 4 \<le> y \<and> y < nx + 8)" for y
  proof -
    have "y \<notin> links (addrs (us @ vs))" "y \<notin> links (addrs L2)"
      using that(1) links_mono [OF sub] links_mono [OF sub2] by blast+
    then show ?thesis using fr3 fr2 that(2) xs(2) S by (auto simp: m'_def)
  qed
  show ?thesis
  proof (intro exI conjI)
    show "m' (p + 4) = nx - p" "m' nx = nx - p" "m' (nx + 4) = enc v True True" using m3p S by (auto simp: m'_def)
    show "addrs (us @ vs) \<subseteq> addrs L" using sub sub2 by blast
    show "\<forall>y \<in> addrs (us @ vs). y + 16 \<le> p \<or> nx + v \<le> y" using out' by blast
    show "\<forall>y. y \<notin> links (addrs L) \<longrightarrow> \<not> (p + 4 \<le> y \<and> y < nx + 8) \<longrightarrow> m' y = mm_mem h y" using frame by blast
  qed (fact run f' rest')+
qed

lemma free_steps_prev:
  assumes h: "hinv h N L" and b: "block_at h N L x s True xs mid nx v zs"
  shows "\<exists>m' L'. free_steps x s (h\<lparr>mm_mem := (mm_mem h)(x + 4 := enc s False True)\<rparr>) = Some (h\<lparr>mm_mem := m'\<rparr>) \<and>
    hinv (h\<lparr>mm_mem := m'\<rparr>) (joined xs True x nx v zs) L' \<and>
    (\<forall>y. y \<notin> links (addrs L) \<longrightarrow> \<not> (fst (last xs) + 4 \<le> y \<and> y < nx + 8) \<longrightarrow> m' y = mm_mem h y)"
proof -
  note N = block_atD(1) [OF b] and g = block_atD(3,4) [OF b] and s = block_atD(5-7) [OF b]
    and nx = block_atD(10,11) [OF b]
  obtain ws p t where xs: "xs = ws @ [(p, t, False)]" "x = p + t" "mm_mem h x = t"
    and pe: "p \<notin> guards h" "p \<notin> ends h" and pN: "(p, t, False) \<in> set N"
    and ex: "\<exists>ex. outcome (ends h) (None, None) ws = (ex, None) \<and> (ex = None \<or> ex = Some p)"
    using block_prev [OF h b] by blast
  note pn = hinv_node [OF h pN]
  obtain m2 L2 where run: "merge_next x s (h\<lparr>mm_mem := (mm_mem h)(x + 4 := enc s False True)\<rparr>) = (nx, nx - x, h\<lparr>mm_mem := m2\<rparr>)"
    and f2: "flist m2 (mm_nodelist h) L2" "set L2 = set L - {(y, t). (y, t, False) \<in> set mid}"
      "m2 (x + 4) = enc (nx - x) False True" "m2 (nx + 4) = enc v True True"
      "\<forall>y. y \<notin> links (addrs L2) \<longrightarrow> \<not> (x + 4 \<le> y \<and> y < nx + 8) \<longrightarrow> m2 y = mm_mem h y"
    using merge_next_ok [OF h b] by auto
  obtain m4 L4 where pv: "merge_prev x (nx - x) nx (h\<lparr>mm_mem := m2\<rparr>) = (p, h\<lparr>mm_mem := m4\<rparr>)"
    and f4: "flist m4 (mm_nodelist h) L4" "{e \<in> set L4. snd e \<noteq> 0} = frees ws \<union> frees zs" "addrs L4 \<subseteq> addrs L"
      "\<forall>y \<in> addrs L4. y + 16 \<le> p \<or> nx + v \<le> y"
      "m4 (p + 4) = nx - p" "m4 nx = nx - p" "m4 (nx + 4) = enc v True True"
    and fr4: "\<forall>y. y \<notin> links (addrs L) \<longrightarrow> \<not> (p + 4 \<le> y \<and> y < nx + 8) \<longrightarrow> m4 y = mm_mem h y"
  proof -
    from merge_prev_ok [OF h b f2 xs] show thesis by (elim exE conjE) (rule that)
  qed
  have "\<exists>m' L'. mm_addfreechunk p (h\<lparr>mm_mem := m4\<rparr>) = Some (h\<lparr>mm_mem := m'\<rparr>) \<and>
    hinv (h\<lparr>mm_mem := m'\<rparr>) (ws @ ([] @ [(p, nx - p, False), (nx, v, True)]) @ zs) L' \<and>
    (\<forall>y. y \<notin> links (addrs L) \<longrightarrow> y < p + 8 \<or> nx \<le> y \<longrightarrow> m' y = m4 y)"
  proof (rule add_span [of h ws "(p, t, False) # (x, s, True) # mid @ [(nx, v, True)]" zs L p])
    show "hinv h (ws @ ((p, t, False) # (x, s, True) # mid @ [(nx, v, True)]) @ zs) L" using h N xs by simp
    show "tile p ((p, t, False) # (x, s, True) # mid @ [(nx, v, True)]) (nx + v)"
      using block_tile(1) [OF h b] pn xs by simp
  qed (use block_tile(2) [OF h b] ex f4 fr4 g pe pn s nx xs in \<open>auto\<close>)
  then obtain m' L' where "mm_addfreechunk p (h\<lparr>mm_mem := m4\<rparr>) = Some (h\<lparr>mm_mem := m'\<rparr>)"
    "hinv (h\<lparr>mm_mem := m'\<rparr>) (ws @ [(p, nx - p, False), (nx, v, True)] @ zs) L'"
    and f': "\<And>y. y \<notin> links (addrs L) \<Longrightarrow> y < p + 8 \<or> nx \<le> y \<Longrightarrow> m' y = m4 y" by auto
  moreover have "m' y = mm_mem h y" if "y \<notin> links (addrs L)" "\<not> (p + 4 \<le> y \<and> y < nx + 8)" for y
    using f' [of y] fr4 that by auto
  ultimately show ?thesis using run pv unfolding joined_def free_steps_def by (auto simp: xs)
qed

section \<open>Freeing a block\<close>

text \<open>The abstract operation: the chunk is marked free, and runs of free chunks become one.\<close>

fun coalesce :: "node list \<Rightarrow> node list" where
  "coalesce ((x, s, False) # (y, t, False) # ns) = coalesce ((x, s + t, False) # ns)"
| "coalesce (nd # ns) = nd # coalesce ns"
| "coalesce [] = []"

definition release :: "nat \<Rightarrow> node list \<Rightarrow> node list" where
  "release x N = coalesce (map (\<lambda>(y, t, al). (y, t, al \<and> y \<noteq> x)) N)"

lemma coalesce_alloc [simp]: "coalesce ((x, s, True) # ns) = (x, s, True) # coalesce ns"
  by (cases ns) auto

lemma coalesce_free [simp]: "coalesce ((x, s, False) # (y, t, True) # ns) = (x, s, False) # (y, t, True) # coalesce ns"
  by simp

lemma coalesce_append:
  "xs = [] \<or> snd (snd (last xs)) \<Longrightarrow> coalesce (xs @ ys) = coalesce xs @ coalesce ys"
  by (induction xs rule: coalesce.induct) (auto split: if_splits)

lemma seg_coalesce: "seg m En st ns \<Longrightarrow> coalesce ns = ns"
  by (induction ns arbitrary: st rule: coalesce.induct) (auto simp: fits_def after_def)

lemma joined_release:
  assumes h: "hinv h N L" and b: "block_at h N L x s pf xs mid nx v zs"
  shows "joined xs pf x nx v zs = release x N"
proof -
  note N = block_atD(1) [OF b] and ex = block_atD(14) [OF b]
  have sg: "seg (mm_mem h) (ends h) (None, None) N" using h by (simp add: hinv_def)
  then have "seg (mm_mem h) (ends h) (None, None) xs" "seg (mm_mem h) (ends h) (after (ends h) (nx, v, True)) zs"
    by (simp_all add: N seg_append)
  then have cs: "coalesce xs = xs" "coalesce zs = zs" by (simp_all only: seg_coalesce)
  have d: "distinct (map fst N)" by (rule hinv_distinct [OF h])
  have mark: "map (\<lambda>(y, t, al). (y, t, al \<and> y \<noteq> x)) N = xs @ (x, s, False) # mid @ (nx, v, True) # zs"
  proof -
    have "map (\<lambda>(y, t, al). (y, t, al \<and> y \<noteq> x)) ns = ns" if "x \<notin> fst ` set ns" for ns :: "node list"
      using that by (induction ns) auto
    then show ?thesis using d by (auto simp: N)
  qed
  have tail: "coalesce ((y, u, False) # mid @ (nx, v, True) # zs) = (y, u + (nx - (x + s)), False) # (nx, v, True) # zs" for y u
    using block_atD(2) [OF b] cs by auto
  have le: "x + s \<le> nx" by (rule block_atD(10) [OF b])
  show ?thesis
  proof (cases pf)
    case False
    then have "xs = [] \<or> snd (snd (last xs))" using ex by (cases xs rule: rev_cases) (auto simp: after_def split: if_splits)
    then show ?thesis
      using coalesce_append [of xs "(x, s, False) # mid @ (nx, v, True) # zs"] tail [of x s] cs le False
      by (simp add: release_def mark joined_def)
  next
    case True
    obtain ws p t where xs: "xs = ws @ [(p, t, False)]" "x = p + t"
      using block_prev [OF h] b True by (metis (full_types))
    have "fits (mm_mem h) (outcome (ends h) (None, None) ws) (p, t, False)" using sg by (simp add: N xs seg_append)
    then have "ws = [] \<or> snd (snd (last ws))"
      by (cases ws rule: rev_cases) (auto simp: fits_def after_def split: if_splits)
    moreover have "coalesce ws = ws" using seg_coalesce sg by (auto simp: N xs seg_append)
    ultimately show ?thesis
      using coalesce_append [of ws "(p, t, False) # (x, s, False) # mid @ (nx, v, True) # zs"] tail [of p "t + s"] le True
      unfolding release_def mark by (simp add: joined_def xs)
  qed
qed

text \<open>The span of chunks that an operation replaces does not reach into a block outside of it.\<close>

lemma payload_off_tile:
  assumes h: "hinv h N L" and t: "tile lo old nx" "lo < nx" "set old \<subseteq> set N"
    and c: "(c, u, True) \<in> set N" "(c, u, True) \<notin> set old" and y: "y \<in> area c u"
  shows "\<not> (lo + 4 \<le> y \<and> y < nx + 8)"
proof -
  have "sep (c, u, True) d" if "d \<in> set old" for d
  proof -
    obtain a b al where d: "d = (a, b, al)" by (cases d)
    have "(a, b, al) \<in> set N" using that t(3) d by auto
    from hinv_sep [OF h c(1) this] that c(2) d show ?thesis by (auto simp: sep_def)
  qed
  moreover have "0 < u" using hinv_node(7) [OF h c(1)] by simp
  ultimately have "c + u \<le> lo \<or> nx \<le> c" using tile_span [OF t(1)] t(2) by blast
  then show ?thesis using y by (auto simp: area_def)
qed

lemma free_steps_ok:
  assumes h: "hinv h N L" and x: "(x, s, True) \<in> set N" "x \<notin> guards h" and m: "mm_mem h (x + 4) = w"
  shows "\<exists>m' L'. free_steps x s (h\<lparr>mm_mem := (mm_mem h)(x + 4 := clear_bits w MM_ALLOC_BIT)\<rparr>) = Some (h\<lparr>mm_mem := m'\<rparr>) \<and>
    hinv (h\<lparr>mm_mem := m'\<rparr>) (release x N) L' \<and> intact (filter (\<lambda>nd. fst nd \<noteq> x) N) h (h\<lparr>mm_mem := m'\<rparr>)"
proof -
  obtain pf xs mid nx v zs where b: "block_at h N L x s pf xs mid nx v zs" using block_chunk [OF h x] by blast
  note N = block_atD(1) [OF b]
  have "4 dvd s" using hinv_node(8) [OF h x(1)] .
  then have w: "clear_bits w MM_ALLOC_BIT = enc s False pf" using block_atD(12) [OF b] m clear_enc(2) by simp
  define lo where "lo = (if pf then fst (last xs) else x)"
  have "\<exists>m' L'. free_steps x s (h\<lparr>mm_mem := (mm_mem h)(x + 4 := enc s False pf)\<rparr>) = Some (h\<lparr>mm_mem := m'\<rparr>) \<and>
    hinv (h\<lparr>mm_mem := m'\<rparr>) (joined xs pf x nx v zs) L' \<and>
    (\<forall>y. y \<notin> links (addrs L) \<longrightarrow> \<not> (lo + 4 \<le> y \<and> y < nx + 8) \<longrightarrow> m' y = mm_mem h y)"
  proof (cases pf)
    case True
    show ?thesis using free_steps_prev [OF h] b unfolding lo_def by (simp only: True if_True)
  next
    case False
    show ?thesis using free_steps_alone [OF h] b unfolding lo_def by (simp only: False if_False)
  qed
  then obtain m' L' where run: "free_steps x s (h\<lparr>mm_mem := (mm_mem h)(x + 4 := enc s False pf)\<rparr>) = Some (h\<lparr>mm_mem := m'\<rparr>)"
    and hi: "hinv (h\<lparr>mm_mem := m'\<rparr>) (release x N) L'"
    and fr: "\<forall>y. y \<notin> links (addrs L) \<longrightarrow> \<not> (lo + 4 \<le> y \<and> y < nx + 8) \<longrightarrow> m' y = mm_mem h y"
    unfolding joined_release [OF h b] by blast
  have "mm_mem h y = m' y" if "(c, u, True) \<in> set N" "c \<notin> guards h" "c \<noteq> x" "y \<in> area c u" for c u y
  proof -
    have "\<not> (lo + 4 \<le> y \<and> y < nx + 8)"
    proof (rule payload_off_tile [OF h _ _ _ that(1) _ that(4)])
      let ?old = "(if pf then [last xs] else []) @ (x, s, True) # mid"
      have mid: "set mid \<subseteq> set N" "(c, u, True) \<notin> set mid" "x < nx"
        using block_mid(3) [OF h b] block_atD(5,10) [OF b] by (auto simp: N)
      show "tile lo ?old nx" "lo < nx" "set ?old \<subseteq> set N" "(c, u, True) \<notin> set ?old"
        using block_last [OF h b] block_tile(3) [OF h b] mid x(1) \<open>c \<noteq> x\<close> by (auto simp: lo_def)
    qed
    then show ?thesis using fr payload_off_links [OF h that(1,2)] that(4) by auto
  qed
  then have "intact (filter (\<lambda>nd. fst nd \<noteq> x) N) h (h\<lparr>mm_mem := m'\<rparr>)" by (auto simp: intact_def)
  with run hi w show ?thesis by auto
qed

end
