(* ===== verification/Mm_Alloc.thy ===== *)
theory Mm_Alloc
  imports Mm_Free
begin

text \<open>
  The allocator as its callers see it: \<open>mm_free\<close>, the deferred frees and \<open>mm_malloc\<close>.
\<close>

section \<open>Freeing at once\<close>

lemma delayfree_steps:
  assumes "mm_lock E h = (OK, h1)" and "s = MM_SIZEOF_NODE h1 (mem - 8)"
  shows "mm_delayfree E mem False h =
    free_steps (mem - 8) s (h1\<lparr>mm_mem := (mm_mem h1)(mem - 8 + 4 := clear_bits (nd_size h1 (mem - 8)) MM_ALLOC_BIT),
      mm_curused := mm_curused h1 - of_nat s\<rparr>) \<bind> (\<lambda>h. Some (mm_unlock E h))"
  using assms by (simp add: mm_delayfree_def free_steps_def Let_def split: prod.splits)

lemma delayfree_ready:
  assumes h: "hinv h N L" and r: "mm_ready E h" and x: "(x, s, True) \<in> set N" "x \<notin> guards h"
  shows "\<exists>m' L'. mm_delayfree E (x + 8) False h = Some (h\<lparr>mm_curused := mm_curused h - of_nat s, mm_mem := m'\<rparr>) \<and>
    hinv (h\<lparr>mm_curused := mm_curused h - of_nat s, mm_mem := m'\<rparr>) (release x N) L' \<and>
    intact (filter (\<lambda>nd. fst nd \<noteq> x) N) h (h\<lparr>mm_curused := mm_curused h - of_nat s, mm_mem := m'\<rparr>)"
proof -
  obtain k where k: "mm_lock E h = (OK, h\<lparr>mm_kern := k\<rparr>)"
    "\<And>h'. mm_kern h' = k \<Longrightarrow> mm_mutex h' = mm_mutex h \<Longrightarrow> mm_unlock E h' = h'\<lparr>mm_kern := mm_kern h\<rparr>"
    using mm_lock_ready [OF r] by blast
  define h1 where "h1 = h\<lparr>mm_kern := k, mm_curused := mm_curused h - of_nat s\<rparr>"
  have hi: "hinv h1 N L" "guards h1 = guards h" "mm_mem h1 = mm_mem h" using h by (simp_all add: h1_def bounds_def)
  obtain xs ys where N: "N = xs @ (x, s, True) # ys" using x(1) by (meson split_list)
  have sz: "MM_SIZEOF_NODE (h\<lparr>mm_kern := k\<rparr>) x = s"
    using hinv_size_word(2) [of "h\<lparr>mm_kern := k\<rparr>" xs x s True ys L] h N by simp
  obtain m' L' where m': "free_steps x s (h1\<lparr>mm_mem := (mm_mem h1)(x + 4 := clear_bits (mm_mem h (x + 4)) MM_ALLOC_BIT)\<rparr>) = Some (h1\<lparr>mm_mem := m'\<rparr>)"
    "hinv (h1\<lparr>mm_mem := m'\<rparr>) (release x N) L'" "intact (filter (\<lambda>nd. fst nd \<noteq> x) N) h1 (h1\<lparr>mm_mem := m'\<rparr>)"
    using free_steps_ok [OF hi(1) x(1)] x(2) hi by auto
  let ?h' = "h\<lparr>mm_curused := mm_curused h - of_nat s, mm_mem := m'\<rparr>"
  have "mm_unlock E (h1\<lparr>mm_mem := m'\<rparr>) = ?h'" using k(2) [of "h1\<lparr>mm_mem := m'\<rparr>"] by (simp add: h1_def)
  moreover have "h\<lparr>mm_kern := k, mm_mem := m, mm_curused := mm_curused h - of_nat s\<rparr> = h1\<lparr>mm_mem := m\<rparr>" for m
    by (simp add: h1_def)
  then have "mm_delayfree E (x + 8) False h =
    free_steps x s (h1\<lparr>mm_mem := (mm_mem h1)(x + 4 := clear_bits (mm_mem h (x + 4)) MM_ALLOC_BIT)\<rparr>) \<bind> (\<lambda>h. Some (mm_unlock E h))"
    using delayfree_steps [OF k(1), of s "x + 8"] sz hi(3) by (simp add: nd_size_def)
  ultimately have "mm_delayfree E (x + 8) False h = Some ?h'" using m'(1) by simp
  moreover have "hinv ?h' (release x N) L'" using m'(2) by (simp add: h1_def hinv_def node_ok_def ends_def bounds_def)
  moreover have "intact (filter (\<lambda>nd. fst nd \<noteq> x) N) h ?h'" using m'(3) hi by (simp add: intact_def h1_def)
  ultimately show ?thesis by blast
qed

section \<open>What is left of the blocks\<close>

lemma coalesce_blocks: "(c, u, True) \<in> set (coalesce ns) \<longleftrightarrow> (c, u, True) \<in> set ns"
  by (induction ns rule: coalesce.induct) auto

lemma release_blocks: "(c, u, True) \<in> set (release x N) \<longleftrightarrow> (c, u, True) \<in> set N \<and> c \<noteq> x"
  by (force simp: release_def coalesce_blocks)

lemma take_abs_blocks:
  assumes "distinct (map fst N)" "(x, s, al) \<in> set N"
  shows "(c, u, True) \<in> set (take_abs x n N) \<longleftrightarrow> (c, u, True) \<in> set N \<and> c \<noteq> x \<or> (c, u) = (x, take_size n s)"
  using assms
proof (induction N)
  case (Cons nd N)
  obtain y t bl where nd: "nd = (y, t, bl)" by (cases nd)
  show ?case
  proof (cases "y = x")
    case True
    then have "x \<notin> fst ` set N" "t = s" using Cons.prems nd by (auto simp: image_iff)
    moreover have "c \<noteq> x" if "(c, u, True) \<in> set N" using that \<open>x \<notin> fst ` set N\<close> by force
    ultimately show ?thesis using True nd by (auto simp: split_node_def)
  next
    case False
    then show ?thesis using Cons nd by auto
  qed
qed simp

section \<open>Deferred frees\<close>

text \<open>The deferred blocks: their chunks, linked through the first word of each.\<close>

fun dlist :: "(nat \<Rightarrow> nat) \<Rightarrow> nat \<Rightarrow> nat list \<Rightarrow> bool" where
  "dlist m d [] \<longleftrightarrow> d = 0"
| "dlist m d (c # cs) \<longleftrightarrow> d = c + 8 \<and> dlist m (m (c + 8)) cs"

definition deferred :: "mm_heap_s \<Rightarrow> node list \<Rightarrow> nat list \<Rightarrow> bool" where
  "deferred h N cs \<longleftrightarrow> dlist (mm_mem h) (mm_delaylist h) cs \<and> distinct cs \<and>
     (\<forall>c \<in> set cs. c \<notin> guards h \<and> (\<exists>u. (c, u, True) \<in> set N))"

lemma dlist_cong: "(\<And>c. c \<in> set cs \<Longrightarrow> m' (c + 8) = m (c + 8)) \<Longrightarrow> dlist m' d cs = dlist m d cs"
  by (induction cs arbitrary: d) auto

lemma first_word: "(c, u, True) \<in> set N \<Longrightarrow> hinv h N L \<Longrightarrow> c \<notin> guards h \<Longrightarrow> c + 8 \<in> area c u"
  using hinv_node(6) [of h N L c u True] by (auto simp: area_def)

lemma intact_mono: "set N' \<subseteq> set N \<Longrightarrow> intact N h h' \<Longrightarrow> intact N' h h'"
  by (auto simp: intact_def)

lemma intact_trans:
  assumes "intact N h h'" "intact N h' h''" "guards h' = guards h"
  shows "intact N h h''"
  using assms by (simp add: intact_def)

lemma delayed_frees_ok:
  assumes "hinv h N L" "mm_ready E h" "dlist (mm_mem h) d cs" "distinct cs"
    "\<forall>c \<in> set cs. c \<notin> guards h \<and> (\<exists>u. (c, u, True) \<in> set N)"
  shows "\<exists>m' u L'. delayed_frees E d h = Some (h\<lparr>mm_curused := u, mm_mem := m'\<rparr>) \<and>
    hinv (h\<lparr>mm_curused := u, mm_mem := m'\<rparr>) (fold release cs N) L' \<and>
    intact (filter (\<lambda>nd. fst nd \<notin> set cs) N) h (h\<lparr>mm_curused := u, mm_mem := m'\<rparr>)"
  using assms
proof (induction cs arbitrary: h N L d)
  case Nil
  have "h\<lparr>mm_curused := mm_curused h, mm_mem := mm_mem h\<rparr> = h" by simp
  then show ?case using Nil by (subst delayed_frees.simps) (auto simp: intact_def intro!: exI [of _ "mm_mem h"] exI [of _ "mm_curused h"])
next
  case (Cons c cs)
  obtain s where c: "c \<notin> guards h" "(c, s, True) \<in> set N" using Cons.prems(5) by auto
  obtain m1 L1 where m1: "mm_delayfree E (c + 8) False h = Some (h\<lparr>mm_curused := mm_curused h - of_nat s, mm_mem := m1\<rparr>)"
    and h1: "hinv (h\<lparr>mm_curused := mm_curused h - of_nat s, mm_mem := m1\<rparr>) (release c N) L1"
    and i1: "intact (filter (\<lambda>nd. fst nd \<noteq> c) N) h (h\<lparr>mm_curused := mm_curused h - of_nat s, mm_mem := m1\<rparr>)"
    using delayfree_ready [OF Cons.prems(1,2) c(2,1)] by blast
  let ?h1 = "h\<lparr>mm_curused := mm_curused h - of_nat s, mm_mem := m1\<rparr>"
  have g: "guards ?h1 = guards h" by (simp add: bounds_def)
  have "m1 (b + 8) = mm_mem h (b + 8)" if bc: "b \<in> set cs" for b
  proof -
    obtain u where b: "b \<notin> guards h" "(b, u, True) \<in> set N" "b \<noteq> c" using Cons.prems(4,5) bc by auto
    then show ?thesis using i1 first_word [OF b(2) Cons.prems(1) b(1)] by (auto simp: intact_def)
  qed
  then have "dlist (mm_mem ?h1) (mm_mem h (c + 8)) cs"
    using Cons.prems(3) dlist_cong [of cs m1 "mm_mem h"] by simp
  moreover have "mm_ready E ?h1" using Cons.prems(2) by (simp add: mm_ready_def)
  moreover have "\<forall>b \<in> set cs. b \<notin> guards ?h1 \<and> (\<exists>u. (b, u, True) \<in> set (release c N))"
    using Cons.prems(4,5) unfolding g by (auto simp: release_blocks)
  ultimately obtain m' u L' where m': "delayed_frees E (mm_mem h (c + 8)) ?h1 = Some (?h1\<lparr>mm_curused := u, mm_mem := m'\<rparr>)"
    and h': "hinv (?h1\<lparr>mm_curused := u, mm_mem := m'\<rparr>) (fold release cs (release c N)) L'"
    and i': "intact (filter (\<lambda>nd. fst nd \<notin> set cs) (release c N)) ?h1 (?h1\<lparr>mm_curused := u, mm_mem := m'\<rparr>)"
    using Cons.IH [OF h1] Cons.prems(4) by fastforce
  have "delayed_frees E d h = Some (h\<lparr>mm_curused := u, mm_mem := m'\<rparr>)"
    using Cons.prems(3) m1 m' by (subst delayed_frees.simps) simp
  moreover have "intact (filter (\<lambda>nd. fst nd \<notin> set (c # cs)) N) h (h\<lparr>mm_curused := u, mm_mem := m'\<rparr>)"
    using i1 i' g by (auto simp: intact_def release_blocks)
  ultimately show ?case using h' by auto
qed

lemma free_delaylist_ok:
  assumes h: "hinv h N L" "mm_ready E h" "deferred h N cs"
  shows "\<exists>m' u L'. free_delaylist E h = Some (cs \<noteq> [], h\<lparr>mm_delaylist := 0, mm_curused := u, mm_mem := m'\<rparr>) \<and>
    hinv (h\<lparr>mm_delaylist := 0, mm_curused := u, mm_mem := m'\<rparr>) (fold release cs N) L' \<and>
    intact (filter (\<lambda>nd. fst nd \<notin> set cs) N) h (h\<lparr>mm_delaylist := 0, mm_curused := u, mm_mem := m'\<rparr>)"
proof -
  let ?h = "h\<lparr>mm_delaylist := 0\<rparr>"
  have "hinv ?h N L" "mm_ready E ?h" "guards ?h = guards h" using h by (simp_all add: mm_ready_def bounds_def)
  moreover have d: "dlist (mm_mem ?h) (mm_delaylist h) cs" "distinct cs"
    "\<forall>c \<in> set cs. c \<notin> guards ?h \<and> (\<exists>u. (c, u, True) \<in> set N)"
    using h(3) calculation(3) by (auto simp: deferred_def)
  moreover have "mm_delaylist h \<noteq> 0 \<longleftrightarrow> cs \<noteq> []" using d(1) by (cases cs) auto
  moreover obtain m' u L' where
    "delayed_frees E (mm_delaylist h) ?h = Some (?h\<lparr>mm_curused := u, mm_mem := m'\<rparr>)"
    "hinv (?h\<lparr>mm_curused := u, mm_mem := m'\<rparr>) (fold release cs N) L'"
    "intact (filter (\<lambda>nd. fst nd \<notin> set cs) N) ?h (?h\<lparr>mm_curused := u, mm_mem := m'\<rparr>)"
    using delayed_frees_ok [OF calculation(1,2) d] by blast
  ultimately show ?thesis
    by (intro exI [of _ m'] exI [of _ u] exI [of _ L']) (simp add: free_delaylist_def Let_def intact_def)
qed

text \<open>An allocation first completes the deferred frees.\<close>

lemma malloc_deferred:
  assumes h: "hinv h N L" "mm_ready E h" "deferred h N cs"
  shows "\<exists>h1 res. mm_free_delaylist E h = Some h1 \<and> mm_malloc E req h = Some res \<and>
    (if unsatisfiable req (fold release cs N) then res = (0, h1)
     else allocates (need req) (fold release cs N) h1 res) \<and>
    (\<exists>L1. hinv h1 (fold release cs N) L1) \<and> intact (filter (\<lambda>nd. fst nd \<notin> set cs) N) h h1 \<and>
    mm_mutex h1 = mm_mutex h \<and> mm_kern h1 = mm_kern h \<and> mm_delaylist h1 = 0 \<and> guards h1 = guards h"
proof -
  obtain m' u L' where f: "free_delaylist E h = Some (cs \<noteq> [], h\<lparr>mm_delaylist := 0, mm_curused := u, mm_mem := m'\<rparr>)"
    and h1: "hinv (h\<lparr>mm_delaylist := 0, mm_curused := u, mm_mem := m'\<rparr>) (fold release cs N) L'"
    and i: "intact (filter (\<lambda>nd. fst nd \<notin> set cs) N) h (h\<lparr>mm_delaylist := 0, mm_curused := u, mm_mem := m'\<rparr>)"
    using free_delaylist_ok [OF h] by blast
  let ?h1 = "h\<lparr>mm_delaylist := 0, mm_curused := u, mm_mem := m'\<rparr>"
  have r: "mm_ready E ?h1" using h(2) by (simp add: mm_ready_def)
  have "free_delaylist E ?h1 = Some (False, ?h1)" by (simp add: free_delaylist_def delayed_frees.simps)
  then have "mm_malloc E req h = mm_malloc E req ?h1" using f by (simp add: mm_malloc_def)
  moreover obtain res where "mm_malloc E req ?h1 = Some res"
    "if unsatisfiable req (fold release cs N) then res = (0, ?h1) else allocates (need req) (fold release cs N) ?h1 res"
    using malloc_ready [OF h1 r, of req] by auto
  ultimately show ?thesis
    using f h1 i r by (intro exI [of _ ?h1] exI [of _ res]) (auto simp: mm_free_delaylist_def bounds_def)
qed

section \<open>Writing into a block\<close>

lemma hinv_write:
  assumes h: "hinv h N L" and x: "(x, s, True) \<in> set N" "x \<notin> guards h" and a: "a \<in> area x s"
  shows "hinv (put a v h) N L"
proof -
  have xa: "x + 8 \<le> a" "a < x + s + 4" using a by (auto simp: area_def)
  obtain xs ys where N: "N = xs @ (x, s, True) # ys" using x(1) by (meson split_list)
  have "x \<notin> ends h" using hinv_ends [OF h] x(2) by blast
  with h obtain t bl zs where ys: "ys = (x + s, t, bl) # zs" and w: "mm_mem h (x + s + 4) = enc t bl False"
    unfolding N by (rule hinv_next) auto
  have nt: "(x + s, t, bl) \<in> set N" by (simp add: N ys)
  have "mm_mem h (x + s + 4) AND 2 = 0" using w enc_bits(2) [OF hinv_node(8) [OF h nt]] by simp
  moreover have "a \<noteq> y + 4 \<and> (a = y \<longrightarrow> y = x + s)" if "(y, u, al) \<in> set N" for y u al
    using hinv_sep [OF h that x(1)] hinv_sep [OF h that nt] hinv_node(7) [OF h that] hinv_node(7) [OF h nt] xa by auto
  ultimately have "seg ((mm_mem h)(a := v)) (ends h) (None, None) N = seg (mm_mem h) (ends h) (None, None) N"
    using hinv_node(8) [OF h] by (intro seg_cong) auto
  moreover have "y + 4 \<noteq> a \<and> y + 8 \<noteq> a \<and> y + 12 \<noteq> a" if "y \<in> addrs L" for y
    using entry_apart [OF h that x(1)] entry_apart [OF h that nt] xa by auto
  then have "flist ((mm_mem h)(a := v)) (mm_nodelist h) L" by (intro flist_cong [OF hinv_flist [OF h]]) simp
  ultimately show ?thesis using h by (simp add: hinv_def put_def ends_def bounds_def node_ok_def)
qed

lemma payload_disjoint:
  assumes h: "hinv h N L" and x: "(x, s, True) \<in> set N" and y: "(y, t, True) \<in> set N" "x \<noteq> y"
  shows "area x s \<inter> area y t = {}"
  using hinv_sep [OF h x y(1)] y(2) by (auto simp: area_def)

section \<open>Freeing when the heap cannot be locked\<close>

text \<open>
  In an interrupt handler while the mutex is held, or while no task runs, \<^verbatim>\<open>mm_lock\<close> fails.
\<close>

definition mm_busy :: "mm_env \<Rightarrow> mm_heap_s \<Rightarrow> bool" where
  "mm_busy E h \<longleftrightarrow>
     (if in_irq E then nxmutex_is_locked (mm_mutex h) (mm_kern h)
      else task_state (tcbs (mm_kern h) (this_task (mm_kern h))) \<noteq> TSTATE_TASK_RUNNING)"

lemma delayfree_busy:
  assumes "mm_busy E h"
  shows "mm_delayfree E mem False h = Some (add_delaylist mem h)"
  using assms by (auto simp: mm_busy_def mm_delayfree_def mm_lock_def nxsched_gettid_def split: if_splits)

lemma add_delaylist_deferred:
  assumes h: "hinv h N L" and d: "deferred h N cs" and x: "(x, s, True) \<in> set N" "x \<notin> guards h" "x \<notin> set cs"
  shows "hinv (add_delaylist (x + 8) h) N L" "deferred (add_delaylist (x + 8) h) N (x # cs)"
    "intact (filter (\<lambda>nd. fst nd \<noteq> x) N) h (add_delaylist (x + 8) h)"
proof -
  have xp: "x + 8 \<in> area x s" using first_word [OF x(1) h x(2)] .
  from hinv_write [OF h x(1,2) this] show "hinv (add_delaylist (x + 8) h) N L" by (simp add: add_delaylist_def)
  have "dlist ((mm_mem h)(x + 8 := mm_delaylist h)) (mm_delaylist h) cs = dlist (mm_mem h) (mm_delaylist h) cs"
    by (rule dlist_cong) (use x(3) in auto)
  then show "deferred (add_delaylist (x + 8) h) N (x # cs)"
    using d x by (auto simp: deferred_def add_delaylist_def put_def bounds_def)
  show "intact (filter (\<lambda>nd. fst nd \<noteq> x) N) h (add_delaylist (x + 8) h)"
    using payload_disjoint [OF h x(1)] xp by (fastforce simp: intact_def add_delaylist_def put_def)
qed

section \<open>Allocating and freeing again\<close>

lemma coalesce_split:
  assumes "xs = [] \<or> snd (snd (last xs))"
  shows "coalesce (xs @ (x, s, False) # (y, t, False) # ys) = coalesce (xs @ (x, s + t, False) # ys)"
  using coalesce_append [OF assms] by simp

lemma release_take:
  assumes h: "hinv h N L" and x: "(x, s, False) \<in> set N" and n: "n \<le> s"
  shows "release x (take_abs x n N) = N"
proof -
  obtain xs ys where N: "N = xs @ (x, s, False) # ys" using x by (meson split_list)
  have d: "x \<notin> fst ` set xs" "x \<notin> fst ` set ys" using hinv_distinct [OF h] by (auto simp: N)
  have sg: "seg (mm_mem h) (ends h) (None, None) N" using h by (simp add: hinv_def)
  have l: "xs = [] \<or> snd (snd (last xs))"
    using hinv_free_word(1) [of h xs x s ys L] h by (auto simp: N outcome_def after_def split: prod.splits if_splits)
  have m: "map (\<lambda>(y, t, al). (y, t, al \<and> y \<noteq> x)) zs = zs" if "x \<notin> fst ` set zs" for zs
    using that by (intro map_idI) force
  have "release x (take_abs x n N) = coalesce (xs @ (x, s, False) # ys)"
  proof (cases "16 \<le> s - n")
    case True
    then show ?thesis using coalesce_split [OF l, of x n "x + n" "s - n" ys] n d
      by (simp add: N take_abs_split split_node_def take_size_def release_def m)
  next
    case False
    then show ?thesis using d by (simp add: N take_abs_split split_node_def take_size_def release_def m)
  qed
  also have "\<dots> = N" using seg_coalesce [OF sg] by (simp add: N)
  finally show ?thesis .
qed

end
