(* ===== verification/Block_Store.thy ===== *)
theory Block_Store
  imports NxPrelude
begin

text \<open>
  The contract of a dynamic memory manager, as its callers rely on it: a store of blocks that do not
  overlap, each a list of words, from which blocks are taken and to which they are returned.  A sequence
  of calls and writes is run beside an ideal memory that remembers, for each block, how many words were
  asked for and what was last written to each; inside the contract the two never disagree.
\<close>

section \<open>The operations\<close>

text \<open>The calls of a manager, the write of a word, and the callers that may allocate and free.\<close>

record ('e, 'h) store_ops =
  op_alloc :: "'e \<Rightarrow> u32 \<Rightarrow> 'h \<Rightarrow> (nat \<times> 'h) option"
  op_dealloc :: "'e \<Rightarrow> nat \<Rightarrow> 'h \<Rightarrow> 'h option"
  op_write :: "nat \<Rightarrow> nat \<Rightarrow> 'h \<Rightarrow> 'h"
  op_read :: "'h \<Rightarrow> nat \<Rightarrow> nat"
  op_can_alloc :: "'e \<Rightarrow> bool"
  op_can_dealloc :: "'e \<Rightarrow> bool"

section \<open>Sequences of calls\<close>

datatype 'e heap_call = Alloc 'e u32 | Dealloc 'e nat | Write nat nat nat

text \<open>For each live block: the words asked for, and the ones written so far.\<close>

type_synonym ideal = "nat \<rightharpoonup> nat \<times> (nat \<rightharpoonup> nat)"

text \<open>
  A run ends with the heap and the ideal memory, because of a call that its caller may not make, because
  a call of the manager does not return, or because a new block is one that is still in use.
\<close>

datatype 'h verdict = Fine 'h ideal | Misuse | Stuck | Clash

text \<open>A call may be made by a caller for which the manager can be entered, with a block it owns.\<close>

fun play :: "('e, 'h) store_ops \<Rightarrow> 'e heap_call list \<Rightarrow> 'h \<Rightarrow> ideal \<Rightarrow> 'h verdict" where
  "play H [] h I = Fine h I"
| "play H (Alloc e n # cs) h I =
     (if \<not> op_can_alloc H e then Misuse
      else case op_alloc H e n h of
        None \<Rightarrow> Stuck
      | Some (p, h') \<Rightarrow>
          if p = 0 then play H cs h' I
          else if I p \<noteq> None then Clash
          else play H cs h' (I(p \<mapsto> (unat n div 4, Map.empty))))"
| "play H (Dealloc e p # cs) h I =
     (if \<not> op_can_dealloc H e \<or> I p = None then Misuse
      else case op_dealloc H e p h of None \<Rightarrow> Stuck | Some h' \<Rightarrow> play H cs h' (I(p := None)))"
| "play H (Write p i v # cs) h I =
     (case I p of
        None \<Rightarrow> Misuse
      | Some (n, f) \<Rightarrow> if n \<le> i then Misuse else play H cs (op_write H (p + 4 * i) v h) (I(p \<mapsto> (n, f(i \<mapsto> v)))))"

text \<open>The ideal memory agrees with the store: every live block is there, large enough, with what was written.\<close>

definition agrees :: "(nat \<rightharpoonup> nat list) \<Rightarrow> ideal \<Rightarrow> bool" where
  "agrees A I \<longleftrightarrow> (\<forall>p n f. I p = Some (n, f) \<longrightarrow>
     (\<exists>ws. A p = Some ws \<and> n \<le> length ws \<and> (\<forall>i < n. \<forall>v. f i = Some v \<longrightarrow> ws ! i = v)))"

section \<open>The contract\<close>

locale block_store =
  fixes holds :: "'h \<Rightarrow> (nat \<rightharpoonup> nat list) \<Rightarrow> bool"
    and H :: "('e, 'h) store_ops"
  assumes alloc_law: "holds h A \<Longrightarrow> op_can_alloc H e \<Longrightarrow>
      \<exists>p h'. op_alloc H e n h = Some (p, h') \<and>
        (if p = 0 then holds h' A
         else A p = None \<and> (\<exists>ws. unat n \<le> 4 * length ws \<and> holds h' (A(p \<mapsto> ws))))"
    and dealloc_law: "holds h A \<Longrightarrow> op_can_dealloc H e \<Longrightarrow> A p = Some ws \<Longrightarrow>
      \<exists>h'. op_dealloc H e p h = Some h' \<and> holds h' (A(p := None))"
    and write_law: "holds h A \<Longrightarrow> A p = Some ws \<Longrightarrow> i < length ws \<Longrightarrow>
      holds (op_write H (p + 4 * i) v h) (A(p \<mapsto> ws[i := v]))"
    and read_law: "holds h A \<Longrightarrow> A p = Some ws \<Longrightarrow> i < length ws \<Longrightarrow> op_read H h (p + 4 * i) = ws ! i"
begin

lemma agrees_alloc:
  assumes "agrees A I" "A p = None" "m \<le> length ws"
  shows "I p = None" "agrees (A(p \<mapsto> ws)) (I(p \<mapsto> (m, Map.empty)))"
proof -
  show "I p = None" using assms(1,2) by (cases "I p") (fastforce simp: agrees_def)+
  show "agrees (A(p \<mapsto> ws)) (I(p \<mapsto> (m, Map.empty)))" using assms(1,3) by (simp add: agrees_def)
qed

lemma agrees_write:
  assumes "agrees A I" "I p = Some (n, f)" "A p = Some ws"
  shows "agrees (A(p \<mapsto> ws[i := v])) (I(p \<mapsto> (n, f(i \<mapsto> v))))"
proof -
  have "n \<le> length ws" "\<forall>j < n. \<forall>v. f j = Some v \<longrightarrow> ws ! j = v" using assms by (force simp: agrees_def)+
  then have "\<forall>j < n. \<forall>w. (f(i \<mapsto> v)) j = Some w \<longrightarrow> ws[i := v] ! j = w" "n \<le> length (ws[i := v])"
    by (auto simp: nth_list_update)
  then show ?thesis using assms(1) by (simp add: agrees_def)
qed

lemma play_ok:
  "holds h A \<Longrightarrow> agrees A I \<Longrightarrow>
   play H cs h I = Misuse \<or> (\<exists>h' I' A'. play H cs h I = Fine h' I' \<and> holds h' A' \<and> agrees A' I')"
proof (induction cs arbitrary: h I A)
  case Nil
  then show ?case by auto
next
  case (Cons c cs)
  note prems = Cons.prems
  show ?case
  proof (cases c)
    case c: (Alloc e n)
    show ?thesis
    proof (cases "op_can_alloc H e")
      case True
      obtain p h' where p: "op_alloc H e n h = Some (p, h')"
        "if p = 0 then holds h' A else A p = None \<and> (\<exists>ws. unat n \<le> 4 * length ws \<and> holds h' (A(p \<mapsto> ws)))"
        using alloc_law [OF prems(1) True] by blast
      show ?thesis
      proof (cases "p = 0")
        case z: True
        then show ?thesis using Cons.IH [of h' A I] p prems(2) True c by auto
      next
        case False
        then obtain ws where ws: "A p = None" "unat n \<le> 4 * length ws" "holds h' (A(p \<mapsto> ws))" using p(2) by auto
        have "unat n div 4 \<le> length ws" using ws(2) by auto
        note a = agrees_alloc [OF prems(2) ws(1) this]
        show ?thesis using Cons.IH [OF ws(3) a(2)] p(1) False True a(1) c by (simp del: fun_upd_apply)
      qed
    qed (simp add: c)
  next
    case c: (Dealloc e p)
    show ?thesis
    proof (cases "op_can_dealloc H e \<and> I p \<noteq> None")
      case True
      then obtain ws where ws: "A p = Some ws" using prems(2) by (fastforce simp: agrees_def)
      obtain h' where h': "op_dealloc H e p h = Some h'" "holds h' (A(p := None))"
        using dealloc_law [OF prems(1) _ ws] True by blast
      have "agrees (A(p := None)) (I(p := None))" using prems(2) by (simp add: agrees_def)
      from Cons.IH [OF h'(2) this] show ?thesis using h'(1) True c by (auto simp del: fun_upd_apply)
    qed (auto simp: c)
  next
    case c: (Write p i v)
    show ?thesis
    proof (cases "\<exists>n f. I p = Some (n, f) \<and> i < n")
      case True
      then obtain n f where nf: "I p = Some (n, f)" "i < n" by auto
      obtain ws where ws: "A p = Some ws" "n \<le> length ws" using prems(2) nf(1) by (force simp: agrees_def)
      then have "holds (op_write H (p + 4 * i) v h) (A(p \<mapsto> ws[i := v]))" using write_law [OF prems(1)] nf(2) by simp
      from Cons.IH [OF this agrees_write [OF prems(2) nf(1) ws(1)]]
      show ?thesis using nf c by (simp del: fun_upd_apply)
    qed (auto simp: c split: option.splits)
  qed
qed

text \<open>What a caller sees at the end of its run.\<close>

lemma runs_as_ideal:
  assumes "holds h A"
  shows "play H cs h Map.empty \<notin> {Stuck, Clash}"
    and "play H cs h Map.empty = Fine h' I \<Longrightarrow> I p = Some (n, f) \<Longrightarrow> i < n \<Longrightarrow> f i = Some v \<Longrightarrow> op_read H h' (p + 4 * i) = v"
proof -
  have ag: "agrees A Map.empty" by (simp add: agrees_def)
  show "play H cs h Map.empty \<notin> {Stuck, Clash}" using play_ok [OF assms ag, of cs] by auto
  assume f: "play H cs h Map.empty = Fine h' I" "I p = Some (n, f)" "i < n" "f i = Some v"
  then obtain A' where A': "holds h' A'" "agrees A' I" using play_ok [OF assms ag, of cs] by auto
  obtain ws where "A' p = Some ws" "n \<le> length ws" "ws ! i = v" using A'(2) f(2-4) by (force simp: agrees_def)
  then show "op_read H h' (p + 4 * i) = v" using read_law [OF A'(1)] f(3) by simp
qed

end

end
