(* ===== verification/Mm_Client.thy ===== *)
theory Mm_Client
  imports Mm_Alloc Block_Store
begin

text \<open>
  What the callers of the memory manager may rely on: the heap is a store of blocks.
\<close>

section \<open>The blocks of a heap\<close>

definition block_words :: "mm_heap_s \<Rightarrow> nat \<Rightarrow> nat \<Rightarrow> nat list" where
  "block_words h p s = map (\<lambda>i. mm_mem h (p + 4 * i)) [0..<s div 4 - 1]"

text \<open>The blocks in use: the allocated chunks that are neither guards nor waiting to be freed.\<close>

definition heap_view :: "mm_heap_s \<Rightarrow> node list \<Rightarrow> nat list \<Rightarrow> (nat \<rightharpoonup> nat list)" where
  "heap_view h N cs p =
     (case map_of N (p - 8) of
        Some (s, True) \<Rightarrow> if p - 8 \<in> guards h \<or> p - 8 \<in> set cs then None else Some (block_words h p s)
      | _ \<Rightarrow> None)"

definition heap_holds :: "nat \<Rightarrow> kernel \<Rightarrow> mm_heap_s \<Rightarrow> (nat \<rightharpoonup> nat list) \<Rightarrow> bool" where
  "heap_holds mu k h A \<longleftrightarrow> mm_mutex h = mu \<and> mm_kern h = k \<and>
     (\<exists>N L cs. hinv h N L \<and> deferred h N cs \<and> A = heap_view h N cs)"

lemma block_words_length [simp]: "length (block_words h p s) = s div 4 - 1"
  by (simp add: block_words_def)

lemma heap_view_iff:
  assumes h: "hinv h N L"
  shows "heap_view h N cs p = Some ws \<longleftrightarrow>
    (\<exists>x s. p = x + 8 \<and> (x, s, True) \<in> set N \<and> x \<notin> guards h \<and> x \<notin> set cs \<and> ws = block_words h p s)"
proof -
  note m = map_of_eq_Some_iff [OF hinv_distinct [OF h]]
  have "heap_view h N cs p = Some ws \<longleftrightarrow>
    (\<exists>s. (p - 8, s, True) \<in> set N \<and> p - 8 \<notin> guards h \<and> p - 8 \<notin> set cs \<and> ws = block_words h p s)"
    unfolding heap_view_def m [symmetric] by (auto split: option.splits bool.splits prod.splits)
  moreover have "8 \<le> p" if "(p - 8, s, True) \<in> set N" for s using hinv_node(1) [OF h that] by simp
  then have "(\<exists>s. (p - 8, s, True) \<in> set N \<and> p - 8 \<notin> guards h \<and> p - 8 \<notin> set cs \<and> ws = block_words h p s) \<longleftrightarrow>
    (\<exists>x s. p = x + 8 \<and> (x, s, True) \<in> set N \<and> x \<notin> guards h \<and> x \<notin> set cs \<and> ws = block_words h p s)"
    by (metis add_diff_cancel_right' le_add_diff_inverse2)
  ultimately show ?thesis by simp
qed

lemma map_eqI: "(\<And>p w. f p = Some w \<longleftrightarrow> g p = Some w) \<Longrightarrow> f = g"
  by (rule ext) (metis option.exhaust)

lemma block_cell: "(x, s, True) \<in> set N \<Longrightarrow> hinv h N L \<Longrightarrow> i < s div 4 - 1 \<Longrightarrow> x + 8 + 4 * i \<in> area x s"
  by (auto simp: area_def)

lemma block_words_cong: "(\<And>a. a \<in> area x s \<Longrightarrow> mm_mem h' a = mm_mem h a) \<Longrightarrow> block_words h' (x + 8) s = block_words h (x + 8) s"
  by (auto simp: block_words_def area_def)

section \<open>The operations keep the view\<close>

lemma heap_view_cong:
  assumes h: "hinv h N L" "hinv h' N' L'" and g: "guards h' = guards h"
    and b: "\<And>x s. x \<notin> guards h \<Longrightarrow> (x, s, True) \<in> set N' \<and> x \<notin> set cs' \<longleftrightarrow> (x, s, True) \<in> set N \<and> x \<notin> set cs"
    and i: "intact (filter (\<lambda>nd. fst nd \<notin> set cs) N) h h'"
  shows "heap_view h' N' cs' = heap_view h N cs"
proof (rule map_eqI)
  fix p w
  have "block_words h' (x + 8) s = block_words h (x + 8) s"
    if "(x, s, True) \<in> set N" "x \<notin> guards h" "x \<notin> set cs" for x s
    using i that by (intro block_words_cong) (auto simp: intact_def)
  then show "heap_view h' N' cs' p = Some w \<longleftrightarrow> heap_view h N cs p = Some w"
    unfolding heap_view_iff [OF h(1)] heap_view_iff [OF h(2)] using b g by metis
qed

lemma fold_release_blocks: "(c, u, True) \<in> set (fold release cs N) \<longleftrightarrow> (c, u, True) \<in> set N \<and> c \<notin> set cs"
  by (induction cs arbitrary: N) (auto simp: release_blocks)

lemma heap_view_take:
  assumes h: "hinv h N L" "hinv h' (take_abs x n N) L'" and g: "guards h' = guards h"
    and x: "(x, s, False) \<in> set N" and i: "intact N h h'"
  shows "heap_view h N [] (x + 8) = None"
    "heap_view h' (take_abs x n N) [] = (heap_view h N [])(x + 8 \<mapsto> block_words h' (x + 8) (take_size n s))"
proof -
  have d: "distinct (map fst N)" using hinv_distinct [OF h(1)] .
  have "(x, u, True) \<notin> set N" for u using x d by (metis Pair_inject eq_key_imp_eq_value)
  then show "heap_view h N [] (x + 8) = None" using heap_view_iff [OF h(1)] by (cases "heap_view h N [] (x + 8)") auto
  have xg: "x \<notin> guards h" using hinv_node(10) [OF h(1) x] by simp
  have e: "block_words h' (y + 8) u = block_words h (y + 8) u" if "(y, u, True) \<in> set N" "y \<notin> guards h" for y u
    using i that by (intro block_words_cong) (auto simp: intact_def)
  show "heap_view h' (take_abs x n N) [] = (heap_view h N [])(x + 8 \<mapsto> block_words h' (x + 8) (take_size n s))"
  proof (rule map_eqI)
    fix p w
    show "heap_view h' (take_abs x n N) [] p = Some w \<longleftrightarrow>
      ((heap_view h N [])(x + 8 \<mapsto> block_words h' (x + 8) (take_size n s))) p = Some w"
    proof (cases "p = x + 8")
      case True
      then show ?thesis using xg unfolding heap_view_iff [OF h(2)] by (auto simp: take_abs_blocks [OF d x] g)
    next
      case False
      then show ?thesis using e heap_view_iff [OF h(1), of "[]" p w]
        unfolding heap_view_iff [OF h(2)] by (auto simp: take_abs_blocks [OF d x] g) metis
    qed
  qed
qed

section \<open>The contract\<close>

text \<open>The callers that find the mutex free, and those that cannot take it at all.\<close>

definition heap_ready :: "nat \<Rightarrow> kernel \<Rightarrow> mm_env \<Rightarrow> bool" where
  "heap_ready mu k E \<longleftrightarrow>
     (if in_irq E then \<not> nxmutex_is_locked mu k
      else kinv k \<and> NXSEM_IS_MUTEX (sems k mu) \<and> semval (sems k mu) = NXSEM_NO_MHOLDER)"

definition heap_busy :: "nat \<Rightarrow> kernel \<Rightarrow> mm_env \<Rightarrow> bool" where
  "heap_busy mu k E \<longleftrightarrow>
     (if in_irq E then nxmutex_is_locked mu k else task_state (tcbs k (this_task k)) \<noteq> TSTATE_TASK_RUNNING)"

lemma ready_busy:
  "mm_ready E h \<longleftrightarrow> heap_ready (mm_mutex h) (mm_kern h) E" "mm_busy E h \<longleftrightarrow> heap_busy (mm_mutex h) (mm_kern h) E"
  by (simp_all add: mm_ready_def heap_ready_def mm_busy_def heap_busy_def)

definition heap_ops :: "nat \<Rightarrow> kernel \<Rightarrow> (mm_env, mm_heap_s) store_ops" where
  "heap_ops mu k = \<lparr>op_alloc = mm_malloc, op_dealloc = mm_free, op_write = put, op_read = mm_mem,
     op_can_alloc = heap_ready mu k, op_can_dealloc = (\<lambda>E. heap_ready mu k E \<or> heap_busy mu k E)\<rparr>"

lemma heap_holdsI:
  "hinv h N L \<Longrightarrow> deferred h N cs \<Longrightarrow> mm_mutex h = mu \<Longrightarrow> mm_kern h = k \<Longrightarrow> heap_view h N cs = A \<Longrightarrow> heap_holds mu k h A"
  by (auto simp: heap_holds_def)

lemma deferred_Nil: "mm_delaylist h = 0 \<Longrightarrow> deferred h N []"
  by (simp add: deferred_def)

lemma malloc_holds:
  assumes "heap_holds mu k h A" "heap_ready mu k E"
  shows "\<exists>p h'. mm_malloc E n h = Some (p, h') \<and>
    (if p = 0 then heap_holds mu k h' A
     else A p = None \<and> (\<exists>ws. unat n \<le> 4 * length ws \<and> heap_holds mu k h' (A(p \<mapsto> ws))))"
proof -
  obtain N L cs where h: "hinv h N L" "deferred h N cs" and A: "A = heap_view h N cs"
    and mk: "mm_mutex h = mu" "mm_kern h = k" using assms(1) by (auto simp: heap_holds_def)
  let ?N = "fold release cs N"
  obtain h1 res L1 where h1: "mm_free_delaylist E h = Some h1" "hinv h1 ?N L1" "mm_delaylist h1 = 0" "guards h1 = guards h"
    and i1: "intact (filter (\<lambda>nd. fst nd \<notin> set cs) N) h h1" and m: "mm_malloc E n h = Some res"
    and res: "if unsatisfiable n ?N then res = (0, h1) else allocates (need n) ?N h1 res"
    and k1: "mm_mutex h1 = mu" "mm_kern h1 = k"
  proof -
    have "mm_ready E h" using assms(2) mk by (simp add: ready_busy)
    from malloc_deferred [OF h(1) this h(2), of n] show thesis
      unfolding mk by (elim exE conjE) (rule that; assumption)
  qed
  have A1: "heap_view h1 ?N [] = A"
    unfolding A by (rule heap_view_cong [OF h(1) h1(2,4) _ i1]) (auto simp: fold_release_blocks)
  show ?thesis
  proof (cases "unsatisfiable n ?N")
    case True
    moreover have "heap_holds mu k h1 A" by (rule heap_holdsI [OF h1(2) deferred_Nil [OF h1(3)] k1 A1])
    ultimately show ?thesis using True res m by auto
  next
    case False
    then obtain x s m' L' where r: "res = (x + 8, (add_used (take_size (need n) s) h1)\<lparr>mm_mem := m'\<rparr>)"
      and x: "(x, s, False) \<in> set ?N" "need n \<le> s" and h': "hinv (snd res) (take_abs x (need n) ?N) L'" "intact ?N h1 (snd res)"
      using res by (auto simp: allocates_def)
    let ?ws = "block_words (snd res) (x + 8) (take_size (need n) s)"
    have g: "guards (snd res) = guards h1" "mm_mutex (snd res) = mu" "mm_kern (snd res) = k" "mm_delaylist (snd res) = 0"
      using k1 h1(3) by (simp_all add: r bounds_def add_used_def Let_def)
    note v = heap_view_take [OF h1(2) h'(1) g(1) x(1) h'(2)]
    have "need n \<le> take_size (need n) s" using x(2) by (simp add: take_size_def)
    moreover have "4 dvd take_size (need n) s"
      using hinv_node(8) [OF h'(1)] take_abs_blocks [OF hinv_distinct [OF h1(2)] x(1)] by blast
    ultimately have "unat n \<le> 4 * length ?ws" using need_bounds(3) [of n] by (auto elim!: dvdE)
    moreover have "heap_holds mu k (snd res) (A(x + 8 \<mapsto> ?ws))"
      by (rule heap_holdsI [OF h'(1) deferred_Nil [OF g(4)] g(2,3)]) (use v(2) A1 in simp)
    ultimately have "\<exists>ws. unat n \<le> 4 * length ws \<and> heap_holds mu k (snd res) (A(x + 8 \<mapsto> ws))" by blast
    then show ?thesis using m v(1) A1 r by simp
  qed
qed

lemma free_holds:
  assumes "heap_holds mu k h A" "heap_ready mu k E \<or> heap_busy mu k E" "A p = Some ws"
  shows "\<exists>h'. mm_free E p h = Some h' \<and> heap_holds mu k h' (A(p := None))"
proof -
  obtain N L cs where h: "hinv h N L" "deferred h N cs" and A: "A = heap_view h N cs"
    and mk: "mm_mutex h = mu" "mm_kern h = k" using assms(1) by (auto simp: heap_holds_def)
  obtain x s where x: "p = x + 8" "(x, s, True) \<in> set N" "x \<notin> guards h" "x \<notin> set cs"
    using assms(3) heap_view_iff [OF h(1), of cs p ws] A by auto
  have "\<exists>h' N' L' cs'. mm_delayfree E p False h = Some h' \<and> hinv h' N' L' \<and> deferred h' N' cs' \<and>
    intact (filter (\<lambda>nd. fst nd \<noteq> x) N) h h' \<and> guards h' = guards h \<and> mm_mutex h' = mu \<and> mm_kern h' = k \<and>
    (\<forall>c u. (c, u, True) \<in> set N' \<and> c \<notin> set cs' \<longleftrightarrow> (c, u, True) \<in> set N \<and> c \<notin> set (x # cs))"
  proof (cases "mm_ready E h")
    case True
    obtain m' L' where m': "mm_delayfree E p False h = Some (h\<lparr>mm_curused := mm_curused h - of_nat s, mm_mem := m'\<rparr>)"
      "hinv (h\<lparr>mm_curused := mm_curused h - of_nat s, mm_mem := m'\<rparr>) (release x N) L'"
      and i: "intact (filter (\<lambda>nd. fst nd \<noteq> x) N) h (h\<lparr>mm_curused := mm_curused h - of_nat s, mm_mem := m'\<rparr>)"
      using delayfree_ready [OF h(1) True x(2,3)] x(1) by blast
    have "m' (c + 8) = mm_mem h (c + 8)" if c: "c \<in> set cs" for c
    proof -
      obtain u where "(c, u, True) \<in> set N" "c \<notin> guards h" "c \<noteq> x" using h(2) c x(4) by (auto simp: deferred_def)
      then show ?thesis using i first_word [OF _ h(1)] by (auto simp: intact_def)
    qed
    then have "dlist m' (mm_delaylist h) cs" using h(2) dlist_cong [of cs m' "mm_mem h"] by (simp add: deferred_def)
    then have "deferred (h\<lparr>mm_curused := mm_curused h - of_nat s, mm_mem := m'\<rparr>) (release x N) cs"
      using h(2) x(4) by (auto simp: deferred_def release_blocks bounds_def)
    with m' i mk show ?thesis
      by (intro exI [of _ "h\<lparr>mm_curused := mm_curused h - of_nat s, mm_mem := m'\<rparr>"] exI [of _ "release x N"] exI [of _ L'] exI [of _ cs])
        (auto simp: bounds_def release_blocks)
  next
    case False
    then have b: "mm_busy E h" using assms(2) mk by (simp add: ready_busy)
    show ?thesis using delayfree_busy [OF b, of p] add_delaylist_deferred [OF h x(2-4)] mk
      by (intro exI [of _ "add_delaylist p h"] exI [of _ N] exI [of _ L] exI [of _ "x # cs"])
        (simp add: x(1) add_delaylist_def put_def bounds_def)
  qed
  then obtain h' N' L' cs' where f: "mm_delayfree E p False h = Some h'" and h': "hinv h' N' L'" "deferred h' N' cs'"
    and i: "intact (filter (\<lambda>nd. fst nd \<noteq> x) N) h h'" and g: "guards h' = guards h" and mk': "mm_mutex h' = mu" "mm_kern h' = k"
    and b: "\<forall>c u. (c, u, True) \<in> set N' \<and> c \<notin> set cs' \<longleftrightarrow> (c, u, True) \<in> set N \<and> c \<notin> set (x # cs)"
    by (elim exE conjE) (rule that)
  have "heap_view h' N' cs' = heap_view h N (x # cs)"
    by (rule heap_view_cong [OF h(1) h'(1) g]) (use b i in \<open>auto simp: intact_def\<close>)
  also have "\<dots> = A(p := None)"
    by (rule map_eqI) (auto simp: heap_view_iff [OF h(1)] A x(1))
  finally have "heap_holds mu k h' (A(p := None))" by (rule heap_holdsI [OF h' mk'])
  then show ?thesis using f x(1) by (simp add: mm_free_def)
qed

lemma write_holds:
  assumes "heap_holds mu k h A" "A p = Some ws" "i < length ws"
  shows "heap_holds mu k (put (p + 4 * i) v h) (A(p \<mapsto> ws[i := v]))" "mm_mem h (p + 4 * i) = ws ! i"
proof -
  obtain N L cs where h: "hinv h N L" "deferred h N cs" and A: "A = heap_view h N cs"
    and mk: "mm_mutex h = mu" "mm_kern h = k" using assms(1) by (auto simp: heap_holds_def)
  obtain x s where x: "p = x + 8" "(x, s, True) \<in> set N" "x \<notin> guards h" "x \<notin> set cs" "ws = block_words h p s"
    using assms(2) heap_view_iff [OF h(1), of cs p ws] A by auto
  show "mm_mem h (p + 4 * i) = ws ! i" using assms(3) x(5) by (simp add: block_words_def)
  have i: "i < s div 4 - 1" using assms(3) x(5) by simp
  let ?a = "p + 4 * i"
  have a: "?a \<in> area x s" using block_cell [OF x(2) h(1) i] x(1) by simp
  have h': "hinv (put ?a v h) N L" by (rule hinv_write [OF h(1) x(2,3) a])
  have off: "?a \<notin> area c u" if "(c, u, True) \<in> set N" "c \<noteq> x" for c u
    using payload_disjoint [OF h(1) x(2) that(1)] that(2) a by auto
  have "mm_mem (put ?a v h) (c + 8) = mm_mem h (c + 8)" if "c \<in> set cs" for c
    using h(2) that x(4) off first_word [OF _ h(1)] by (fastforce simp: deferred_def put_def)
  then have "deferred (put ?a v h) N cs"
    using h(2) dlist_cong [of cs "mm_mem (put ?a v h)" "mm_mem h"] by (auto simp: deferred_def put_def bounds_def)
  moreover have "heap_view (put ?a v h) N cs = A(p \<mapsto> ws[i := v])"
  proof (rule map_eqI)
    fix q w
    have "block_words (put ?a v h) (c + 8) u = block_words h (c + 8) u" if "(c, u, True) \<in> set N" "c \<noteq> x" for c u
      using off [OF that] by (intro block_words_cong) (auto simp: put_def)
    moreover have "block_words (put ?a v h) p s = ws[i := v]"
      by (rule nth_equalityI) (auto simp: x(5) block_words_def put_def nth_list_update)
    moreover have "u = s" if "(x, u, True) \<in> set N" for u
      using that x(2) hinv_distinct [OF h(1)] by (metis Pair_inject eq_key_imp_eq_value)
    moreover have "guards (put ?a v h) = guards h" by (simp add: put_def bounds_def)
    ultimately have v: "heap_view (put ?a v h) N cs q = Some w \<longleftrightarrow>
      (\<exists>c u. q = c + 8 \<and> (c, u, True) \<in> set N \<and> c \<notin> guards h \<and> c \<notin> set cs \<and>
        w = (if c = x then ws[i := v] else block_words h q u))"
      unfolding heap_view_iff [OF h'] using x(1) by metis
    show "heap_view (put ?a v h) N cs q = Some w \<longleftrightarrow> (A(p \<mapsto> ws[i := v])) q = Some w"
    proof (cases "q = p")
      case True
      then show ?thesis unfolding v using x(1-4) by auto
    next
      case False
      then show ?thesis using x(1) heap_view_iff [OF h(1), of cs q w] unfolding v A by auto
    qed
  qed
  ultimately show "heap_holds mu k (put ?a v h) (A(p \<mapsto> ws[i := v]))"
    by (intro heap_holdsI [OF h']) (simp_all add: put_def mk)
qed

interpretation heap: block_store "heap_holds mu k" "heap_ops mu k" for mu k
  by unfold_locales (use malloc_holds free_holds write_holds in \<open>simp_all add: heap_ops_def\<close>)

end
