(* ===== verification/Mm_Init.thy ===== *)
theory Mm_Init
  imports Mm_Alloc
begin

text \<open>
  Building a heap: \<^verbatim>\<open>mm_initialize_heap\<close>, \<^verbatim>\<open>mm_addregion\<close> and \<^verbatim>\<open>mm_uninitialize\<close> of
  \<^verbatim>\<open>mm_heap/mm_initialize.c\<close>.  The place of the heap's control block among the bytes it manages is
  given by its layout, a parameter: it depends on the compiler and on the size of a mutex.
\<close>

section \<open>Definitions\<close>

definition mm_addregion :: "mm_env \<Rightarrow> u32 \<Rightarrow> u32 \<Rightarrow> mm_heap_s \<Rightarrow> mm_heap_s option" where
  "mm_addregion E heapstart heapsize h =
     (let h = snd (mm_lock E h);
          idx = mm_nregions h
      in if idx \<ge> CONFIG_MM_REGIONS then Some (mm_unlock E h)
         else
           (let heapbase = MM_ALIGN_UP (heapstart + of_nat (2 * MM_SIZEOF_ALLOCNODE)) - of_nat (2 * MM_SIZEOF_ALLOCNODE);
                heapsize = heapsize - (heapbase - heapstart);
                heapend = MM_ALIGN_DOWN (heapbase + heapsize);
                heapsize = heapend - heapbase;
                h = h\<lparr>mm_heapsize := mm_heapsize h + heapsize\<rparr>;
                h = h\<lparr>mm_heapstart := (mm_heapstart h)[idx := unat heapbase]\<rparr>;
                h = set_size (unat heapbase) (MM_SIZEOF_ALLOCNODE OR MM_ALLOC_BIT) h;
                node = unat (heapbase + of_nat MM_SIZEOF_ALLOCNODE);
                h = set_size node (unat (heapsize - of_nat (2 * MM_SIZEOF_ALLOCNODE))) h;
                tail = unat (heapend - of_nat MM_SIZEOF_ALLOCNODE);
                h = h\<lparr>mm_heapend := (mm_heapend h)[idx := tail]\<rparr>;
                h = set_size tail (MM_SIZEOF_ALLOCNODE OR MM_ALLOC_BIT OR MM_PREVFREE_BIT) h;
                h = set_preceding tail (nd_size h node) h;
                h = h\<lparr>mm_nregions := Suc (mm_nregions h)\<rparr>
            in do {
              h \<leftarrow> mm_addfreechunk node h;
              Some (mm_unlock E (h\<lparr>mm_curused := mm_curused h + of_nat (2 * MM_SIZEOF_ALLOCNODE)\<rparr>))
            }))"

text \<open>
  The configuration of a new heap: the heap to take the control block from, if any, and the region.
  (Its name is only printed.)
\<close>

record mm_heap_config_s =
  cfg_heap :: "mm_heap_s option"
  cfg_start :: u32
  cfg_size :: u32

record heap_layout =
  sizeof_heap :: u32
  off_lock :: nat
  off_nodelist :: nat

text \<open>The chain of the list headers.\<close>

definition init_nodelist :: "nat \<Rightarrow> nat \<Rightarrow> (nat \<Rightarrow> nat) \<Rightarrow> nat \<Rightarrow> nat" where
  "init_nodelist nl n m = fold (\<lambda>i m. m(nl + 16 * (i - 1) + 8 := nl + 16 * i, nl + 16 * i + 12 := nl + 16 * (i - 1))) [1..<n] m"

text \<open>What is done with the control block at \<open>adr\<close>, in the memory \<open>m\<close>.\<close>

definition new_heap :: "heap_layout \<Rightarrow> nat \<Rightarrow> (nat \<Rightarrow> nat) \<Rightarrow> kernel \<Rightarrow> mm_heap_s" where
  "new_heap lay adr m k =
     \<lparr>mm_mutex = adr + off_lock lay, mm_heapsize = 0, mm_maxused = 0, mm_curused = sizeof_heap lay,
      mm_heapstart = replicate CONFIG_MM_REGIONS 0, mm_heapend = replicate CONFIG_MM_REGIONS 0, mm_nregions = 0,
      mm_nodelist = adr + off_nodelist lay, mm_delaylist = 0,
      mm_mem = init_nodelist (adr + off_nodelist lay) MM_NNODES
        (\<lambda>y. if adr \<le> y \<and> y < adr + unat (sizeof_heap lay) then 0 else m y),
      mm_kern = nxmutex_init (adr + off_lock lay) k\<rparr>"

text \<open>
  The new heap, \<open>None\<close> for a null pointer, and the parent.  Without a parent the control block is taken from
  the start of the region in the memory \<open>m\<close>; with one, it is a block of the parent, and the two heaps have
  their memory and the kernel in common.
\<close>

definition mm_initialize_heap ::
    "mm_env \<Rightarrow> heap_layout \<Rightarrow> mm_heap_config_s \<Rightarrow> (nat \<Rightarrow> nat) \<Rightarrow> kernel \<Rightarrow> (mm_heap_s option \<times> mm_heap_s option) option" where
  "mm_initialize_heap E lay config m k =
     (case cfg_heap config of
        None \<Rightarrow>
          (let heap_adj = MM_ALIGN_UP (cfg_start config);
               heapsize = cfg_size config - (heap_adj - cfg_start config);
               heapsize = heapsize - sizeof_heap lay;
               heapstart = heap_adj + sizeof_heap lay
           in do {
             heap \<leftarrow> mm_addregion E heapstart heapsize (new_heap lay (unat heap_adj) m k);
             Some (Some heap, None)
           })
      | Some parent \<Rightarrow> do {
          (adr, parent) \<leftarrow> mm_malloc E (sizeof_heap lay) parent;
          if adr = 0 then Some (None, Some parent)
          else do {
            heap \<leftarrow> mm_addregion E (cfg_start config) (cfg_size config) (new_heap lay adr (mm_mem parent) (mm_kern parent));
            Some (Some heap, Some (parent\<lparr>mm_mem := mm_mem heap, mm_kern := mm_kern heap\<rparr>))
          }
        })"

definition mm_uninitialize :: "mm_env \<Rightarrow> mm_heap_s \<Rightarrow> mm_heap_s option" where
  "mm_uninitialize E h = do {
     h \<leftarrow> mm_free_delaylist E h;
     Some (h\<lparr>mm_kern := nxmutex_destroy (mm_mutex h) (mm_kern h)\<rparr>)
   }"

text \<open>
  The heap of the board (\<^verbatim>\<open>stm32_allocateheap.c\<close>): the system SRAM above the stack of the idle task, whose end
  \<open>top\<close> is known to the linker, then the core coupled memory and the external RAM.
\<close>

definition SRAM1_END :: u32 where "SRAM1_END = 0x20030000"
definition SRAM2_START :: u32 where "SRAM2_START = 0x10000000"
definition SRAM2_END :: u32 where "SRAM2_END = 0x10010000"
definition CONFIG_HEAP2_BASE :: u32 where "CONFIG_HEAP2_BASE = 0xD0000000"
definition CONFIG_HEAP2_SIZE :: u32 where "CONFIG_HEAP2_SIZE = 8388608"

definition up_allocate_heap :: "u32 \<Rightarrow> u32 \<times> u32" where
  "up_allocate_heap g_idle_topstack = (g_idle_topstack, SRAM1_END - g_idle_topstack)"

definition umm_initialize ::
    "mm_env \<Rightarrow> heap_layout \<Rightarrow> u32 \<Rightarrow> u32 \<Rightarrow> (nat \<Rightarrow> nat) \<Rightarrow> kernel \<Rightarrow> (mm_heap_s option \<times> mm_heap_s option) option" where
  "umm_initialize E lay heap_start heap_size m k =
     mm_initialize_heap E lay \<lparr>cfg_heap = None, cfg_start = heap_start, cfg_size = heap_size\<rparr> m k"

definition umm_addregion :: "mm_env \<Rightarrow> u32 \<Rightarrow> u32 \<Rightarrow> mm_heap_s \<Rightarrow> mm_heap_s option" where
  "umm_addregion E heap_start heap_size h = mm_addregion E heap_start heap_size h"

definition arm_addregion :: "mm_env \<Rightarrow> mm_heap_s \<Rightarrow> mm_heap_s option" where
  "arm_addregion E h = do {
     h \<leftarrow> umm_addregion E SRAM2_START (SRAM2_END - SRAM2_START) h;
     umm_addregion E CONFIG_HEAP2_BASE CONFIG_HEAP2_SIZE h
   }"

section \<open>An empty heap\<close>

definition headers :: "nat \<Rightarrow> entry list" where
  "headers nl = map (\<lambda>i. (nl + 16 * i, 0)) [0..<MM_NNODES]"

lemma init_nodelist_simps [simp]:
  "init_nodelist nl 0 m = m" "init_nodelist nl (Suc 0) m = m"
  "init_nodelist nl (Suc (Suc n)) m =
    (init_nodelist nl (Suc n) m)(nl + 16 * n + 8 := nl + 16 * Suc n, nl + 16 * Suc n + 12 := nl + 16 * n)"
  by (simp_all add: init_nodelist_def)

lemma two_step: "P 0 \<Longrightarrow> P (Suc 0) \<Longrightarrow> (\<And>n. P (Suc n) \<Longrightarrow> P (Suc (Suc n))) \<Longrightarrow> P n" for n :: nat
  by (metis nat_induct not0_implies_Suc)

lemma init_nodelist_read:
  "init_nodelist nl n m (nl + 16 * i + 8) = (if Suc i < n then nl + 16 * Suc i else m (nl + 16 * i + 8))"
  "init_nodelist nl n m (nl + 16 * i + 12) = (if 0 < i \<and> i < n then nl + 16 * (i - 1) else m (nl + 16 * i + 12))"
  "init_nodelist nl n m (nl + 16 * i + 4) = m (nl + 16 * i + 4)"
  by (induction n rule: two_step; (auto; presburger))+

lemma init_nodelist_off: "y < nl \<or> nl + 16 * n \<le> y \<Longrightarrow> init_nodelist nl n m y = m y"
  by (induction n rule: two_step) auto

lemma dseg_headers:
  assumes "\<And>i. a \<le> i \<Longrightarrow> i < b \<Longrightarrow> m (nl + 16 * i + 8) = (if Suc i < b then nl + 16 * Suc i else 0)"
    and "\<And>i. a < i \<Longrightarrow> i < b \<Longrightarrow> m (nl + 16 * i + 12) = nl + 16 * (i - 1)"
    and "a < b \<Longrightarrow> m (nl + 16 * a + 12) = p"
  shows "dseg m p (map (\<lambda>i. nl + 16 * i) [a..<b]) 0"
  using assms
proof (induction "b - a" arbitrary: a p)
  case (Suc d)
  then have ab: "a < b" by simp
  have u: "[a..<b] = a # [Suc a..<b]" using ab by (simp add: upt_conv_Cons)
  have "dseg m (nl + 16 * a) (map (\<lambda>i. nl + 16 * i) [Suc a..<b]) 0"
    using Suc.prems(2) [of "Suc a"] Suc.prems(1,2) by (intro Suc.hyps(1)) (use Suc.hyps(2) in auto)
  moreover have "first (map (\<lambda>i. nl + 16 * i) [Suc a..<b]) 0 = (if Suc a < b then nl + 16 * Suc a else 0)"
    by (auto simp: upt_conv_Cons)
  ultimately show ?case using Suc.prems(1) [of a] Suc.prems(3) ab u by simp
qed simp

lemma flist_headers:
  assumes nl: "0 < nl" and m: "\<And>y. nl \<le> y \<Longrightarrow> y < nl + 16 * MM_NNODES \<Longrightarrow> m y = 0"
  shows "flist (init_nodelist nl MM_NNODES m) nl (headers nl)"
proof -
  have z: "m (nl + 16 * i + c) = 0" if "i < MM_NNODES" "c < 16" for i c using m that by auto
  let ?m = "init_nodelist nl MM_NNODES m"
  have f: "map fst (headers nl) = map (\<lambda>i. nl + 16 * i) [0..<MM_NNODES]" by (simp add: headers_def comp_def)
  have "dseg ?m 0 (map (\<lambda>i. nl + 16 * i) [0..<MM_NNODES]) 0"
    by (rule dseg_headers) (use z in \<open>simp_all only: init_nodelist_read\<close>, auto)
  moreover have "spaced (map (\<lambda>i. nl + 16 * i) [0..<MM_NNODES])"
    by (auto simp: sorted_wrt_iff_nth_less apart_def)
  moreover have "sorted (map (fkey nl) (headers nl))"
    unfolding headers_def by (auto simp: sorted_iff_nth_mono simp del: upt_Suc)
  moreover have "?m (nl + 16 * i + 4) = 0" if "i < MM_NNODES" for i
    using z [OF that, of 4] by (simp only: init_nodelist_read)
  ultimately show ?thesis using nl unfolding flist_def f
    by (auto simp: headers_def heads_def image_iff simp del: MM_NNODES_def)
qed

text \<open>A control block that lies in its bytes with its list headers.\<close>

definition layout_ok :: "heap_layout \<Rightarrow> bool" where
  "layout_ok lay \<longleftrightarrow> off_nodelist lay + 16 * MM_NNODES \<le> unat (sizeof_heap lay)"

lemma new_heap_hinv:
  assumes "layout_ok lay" "0 < adr"
  shows "hinv (new_heap lay adr m k) [] (headers (adr + off_nodelist lay))"
proof -
  have "flist (mm_mem (new_heap lay adr m k)) (mm_nodelist (new_heap lay adr m k)) (headers (adr + off_nodelist lay))"
    unfolding new_heap_def by (simp del: MM_NNODES_def, rule flist_headers) (use assms in \<open>auto simp: layout_ok_def\<close>)
  then show ?thesis
    by (simp add: hinv_def bounds_def new_heap_def frees_def) (auto simp: headers_def)
qed

section \<open>A new region\<close>

lemma after_cong: "(fst nd \<in> En' \<longleftrightarrow> fst nd \<in> En) \<Longrightarrow> after En' nd = after En nd"
  by (auto simp: after_def split: prod.splits)

lemma seg_ends_cong:
  "(\<And>nd. nd \<in> set ns \<Longrightarrow> fst nd \<in> En' \<longleftrightarrow> fst nd \<in> En) \<Longrightarrow> seg m En' st ns = seg m En st ns"
proof (induction ns arbitrary: st)
  case (Cons nd ns)
  have "after En' nd = after En nd" using Cons.prems by (intro after_cong) simp
  then show ?case using Cons by simp
qed simp

lemma outcome_ends_cong:
  assumes "\<And>nd. nd \<in> set ns \<Longrightarrow> fst nd \<in> En' \<longleftrightarrow> fst nd \<in> En"
  shows "outcome En' st ns = outcome En st ns"
  using after_cong [of "last ns" En' En] assms [of "last ns"] last_in_set [of ns] by (simp add: outcome_def)

lemma map2_snoc: "length xs = length ys \<Longrightarrow> concat (map2 (\<lambda>b e. [b, e]) (xs @ [b]) (ys @ [e])) = concat (map2 (\<lambda>b e. [b, e]) xs ys) @ [b, e]"
  by simp

lemma take_set: "n < length xs \<Longrightarrow> take (Suc n) (xs[n := v]) = take n xs @ [v]"
  by (simp add: take_Suc_conv_app_nth)

text \<open>The heap with the guards of a region from \<open>b\<close> to \<open>e + 8\<close> entered.\<close>

definition with_region :: "nat \<Rightarrow> nat \<Rightarrow> mm_heap_s \<Rightarrow> mm_heap_s" where
  "with_region b e h = h\<lparr>mm_heapstart := (mm_heapstart h)[mm_nregions h := b],
     mm_heapend := (mm_heapend h)[mm_nregions h := e], mm_nregions := Suc (mm_nregions h)\<rparr>"

lemma with_region_fields [simp]: "mm_nodelist (with_region b e h) = mm_nodelist h"
  by (simp add: with_region_def)

lemma with_region_bounds:
  assumes "mm_nregions h < length (mm_heapstart h)" "length (mm_heapstart h) = length (mm_heapend h)"
  shows "bounds (with_region b e h) = bounds h @ [b, e]" "ends (with_region b e h) = insert e (ends h)"
  using assms by (simp_all add: bounds_def ends_def with_region_def take_set map2_snoc)

text \<open>A region apart from the chunks and from the list headers.\<close>

definition region_apart :: "nat \<Rightarrow> nat \<Rightarrow> mm_heap_s \<Rightarrow> node list \<Rightarrow> bool" where
  "region_apart b e h N \<longleftrightarrow> 0 < b \<and> 8 dvd b \<and> 8 dvd e \<and> b + 24 \<le> e \<and> e + 8 \<le> 2 ^ 32 \<and>
     (e + 8 \<le> mm_nodelist h \<or> mm_nodelist h + 16 * MM_NNODES \<le> b) \<and>
     (\<forall>(x, s, al) \<in> set N. x + s \<le> b \<or> e + 8 \<le> x)"

definition region_nodes :: "nat \<Rightarrow> nat \<Rightarrow> node list" where
  "region_nodes b e = [(b, 8, True), (b + 8, e - (b + 8), False), (e, 8, True)]"

definition region_mem :: "nat \<Rightarrow> nat \<Rightarrow> (nat \<Rightarrow> nat) \<Rightarrow> nat \<Rightarrow> nat" where
  "region_mem b e m = m(b + 4 := 9, b + 12 := e - (b + 8), e + 4 := 11, e := e - (b + 8))"

lemma region_entries:
  assumes h: "hinv h N L" and r: "region_apart b e h N" and y: "y \<in> addrs L"
  shows "y + 16 \<le> b \<or> e + 8 \<le> y"
proof -
  obtain t where t: "(y, t) \<in> set L" using y by auto
  from hinv_entry [OF h this] show ?thesis
  proof (elim disjE conjE exE)
    fix i assume "i < MM_NNODES" "y = mm_nodelist h + 16 * i"
    then show ?thesis using r by (auto simp: region_apart_def)
  next
    assume n: "(y, t, False) \<in> set N"
    have "16 \<le> t" using hinv_node(9) [OF h n] by simp
    then show ?thesis using r n by (fastforce simp: region_apart_def)
  qed
qed

lemma guards_nodes: "hinv h N L \<Longrightarrow> guards h \<subseteq> fst ` set N"
proof -
  assume "hinv h N L"
  then have "set (map fst (filter (\<lambda>nd. fst nd \<in> guards h) N)) = guards h" by (simp only: hinv_def)
  then show ?thesis by auto
qed

lemma region_seg:
  assumes "m (b + 4) = 9" "m (b + 12) = e - (b + 8)" "m (e + 4) = 11" "m e = e - (b + 8)" "b + 24 \<le> e" "b \<notin> En" "b + 8 \<notin> En"
  shows "seg m (insert e En) (None, None) (region_nodes b e)" "outcome (insert e En) (None, None) (region_nodes b e) = (None, None)"
  using assms by (auto simp: region_nodes_def fits_def after_def enc_def add.commute)

text \<open>What the region is apart from, as facts.\<close>

lemma region_apartD:
  assumes "region_apart b e h N"
  shows "0 < b" "8 dvd b" "8 dvd e" "b + 24 \<le> e" "e + 8 \<le> 2 ^ 32"
    "e + 8 \<le> mm_nodelist h \<or> mm_nodelist h + 16 * MM_NNODES \<le> b"
    "(x, s, al) \<in> set N \<Longrightarrow> x + s \<le> b \<or> e + 8 \<le> x"
    "8 dvd e - (b + 8)" "4 dvd e - (b + 8)" "16 \<le> e - (b + 8)" "b + 8 + (e - (b + 8)) = e"
proof -
  show R: "0 < b" "8 dvd b" "8 dvd e" "b + 24 \<le> e" "e + 8 \<le> 2 ^ 32"
    "e + 8 \<le> mm_nodelist h \<or> mm_nodelist h + 16 * MM_NNODES \<le> b" using assms by (simp_all add: region_apart_def)
  show "(x, s, al) \<in> set N \<Longrightarrow> x + s \<le> b \<or> e + 8 \<le> x" using assms by (fastforce simp: region_apart_def)
  show "8 dvd e - (b + 8)" "16 \<le> e - (b + 8)" "b + 8 + (e - (b + 8)) = e" using R by auto
  then show "4 dvd e - (b + 8)" using dvd_trans [of 4 8 "e - (b + 8)"] by simp
qed

lemma region_fresh:
  assumes h: "hinv h N L" and r: "region_apart b e h N"
  shows "nd \<in> set N \<Longrightarrow> fst nd \<noteq> b \<and> fst nd \<noteq> b + 8 \<and> fst nd \<noteq> e"
    and "b \<notin> guards h" "b + 8 \<notin> guards h" "e \<notin> guards h"
proof -
  show f: "fst nd \<noteq> b \<and> fst nd \<noteq> b + 8 \<and> fst nd \<noteq> e" if "nd \<in> set N" for nd
    using region_apartD(4) [OF r] region_apartD(7) [OF r, of "fst nd" "fst (snd nd)" "snd (snd nd)"]
      hinv_node(7) [OF h, of "fst nd" "fst (snd nd)" "snd (snd nd)"] that by auto
  show "b \<notin> guards h" "b + 8 \<notin> guards h" "e \<notin> guards h" using f guards_nodes [OF h] by (metis imageE subsetD)+
qed

lemma region_nodes_ok:
  assumes h: "hinv h N L" and r: "region_apart b e h N" and B: "bounds h' = bounds h @ [b, e]" and nl: "mm_nodelist h' = mm_nodelist h"
  shows "\<forall>nd \<in> set (N @ region_nodes b e). node_ok h' nd"
    "map fst (filter (\<lambda>nd. fst nd \<in> guards h') (N @ region_nodes b e)) = bounds h'"
    "sorted_wrt sep (N @ region_nodes b e)"
proof -
  note R = region_apartD [OF r] and f = region_fresh [OF h r]
  have "node_ok h' nd" if nd: "nd \<in> set N" for nd
  proof -
    have "node_ok h nd" using h nd by (simp add: hinv_def)
    then show ?thesis using f(1) [OF nd] by (cases nd) (auto simp: node_ok_def B nl)
  qed
  moreover have "node_ok h' nd" if "nd \<in> set (region_nodes b e)" for nd
    using that R f(2-4) by (auto simp: region_nodes_def node_ok_def B nl)
  ultimately show "\<forall>nd \<in> set (N @ region_nodes b e). node_ok h' nd" by auto
  have "filter (\<lambda>nd. fst nd \<in> guards h') N = filter (\<lambda>nd. fst nd \<in> guards h) N"
    using f(1) by (intro filter_cong) (auto simp: B)
  moreover have "map fst (filter (\<lambda>nd. fst nd \<in> guards h') (region_nodes b e)) = [b, e]"
    using f(2-4) R(4) by (auto simp: B region_nodes_def)
  ultimately show "map fst (filter (\<lambda>nd. fst nd \<in> guards h') (N @ region_nodes b e)) = bounds h'"
    using h by (simp add: B hinv_def)
  have "sep nd nd'" if "nd \<in> set N" "nd' \<in> set (region_nodes b e)" for nd nd'
    using R(7) [of "fst nd" "fst (snd nd)" "snd (snd nd)"] that R(11) by (cases nd) (auto simp: sep_def region_nodes_def)
  moreover have "sorted_wrt sep (region_nodes b e)" using R(4) by (simp add: sep_def region_nodes_def)
  ultimately show "sorted_wrt sep (N @ region_nodes b e)" using h by (simp add: hinv_def sorted_wrt_append)
qed

text \<open>The headers of the old chunks are as they were, those of the new ones as written.\<close>

lemma region_chain:
  assumes h: "hinv h N L" and r: "region_apart b e h N"
    and off: "\<And>z. z \<notin> links (addrs L) \<Longrightarrow> z < b \<or> e + 8 \<le> z \<Longrightarrow> m' z = mm_mem h z"
    and w: "m' (b + 4) = 9" "m' (b + 12) = e - (b + 8)" "m' (e + 4) = 11" "m' e = e - (b + 8)"
  shows "seg m' (insert e (ends h)) (None, None) (N @ region_nodes b e)"
    "outcome (insert e (ends h)) (None, None) (N @ region_nodes b e) = (None, None)"
proof -
  note R = region_apartD [OF r] and f = region_fresh [OF h r]
  have eq: "fst nd \<in> insert e (ends h) \<longleftrightarrow> fst nd \<in> ends h" if "nd \<in> set N" for nd using f(1) [OF that] by auto
  have "seg m' (ends h) (None, None) N = seg (mm_mem h) (ends h) (None, None) N"
  proof (rule seg_cong)
    fix x s al assume x: "(x, s, al) \<in> set N"
    show "4 dvd s \<and> m' (x + 4) = mm_mem h (x + 4) \<and> (mm_mem h (x + 4) AND 2 \<noteq> 0 \<longrightarrow> m' x = mm_mem h x)"
      using R(7) [OF x] hinv_node(7,8) [OF h x] header_off_links [OF h x] by (auto intro!: off)
  qed
  then have "seg m' (insert e (ends h)) (None, None) N" using seg_ends_cong [OF eq] h by (auto simp: hinv_def)
  moreover have "outcome (insert e (ends h)) (None, None) N = (None, None)"
    using outcome_ends_cong [OF eq] h by (simp add: hinv_def)
  moreover have "b \<notin> ends h" "b + 8 \<notin> ends h" using f(2,3) hinv_ends [OF h] by auto
  ultimately show "seg m' (insert e (ends h)) (None, None) (N @ region_nodes b e)"
    "outcome (insert e (ends h)) (None, None) (N @ region_nodes b e) = (None, None)"
    using region_seg [OF w R(4)] by (simp_all add: seg_append outcome_append)
qed

lemma region_added:
  assumes h: "hinv h N L" and r: "region_apart b e h N" and n: "mm_nregions h < length (mm_heapstart h)"
    and h2: "mm_mem h2 = region_mem b e (mm_mem h)" "mm_nodelist h2 = mm_nodelist h"
  shows "\<exists>m' L'. mm_addfreechunk (b + 8) h2 = Some (h2\<lparr>mm_mem := m'\<rparr>) \<and>
    hinv ((with_region b e h)\<lparr>mm_mem := m'\<rparr>) (N @ region_nodes b e) L' \<and> intact N h (h\<lparr>mm_mem := m'\<rparr>)"
proof -
  let ?m = "region_mem b e (mm_mem h)" and ?s = "e - (b + 8)" and ?nl = "mm_nodelist h" and ?h = "with_region b e h"
  note R = region_apartD [OF r]
  have out: "?m y = mm_mem h y" if "y < b \<or> e + 8 \<le> y" for y using that R(4) by (auto simp: region_mem_def)
  have y: "y + 16 \<le> b \<or> e + 8 \<le> y" if "y \<in> addrs L" for y by (rule region_entries [OF h r that])
  have "flist ?m ?nl L" by (rule flist_cong [OF hinv_flist [OF h]]) (use y out in force)
  moreover have "?m (b + 8 + 4) = ?s" using R(4) by (simp add: region_mem_def)
  moreover have "apart (b + 8) y" if "y \<in> addrs L" for y using y [OF that] R(4) by (auto simp: apart_def)
  ultimately obtain m' us vs where m': "L = us @ vs" "mm_addfreechunk (b + 8) h2 = Some (h2\<lparr>mm_mem := m'\<rparr>)"
    "flist m' ?nl (us @ (b + 8, ?s) # vs)" "\<forall>y. y \<notin> links (insert (b + 8) (addrs L)) \<longrightarrow> m' y = ?m y"
    using addfreechunk_flist [of h2 L "b + 8" ?s] R(1,9,10) by (auto simp: h2)
  have off: "m' z = mm_mem h z" if "z \<notin> links (addrs L)" "z < b \<or> e + 8 \<le> z" for z
    using m'(4) that out R(4) by (auto simp: links_def)
  have "m' z = ?m z" if "z \<in> {b + 4, b + 12, e, e + 4}" for z
  proof -
    have "z \<notin> links (insert (b + 8) (addrs L))" using y that R(4) by (fastforce simp: links_def)
    then show ?thesis using m'(4) by simp
  qed
  then have w: "m' (b + 4) = 9" "m' (b + 12) = ?s" "m' (e + 4) = 11" "m' e = ?s" using R(4) by (simp_all add: region_mem_def)
  have len: "length (mm_heapstart h) = length (mm_heapend h)" using h by (simp add: hinv_def)
  note B = with_region_bounds [OF n len, of b e]
  have "{x \<in> set L. snd x \<noteq> 0} = frees N" using h by (simp add: hinv_def)
  moreover have "?s \<noteq> 0" using R(4) by simp
  then have "{x \<in> set (us @ (b + 8, ?s) # vs). snd x \<noteq> 0} = insert (b + 8, ?s) {x \<in> set L. snd x \<noteq> 0}"
    unfolding m'(1) by auto
  moreover have "frees (N @ region_nodes b e) = insert (b + 8, ?s) (frees N)" by (simp add: region_nodes_def)
  ultimately have "{x \<in> set (us @ (b + 8, ?s) # vs). snd x \<noteq> 0} = frees (N @ region_nodes b e)" by simp
  moreover have "length (mm_heapstart ?h) = length (mm_heapend ?h)" using len by (simp add: with_region_def)
  moreover have "node_ok (?h\<lparr>mm_mem := m'\<rparr>) = node_ok ?h" "bounds (?h\<lparr>mm_mem := m'\<rparr>) = bounds ?h" "ends (?h\<lparr>mm_mem := m'\<rparr>) = ends ?h"
    by (simp_all add: fun_eq_iff node_ok_def bounds_def ends_def)
  ultimately have "hinv (?h\<lparr>mm_mem := m'\<rparr>) (N @ region_nodes b e) (us @ (b + 8, ?s) # vs)"
    using m'(3) region_chain [OF h r off w] region_nodes_ok [OF h r B(1)] by (simp add: hinv_def B(2) del: set_append)
  moreover have "intact N h (h\<lparr>mm_mem := m'\<rparr>)"
    unfolding intact_def
  proof (intro allI impI)
    fix c u z assume c: "(c, u, True) \<in> set N" "c \<notin> guards h" "z \<in> area c u"
    obtain t bl where nx: "(c + u, t, bl) \<in> set N" using next_node [OF h c(1,2)] by blast
    have "z < b \<or> e + 8 \<le> z" using R(7) [OF c(1)] R(7) [OF nx] hinv_node(7) [OF h nx] c(3) by (auto simp: area_def)
    then show "mm_mem (h\<lparr>mm_mem := m'\<rparr>) z = mm_mem h z" using payload_off_links [OF h c(1,2)] c(3) off by auto
  qed
  ultimately show ?thesis using m'(2) by blast
qed

text \<open>The bounds that \<^verbatim>\<open>mm_addregion\<close> computes, in 32-bit arithmetic.\<close>

definition region_base :: "u32 \<Rightarrow> nat" where
  "region_base start = (unat start + 7) div 8 * 8"

definition region_tail :: "u32 \<Rightarrow> u32 \<Rightarrow> nat" where
  "region_tail start len = (unat start + unat len) div 8 * 8 - 8"

lemma u32_add: "unat a + unat b < 2 ^ 32 \<Longrightarrow> unat (a + b) = unat a + unat b" for a b :: u32
  by (simp add: unat_word_ariths)

lemma u32_sub: "unat b \<le> unat a \<Longrightarrow> unat (a - b) = unat a - unat b" for a b :: u32
  by (simp add: unat_sub word_le_nat_alt)

lemma unat_align_up_down: "unat (MM_ALIGN_UP a) = unat (a + 7) div 8 * 8" "unat (MM_ALIGN_DOWN a) = unat a div 8 * 8"
proof -
  have g: "MM_GRAN_MASK = 7" by simp
  show "unat (MM_ALIGN_UP a) = unat (a + 7) div 8 * 8" "unat (MM_ALIGN_DOWN a) = unat a div 8 * 8"
    unfolding MM_ALIGN_UP_def MM_ALIGN_DOWN_def g unat_align by (rule refl)+
qed

lemma region_word:
  fixes start len :: u32
  assumes "unat start + 23 < 2 ^ 32" "unat start + unat len < 2 ^ 32" "region_base start + 32 \<le> region_tail start len + 8"
  defines "hb \<equiv> MM_ALIGN_UP (start + 16) - 16" and "he \<equiv> MM_ALIGN_DOWN (start + len)"
  shows "unat hb = region_base start" "unat he = region_tail start len + 8" "hb + (len - (hb - start)) = start + len"
    "unat (hb + 8) = region_base start + 8" "unat (he - 8) = region_tail start len"
    "unat (he - hb - 16) = region_tail start len - (region_base start + 8)"
proof -
  have u: "unat (start + 16) = unat start + 16" using u32_add [of start 16] assms(1) by simp
  have "unat (start + 16 + 7) = unat start + 23" using u32_add [of "start + 16" 7] assms(1) u by simp
  then have "unat (MM_ALIGN_UP (start + 16)) = (unat start + 23) div 8 * 8" by (simp only: unat_align_up_down)
  then have "unat (MM_ALIGN_UP (start + 16)) = region_base start + 16" unfolding region_base_def by presburger
  then show hb: "unat hb = region_base start" using u32_sub [of 16 "MM_ALIGN_UP (start + 16)"] by (simp add: hb_def)
  have "unat (start + len) = unat start + unat len" using u32_add assms(2) by simp
  moreover have "8 \<le> (unat start + unat len) div 8 * 8" using assms(3) by (simp add: region_tail_def)
  ultimately show he: "unat he = region_tail start len + 8" by (simp add: he_def unat_align_up_down region_tail_def)
  show "hb + (len - (hb - start)) = start + len" by simp
  have lt: "region_tail start len + 8 < 2 ^ 32" using he unsigned_less [of he, where 'a = nat] by simp
  show "unat (hb + 8) = region_base start + 8" using u32_add [of hb 8] hb lt assms(3) by simp
  show "unat (he - 8) = region_tail start len" using u32_sub [of 8 he] he by simp
  have "unat (he - hb) = region_tail start len + 8 - region_base start" using u32_sub [of hb he] hb he assms(3) by simp
  then show "unat (he - hb - 16) = region_tail start len - (region_base start + 8)"
    using u32_sub [of 16 "he - hb"] assms(3) by simp
qed

text \<open>The arguments of a call that adds a region: no wrap-around, room for the guards and a chunk.\<close>

definition region_args :: "u32 \<Rightarrow> u32 \<Rightarrow> bool" where
  "region_args start len \<longleftrightarrow> unat start + 23 < 2 ^ 32 \<and> unat start + unat len < 2 ^ 32 \<and>
     region_base start + 32 \<le> region_tail start len + 8"

definition added_heap :: "u32 \<Rightarrow> u32 \<Rightarrow> (nat \<Rightarrow> nat) \<Rightarrow> mm_heap_s \<Rightarrow> mm_heap_s" where
  "added_heap start len m' h = (with_region (region_base start) (region_tail start len) h)
     \<lparr>mm_heapsize := mm_heapsize h + (of_nat (region_tail start len + 8) - of_nat (region_base start)),
      mm_curused := mm_curused h + 16, mm_mem := m'\<rparr>"

lemma addregion_steps:
  assumes "mm_lock E h = (OK, h\<lparr>mm_kern := k\<rparr>)" "mm_nregions h < CONFIG_MM_REGIONS"
    and hb: "unat (MM_ALIGN_UP (start + 16) - 16) = b" "unat (MM_ALIGN_UP (start + 16) - 16 + 8) = b + 8"
    and he: "unat (he - 8) = e" "he = MM_ALIGN_DOWN (MM_ALIGN_UP (start + 16) - 16 + (len - (MM_ALIGN_UP (start + 16) - 16 - start)))"
    and sz: "unat (he - (MM_ALIGN_UP (start + 16) - 16) - 16) = e - (b + 8)" and be: "b + 24 \<le> e" "unat he = e + 8"
  shows "mm_addregion E start len h = mm_addfreechunk (b + 8) ((with_region b e h)\<lparr>mm_kern := k,
    mm_heapsize := mm_heapsize h + (of_nat (e + 8) - of_nat b), mm_mem := region_mem b e (mm_mem h)\<rparr>) \<bind>
      (\<lambda>h. Some (mm_unlock E (h\<lparr>mm_curused := mm_curused h + 16\<rparr>)))"
proof -
  define base where "base = MM_ALIGN_UP (start + 16) - 16"
  have two: "of_nat (2 * MM_SIZEOF_ALLOCNODE) = (16 :: u32)" "of_nat MM_SIZEOF_ALLOCNODE = (8 :: u32)" by simp_all
  have flags: "MM_SIZEOF_ALLOCNODE OR MM_ALLOC_BIT = 9" "MM_SIZEOF_ALLOCNODE OR MM_ALLOC_BIT OR MM_PREVFREE_BIT = 11"
    by (simp_all add: MM_ALLOC_BIT_def MM_PREVFREE_BIT_def)
  have w: "of_nat (e + 8) = he" "of_nat b = base" using be(2) hb(1) base_def by (metis of_nat_unat ucast_id)+
  note eq = hb(1) [folded base_def] hb(2) [folded base_def] he(1) sz [folded base_def]
  have "region_mem b e (mm_mem h) = (mm_mem h)(b + 4 := 9, b + 8 + 4 := e - (b + 8), e + 4 := 11, e := e - (b + 8))"
    by (simp add: region_mem_def add.commute)
  then show ?thesis
    unfolding mm_addregion_def Let_def two base_def [symmetric] he(2) [folded base_def, symmetric] flags w eq
    using assms(1,2) be(1) by (cases h) (simp add: with_region_def put_def nd_size_def)
qed

lemma addregion_ready:
  assumes h: "hinv h N L" and r: "mm_ready E h" and n: "mm_nregions h < CONFIG_MM_REGIONS" "length (mm_heapstart h) = CONFIG_MM_REGIONS"
    and a: "region_args start len" and ap: "region_apart (region_base start) (region_tail start len) h N"
  shows "\<exists>m' L'. mm_addregion E start len h = Some (added_heap start len m' h) \<and>
    hinv (added_heap start len m' h) (N @ region_nodes (region_base start) (region_tail start len)) L' \<and>
    intact N h (added_heap start len m' h)"
proof -
  let ?b = "region_base start" and ?e = "region_tail start len"
  note W = region_word [of start len, OF a [unfolded region_args_def, THEN conjunct1]
      a [unfolded region_args_def, THEN conjunct2, THEN conjunct1] a [unfolded region_args_def, THEN conjunct2, THEN conjunct2]]
  obtain k where k: "mm_lock E h = (OK, h\<lparr>mm_kern := k\<rparr>)"
    "\<And>h'. mm_kern h' = k \<Longrightarrow> mm_mutex h' = mm_mutex h \<Longrightarrow> mm_unlock E h' = h'\<lparr>mm_kern := mm_kern h\<rparr>"
    using mm_lock_ready [OF r] by blast
  define h2 where "h2 = (with_region ?b ?e h)\<lparr>mm_kern := k, mm_heapsize := mm_heapsize h + (of_nat (?e + 8) - of_nat ?b),
    mm_mem := region_mem ?b ?e (mm_mem h)\<rparr>"
  have "mm_mem h2 = region_mem ?b ?e (mm_mem h)" "mm_nodelist h2 = mm_nodelist h" by (simp_all add: h2_def)
  with region_added [OF h ap _ this] n obtain m' L' where m': "mm_addfreechunk (?b + 8) h2 = Some (h2\<lparr>mm_mem := m'\<rparr>)"
    "hinv ((with_region ?b ?e h)\<lparr>mm_mem := m'\<rparr>) (N @ region_nodes ?b ?e) L'" "intact N h (h\<lparr>mm_mem := m'\<rparr>)" by auto
  have "mm_addregion E start len h = mm_addfreechunk (?b + 8) h2 \<bind> (\<lambda>h. Some (mm_unlock E (h\<lparr>mm_curused := mm_curused h + 16\<rparr>)))"
    unfolding h2_def
    by (rule addregion_steps [OF k(1) n(1) W(1,4,5) arg_cong [OF W(3) [symmetric]] W(6) _ W(2)])
      (use a in \<open>simp add: region_args_def\<close>)
  then have "mm_addregion E start len h = Some (added_heap start len m' h)"
    using m'(1) k(2) [of "h2\<lparr>mm_mem := m', mm_curused := mm_curused h + 16\<rparr>"] by (simp add: h2_def added_heap_def with_region_def)
  moreover have "hinv (added_heap start len m' h) (N @ region_nodes ?b ?e) L'"
    using m'(2) hinv_cong [of "added_heap start len m' h" "(with_region ?b ?e h)\<lparr>mm_mem := m'\<rparr>"] by (simp add: added_heap_def)
  moreover have "intact N h (added_heap start len m' h)" using m'(3) by (simp add: intact_def added_heap_def)
  ultimately show ?thesis by blast
qed

text \<open>A fourth region is refused.\<close>

lemma addregion_full:
  assumes "mm_ready E h" "CONFIG_MM_REGIONS \<le> mm_nregions h"
  shows "mm_addregion E start len h = Some h"
proof -
  obtain k where "mm_lock E h = (OK, h\<lparr>mm_kern := k\<rparr>)"
    "\<And>h'. mm_kern h' = k \<Longrightarrow> mm_mutex h' = mm_mutex h \<Longrightarrow> mm_unlock E h' = h'\<lparr>mm_kern := mm_kern h\<rparr>"
    using mm_lock_ready [OF assms(1)] by blast
  then show ?thesis using assms(2) by (simp add: mm_addregion_def Let_def)
qed

section \<open>The first region\<close>

lemma added_heap_fields [simp]:
  "mm_mutex (added_heap s n m h) = mm_mutex h" "mm_kern (added_heap s n m h) = mm_kern h"
  "mm_delaylist (added_heap s n m h) = mm_delaylist h" "mm_nodelist (added_heap s n m h) = mm_nodelist h"
  "mm_nregions (added_heap s n m h) = Suc (mm_nregions h)" "mm_curused (added_heap s n m h) = mm_curused h + 16"
  "length (mm_heapstart (added_heap s n m h)) = length (mm_heapstart h)"
  by (simp_all add: added_heap_def with_region_def)

lemma new_heap_ready:
  assumes "kinv k" "waitlist (sems k (adr + off_lock lay)) = []"
  shows "mm_ready E (new_heap lay adr m k)"
  using kinv_mutex_init [OF assms] mutex_init_is_mutex [of "adr + off_lock lay" k]
  by (simp add: mm_ready_def new_heap_def sems_mutex_init nxmutex_is_locked_def NXSEM_MACQUIRED_def NXSEM_MBLOCKING_def NXSEM_NO_MHOLDER_def)

text \<open>
  The region that is left when the control block has been taken from the start of the one of \<open>len\<close> bytes at
  \<open>start\<close>.
\<close>

definition first_start :: "heap_layout \<Rightarrow> u32 \<Rightarrow> u32" where
  "first_start lay start = MM_ALIGN_UP start + sizeof_heap lay"

definition first_len :: "heap_layout \<Rightarrow> u32 \<Rightarrow> u32 \<Rightarrow> u32" where
  "first_len lay start len = len - (MM_ALIGN_UP start - start) - sizeof_heap lay"

lemma first_region:
  assumes "0 < unat start" "unat start + unat len < 2 ^ 32" "region_base start + unat (sizeof_heap lay) + 48 \<le> unat start + unat len"
  shows "unat (MM_ALIGN_UP start) = region_base start" "region_args (first_start lay start) (first_len lay start len)"
    "unat (first_start lay start) = region_base start + unat (sizeof_heap lay)"
    "region_tail (first_start lay start) (first_len lay start len) = (unat start + unat len) div 8 * 8 - 8"
    "0 < region_base start"
proof -
  let ?b = "region_base start" and ?s = "unat (sizeof_heap lay)"
  have b: "unat start \<le> ?b" "?b < unat start + 8" unfolding region_base_def by presburger+
  have "unat (start + 7) = unat start + 7" using u32_add [of start 7] b assms(2,3) by simp
  then show up: "unat (MM_ALIGN_UP start) = ?b" by (simp add: unat_align_up_down region_base_def)
  show fs: "unat (first_start lay start) = ?b + ?s"
    unfolding first_start_def using u32_add [of "MM_ALIGN_UP start" "sizeof_heap lay"] up assms(2,3) by simp
  have d: "unat (MM_ALIGN_UP start - start) = ?b - unat start" using u32_sub [of start "MM_ALIGN_UP start"] up b by simp
  have "unat (len - (MM_ALIGN_UP start - start)) = unat len - (?b - unat start)"
    using u32_sub [of "MM_ALIGN_UP start - start" len] d b assms(3) by simp
  then have fl: "unat (first_len lay start len) = unat len - (?b - unat start) - ?s"
    unfolding first_len_def using u32_sub [of "sizeof_heap lay" "len - (MM_ALIGN_UP start - start)"] b assms(3) by simp
  have sum: "unat (first_start lay start) + unat (first_len lay start len) = unat start + unat len" using fs fl b assms(3) by simp
  then show t: "region_tail (first_start lay start) (first_len lay start len) = (unat start + unat len) div 8 * 8 - 8"
    by (simp add: region_tail_def)
  have rb: "region_base (first_start lay start) < unat (first_start lay start) + 8" unfolding region_base_def by presburger
  have "unat start + unat len < (unat start + unat len) div 8 * 8 + 8" by presburger
  then show "region_args (first_start lay start) (first_len lay start len)"
    unfolding region_args_def t sum using rb fs assms(2,3) by simp
  show "0 < ?b" using b assms(1) by simp
qed

lemma initialize_first:
  assumes lay: "layout_ok lay" and k: "kinv k" "waitlist (sems k (region_base start + off_lock lay)) = []"
    and r: "0 < unat start" "unat start + unat len < 2 ^ 32" "region_base start + unat (sizeof_heap lay) + 48 \<le> unat start + unat len"
  defines "b \<equiv> region_base (first_start lay start)" and "e \<equiv> (unat start + unat len) div 8 * 8 - 8"
  shows "\<exists>m' L. mm_initialize_heap E lay \<lparr>cfg_heap = None, cfg_start = start, cfg_size = len\<rparr> m k =
      Some (Some (added_heap (first_start lay start) (first_len lay start len) m' (new_heap lay (region_base start) m k)), None) \<and>
    hinv (added_heap (first_start lay start) (first_len lay start len) m' (new_heap lay (region_base start) m k)) (region_nodes b e) L"
proof -
  let ?h = "new_heap lay (region_base start) m k"
  note F = first_region [OF r]
  have h: "hinv ?h [] (headers (region_base start + off_nodelist lay))" by (rule new_heap_hinv [OF lay F(5)])
  have fb: "unat (first_start lay start) \<le> b" unfolding b_def region_base_def by presburger
  have "region_base start + off_nodelist lay + 16 * MM_NNODES \<le> b" using fb F(3) lay by (simp add: layout_ok_def)
  moreover have "8 dvd b" "8 dvd e" "e + 8 \<le> 2 ^ 32" "b + 24 \<le> e" "0 < b"
    using r(2) F(2) F(3-5) fb unfolding b_def e_def region_args_def F(4) by (auto simp: region_base_def)
  ultimately have "region_apart b e ?h []" by (simp add: region_apart_def new_heap_def)
  then have "\<exists>m' L'. mm_addregion E (first_start lay start) (first_len lay start len) ?h =
      Some (added_heap (first_start lay start) (first_len lay start len) m' ?h) \<and>
    hinv (added_heap (first_start lay start) (first_len lay start len) m' ?h) ([] @ region_nodes b e) L' \<and>
    intact [] ?h (added_heap (first_start lay start) (first_len lay start len) m' ?h)"
    unfolding b_def e_def F(4) [symmetric]
    by (intro addregion_ready [OF h new_heap_ready [OF k] _ _ F(2)]) (simp_all add: new_heap_def)
  then show ?thesis by (auto simp: mm_initialize_heap_def Let_def F(1) first_start_def first_len_def)
qed

section \<open>The heap of the board\<close>

lemma board_regions:
  "region_base SRAM2_START = 0x10000000" "region_tail SRAM2_START (SRAM2_END - SRAM2_START) = 0x1000FFF8"
  "region_base CONFIG_HEAP2_BASE = 0xD0000000" "region_tail CONFIG_HEAP2_BASE CONFIG_HEAP2_SIZE = 0xD07FFFF8"
  "region_args SRAM2_START (SRAM2_END - SRAM2_START)" "region_args CONFIG_HEAP2_BASE CONFIG_HEAP2_SIZE"
  by (simp_all add: region_args_def region_base_def region_tail_def SRAM2_START_def SRAM2_END_def CONFIG_HEAP2_BASE_def CONFIG_HEAP2_SIZE_def)

definition board_nodes :: "node list" where
  "board_nodes = region_nodes 0x10000000 0x1000FFF8 @ region_nodes 0xD0000000 0xD07FFFF8"

text \<open>A heap whose first region is in the system SRAM.\<close>

definition in_sram :: "mm_heap_s \<Rightarrow> node list \<Rightarrow> bool" where
  "in_sram h N \<longleftrightarrow> 0x20000000 \<le> mm_nodelist h \<and> mm_nodelist h + 16 * MM_NNODES \<le> unat SRAM1_END \<and>
     (\<forall>(x, s, al) \<in> set N. 0x20000000 \<le> x \<and> x + s \<le> unat SRAM1_END)"

lemma arm_addregion_ok:
  assumes h: "hinv h N L" and r: "mm_ready E h" and n: "mm_nregions h = 1" "length (mm_heapstart h) = CONFIG_MM_REGIONS"
    and sram: "in_sram h N"
  shows "\<exists>h' L'. arm_addregion E h = Some h' \<and> hinv h' (N @ board_nodes) L' \<and> intact N h h' \<and>
    mm_kern h' = mm_kern h \<and> mm_mutex h' = mm_mutex h \<and> mm_delaylist h' = mm_delaylist h \<and> mm_nregions h' = 3 \<and>
    mm_curused h' = mm_curused h + 32"
proof -
  let ?s1 = SRAM2_START and ?n1 = "SRAM2_END - SRAM2_START" and ?s2 = CONFIG_HEAP2_BASE and ?n2 = CONFIG_HEAP2_SIZE
  have "region_apart (region_base ?s1) (region_tail ?s1 ?n1) h N"
    using sram unfolding board_regions by (fastforce simp: region_apart_def in_sram_def)
  then obtain m1 L1 where h1: "mm_addregion E ?s1 ?n1 h = Some (added_heap ?s1 ?n1 m1 h)"
    "hinv (added_heap ?s1 ?n1 m1 h) (N @ region_nodes 0x10000000 0x1000FFF8) L1" "intact N h (added_heap ?s1 ?n1 m1 h)"
    using addregion_ready [OF h r _ n(2) board_regions(5)] n(1) unfolding board_regions by auto
  let ?h1 = "added_heap ?s1 ?n1 m1 h" and ?N1 = "N @ region_nodes 0x10000000 0x1000FFF8"
  have "region_apart (region_base ?s2) (region_tail ?s2 ?n2) ?h1 ?N1"
    using sram unfolding board_regions by (fastforce simp: region_apart_def in_sram_def region_nodes_def SRAM1_END_def)
  moreover have "mm_ready E ?h1" using r by (simp add: mm_ready_def)
  ultimately obtain m2 L2 where h2: "mm_addregion E ?s2 ?n2 ?h1 = Some (added_heap ?s2 ?n2 m2 ?h1)"
    "hinv (added_heap ?s2 ?n2 m2 ?h1) (?N1 @ region_nodes 0xD0000000 0xD07FFFF8) L2" "intact ?N1 ?h1 (added_heap ?s2 ?n2 m2 ?h1)"
    using addregion_ready [OF h1(2) _ _ _ board_regions(6)] n unfolding board_regions by fastforce
  have len: "mm_nregions h < length (mm_heapstart h)" "length (mm_heapstart h) = length (mm_heapend h)"
    using n h by (simp_all add: hinv_def)
  have "guards ?h1 = guards h \<union> {0x10000000, 0x1000FFF8}"
    using with_region_bounds(1) [OF len, of "0x10000000" "0x1000FFF8"] by (simp add: added_heap_def board_regions bounds_def)
  moreover have "c \<notin> {0x10000000, 0x1000FFF8}" if "(c, u, True) \<in> set N" for c u using sram that by (auto simp: in_sram_def)
  ultimately have "intact N h (added_heap ?s2 ?n2 m2 ?h1)" using h1(3) h2(3) unfolding intact_def by (metis UnCI UnE set_append)
  then show ?thesis using h1(1) h2(1,2) n(1)
    by (intro exI [of _ "added_heap ?s2 ?n2 m2 ?h1"] exI [of _ L2]) (simp add: arm_addregion_def umm_addregion_def board_nodes_def)
qed

end
